(* ===== verification/Prelude.thy ===== *)
theory Prelude
  imports Main "HOL-Library.Word"
begin

text \<open>
  Shared vocabulary of the development: thread identifiers and error numbers, the outcome
  of a C++ call (return, exception, abort, undefined behaviour, blocking), the ordered
  \<^verbatim>\<open>std::map\<close> as a key-sorted association list with its interface, bit tests on bytes as
  the C++ bit expressions compute them, and lemmas on counting and relations that several
  components use.
\<close>

unbundle bit_operations_syntax

named_theorems outcome_simps \<open>evaluation of sequenced calls\<close>
named_theorems byte_simps \<open>bit tests and updates on one byte\<close>

section \<open>Thread identifiers, error numbers\<close>

type_synonym tid = nat
type_synonym errno = int

abbreviation (input) EPERM :: errno where "EPERM \<equiv> 1"
abbreviation (input) ESRCH :: errno where "ESRCH \<equiv> 3"
abbreviation (input) EAGAIN :: errno where "EAGAIN \<equiv> 11"
abbreviation (input) EBUSY :: errno where "EBUSY \<equiv> 16"
abbreviation (input) EINVAL :: errno where "EINVAL \<equiv> 22"
abbreviation (input) ERANGE :: errno where "ERANGE \<equiv> 34"
abbreviation (input) EDEADLK :: errno where "EDEADLK \<equiv> 35"
abbreviation (input) ETIMEDOUT :: errno where "ETIMEDOUT \<equiv> 110"

section \<open>Outcomes of a call\<close>

text \<open>
  \<open>Ret\<close> is a normal return with the new state, \<open>Throw\<close> a C++ exception (the state at
  the throw is kept, since a caller may catch it), \<open>Abort\<close> the end of the process through
  \<^verbatim>\<open>abort()\<close> (a failed \<^verbatim>\<open>ASSERT\<close>, the lockdep reports, the suicide timeout),
  \<open>Undef\<close> undefined behaviour (an index outside an array, unbounded recursion), and
  \<open>Block\<close> a call that has to wait for another thread, with the state it waits in.
\<close>

datatype exn = Runtime_error string | System_error errno

datatype ('a, 's) outcome =
    Ret 'a 's
  | Throw exn 's
  | Abort
  | Undef
  | Block 's

fun bind :: "('a, 's) outcome \<Rightarrow> ('a \<Rightarrow> 's \<Rightarrow> ('b, 's) outcome) \<Rightarrow> ('b, 's) outcome" where
  "bind (Ret a s) f = f a s"
| "bind (Throw e s) f = Throw e s"
| "bind Abort f = Abort"
| "bind Undef f = Undef"
| "bind (Block s) f = Block s"

fun lift_state :: "('s \<Rightarrow> 't) \<Rightarrow> ('a, 's) outcome \<Rightarrow> ('a, 't) outcome" where
  "lift_state g (Ret a s) = Ret a (g s)"
| "lift_state g (Throw e s) = Throw e (g s)"
| "lift_state g Abort = Abort"
| "lift_state g Undef = Undef"
| "lift_state g (Block s) = Block (g s)"

definition assert_that :: "bool \<Rightarrow> 's \<Rightarrow> (unit, 's) outcome" where
  "assert_that c s = (if c then Ret () s else Abort)"

lemma assert_that_cases [outcome_simps]:
  "assert_that True s = Ret () s"
  "assert_that False s = Abort"
  by (simp_all add: assert_that_def)

lemma bind_eq_Ret_iff:
  "bind m f = Ret b s' \<longleftrightarrow> (\<exists>a s. m = Ret a s \<and> f a s = Ret b s')"
  by (cases m) auto

lemma bind_eq_Abort_iff:
  "bind m f = Abort \<longleftrightarrow> m = Abort \<or> (\<exists>a s. m = Ret a s \<and> f a s = Abort)"
  by (cases m) auto

lemma bind_assoc: "bind (bind m f) g = bind m (\<lambda>a s. bind (f a s) g)"
  by (cases m) auto

lemma lift_state_eq_Ret_iff:
  "lift_state g m = Ret a t \<longleftrightarrow> (\<exists>s. m = Ret a s \<and> t = g s)"
  by (cases m) auto

lemma assert_that_eq_Ret_iff:
  "assert_that c s = Ret u t \<longleftrightarrow> c \<and> t = s"
  by (auto simp: assert_that_def)

lemmas outcome_inv = bind_eq_Ret_iff lift_state_eq_Ret_iff assert_that_eq_Ret_iff

section \<open>Ordered maps: \<^verbatim>\<open>std::map\<close>\<close>

text \<open>
  A \<^verbatim>\<open>std::map\<close> iterates its entries in ascending key order, and the lockdep loop over
  the held locks depends on that order; so it is a list of pairs with strictly ascending
  keys.
\<close>

fun smap_put :: "'k::linorder \<Rightarrow> 'v \<Rightarrow> ('k \<times> 'v) list \<Rightarrow> ('k \<times> 'v) list" where
  "smap_put k v [] = [(k, v)]"
| "smap_put k v ((k', v') # xs) =
     (if k < k' then (k, v) # (k', v') # xs
      else if k = k' then (k, v) # xs
      else (k', v') # smap_put k v xs)"

definition smap_erase :: "'k \<Rightarrow> ('k \<times> 'v) list \<Rightarrow> ('k \<times> 'v) list" where
  "smap_erase k xs = filter (\<lambda>p. fst p \<noteq> k) xs"

definition smap_keys :: "('k \<times> 'v) list \<Rightarrow> 'k set" where
  "smap_keys xs = fst ` set xs"

definition smap_wf :: "('k::linorder \<times> 'v) list \<Rightarrow> bool" where
  "smap_wf xs = sorted_wrt (<) (map fst xs)"

lemma smap_keys_simps [simp]:
  "smap_keys [] = {}"
  "smap_keys (p # xs) = insert (fst p) (smap_keys xs)"
  by (simp_all add: smap_keys_def)

lemma smap_keys_put [simp]: "smap_keys (smap_put k v xs) = insert k (smap_keys xs)"
  by (induction k v xs rule: smap_put.induct) auto

lemma smap_keys_erase [simp]: "smap_keys (smap_erase k xs) = smap_keys xs - {k}"
  by (auto simp: smap_keys_def smap_erase_def)

lemma smap_wf_simps [simp]:
  "smap_wf []"
  "smap_wf (p # xs) \<longleftrightarrow> (\<forall>k \<in> smap_keys xs. fst p < k) \<and> smap_wf xs"
  by (auto simp: smap_wf_def smap_keys_def)

lemma smap_wf_put: "smap_wf xs \<Longrightarrow> smap_wf (smap_put k v xs)"
  by (induction k v xs rule: smap_put.induct) (auto simp: not_less order.order_iff_strict)

lemma smap_wf_erase: "smap_wf xs \<Longrightarrow> smap_wf (smap_erase k xs)"
  by (induction xs) (auto simp: smap_erase_def smap_keys_def)

lemma map_of_smap_put: "smap_wf xs \<Longrightarrow> map_of (smap_put k v xs) = (map_of xs)(k \<mapsto> v)"
proof (induction k v xs rule: smap_put.induct)
  case (2 k v k' v' xs)
  then show ?case
    by (cases k k' rule: linorder_cases) (auto simp: fun_eq_iff)
qed auto

lemma map_of_smap_erase: "map_of (smap_erase k xs) = (map_of xs)(k := None)"
  by (induction xs) (auto simp: smap_erase_def fun_eq_iff)

text \<open>The interface the lockdep state relies on, and its instance on sorted lists.\<close>

locale ordered_map =
  fixes put :: "'k::linorder \<Rightarrow> 'v \<Rightarrow> 'm \<Rightarrow> 'm"
    and erase :: "'k \<Rightarrow> 'm \<Rightarrow> 'm"
    and find :: "'m \<Rightarrow> 'k \<Rightarrow> 'v option"
    and keys :: "'m \<Rightarrow> 'k set"
    and wf :: "'m \<Rightarrow> bool"
  assumes find_put: "wf m \<Longrightarrow> find (put k v m) = (find m)(k \<mapsto> v)"
    and find_erase: "wf m \<Longrightarrow> find (erase k m) = (find m)(k := None)"
    and keys_find: "keys m = dom (find m)"
    and wf_put: "wf m \<Longrightarrow> wf (put k v m)"
    and wf_erase: "wf m \<Longrightarrow> wf (erase k m)"
begin

lemma erase_put_find: "wf m \<Longrightarrow> find m k = None \<Longrightarrow> find (erase k (put k v m)) = find m"
  by (auto simp: find_erase find_put wf_put fun_eq_iff)

lemma keys_put: "wf m \<Longrightarrow> keys (put k v m) = insert k (keys m)"
  by (simp add: keys_find find_put)

lemma keys_erase: "wf m \<Longrightarrow> keys (erase k m) = keys m - {k}"
  by (auto simp: keys_find find_erase split: if_splits)

end

interpretation smap: ordered_map smap_put smap_erase map_of smap_keys smap_wf
  by unfold_locales
    (simp_all add: map_of_smap_put map_of_smap_erase smap_wf_put smap_wf_erase smap_keys_def
      dom_map_of_conv_image_fst)

section \<open>Bits of a byte\<close>

text \<open>
  \<^verbatim>\<open>c & (1 << j)\<close>, \<^verbatim>\<open>c |= (1 << j)\<close> and \<^verbatim>\<open>c &= 255 - (1 << j)\<close> on a \<^verbatim>\<open>char\<close>, for
  \<open>j < 8\<close>: the promotion to \<^verbatim>\<open>int\<close> sign-extends, but the masks only keep the low eight
  bits, so the operations are those of \<open>8 word\<close>.
\<close>

type_synonym byte = "8 word"

definition byte_test :: "byte \<Rightarrow> nat \<Rightarrow> bool" where
  "byte_test c j = (c AND push_bit j 1 \<noteq> 0)"

definition byte_set :: "byte \<Rightarrow> nat \<Rightarrow> byte" where
  "byte_set c j = c OR push_bit j 1"

definition byte_clear :: "byte \<Rightarrow> nat \<Rightarrow> byte" where
  "byte_clear c j = c AND (255 - push_bit j 1)"

lemma byte_test_bit: "j < 8 \<Longrightarrow> byte_test c j = bit c j"
  by (simp only: byte_test_def bit_iff_and_push_bit_not_eq_0)

lemma byte_mask_minus: "(255 :: byte) - push_bit j 1 = NOT (push_bit j 1)"
proof -
  have "(255 :: byte) = - 1" by simp
  then show ?thesis by (simp add: not_eq_complement)
qed

lemma byte_set_bit: "j < 8 \<Longrightarrow> k < 8 \<Longrightarrow> byte_test (byte_set c j) k \<longleftrightarrow> k = j \<or> byte_test c k"
  by (auto simp: byte_test_bit byte_set_def bit_simps)

lemma byte_clear_bit: "j < 8 \<Longrightarrow> k < 8 \<Longrightarrow> byte_test (byte_clear c j) k \<longleftrightarrow> k \<noteq> j \<and> byte_test c k"
  unfolding byte_clear_def byte_mask_minus by (auto simp: byte_test_bit bit_simps)

lemma byte_test_zero [byte_simps]: "\<not> byte_test 0 j"
  by (simp add: byte_test_def)

lemma byte_test_full [byte_simps]: "j < 8 \<Longrightarrow> byte_test 255 j"
proof -
  assume j: "j < 8"
  have "(255 :: byte) = - 1" by simp
  then have "bit (255 :: byte) j" using j by (simp only: bit_minus_1_iff) simp
  then show ?thesis using j by (simp add: byte_test_bit)
qed

lemmas byte_bits [byte_simps] = byte_set_bit byte_clear_bit

lemma div_mod_8_eq_iff: "(a::nat) div 8 = b div 8 \<and> a mod 8 = b mod 8 \<longleftrightarrow> a = b"
  by (metis div_mod_decomp)

section \<open>Searching with a partial test\<close>

text \<open>
  A loop that returns at the first element whose test holds, where the test itself may
  fail to return (\<open>None\<close>).
\<close>

fun first_true :: "('a \<Rightarrow> bool option) \<Rightarrow> 'a list \<Rightarrow> bool option" where
  "first_true f [] = Some False"
| "first_true f (x # xs) =
     (case f x of None \<Rightarrow> None | Some True \<Rightarrow> Some True | Some False \<Rightarrow> first_true f xs)"

lemma first_true_Some_True: "first_true f xs = Some True \<Longrightarrow> \<exists>x \<in> set xs. f x = Some True"
  by (induction xs) (auto split: option.splits bool.splits)

lemma first_true_Some_False: "first_true f xs = Some False \<Longrightarrow> x \<in> set xs \<Longrightarrow> f x = Some False"
  by (induction xs) (auto split: option.splits bool.splits)

lemma first_true_None: "first_true f xs = None \<Longrightarrow> \<exists>x \<in> set xs. f x = None"
  by (induction xs) (auto split: option.splits bool.splits)

section \<open>Paths in acyclic relations\<close>

lemma acyclic_path_bound:
  assumes "acyclic r" "r \<subseteq> {..<N} \<times> {..<N}" "(a, c) \<in> r ^^ n" "0 < N"
  shows "n < N"
proof -
  obtain f where f: "f 0 = a" "\<forall>i<n. (f i, f (Suc i)) \<in> r"
    using assms(3) by (auto simp: relpow_fun_conv)
  have step: "(f i, f j) \<in> r\<^sup>+" if "i < j" "j \<le> n" for i j
    using that
  proof (induction j)
    case (Suc j)
    then have edge: "(f j, f (Suc j)) \<in> r" using f(2) by simp
    show ?case
    proof (cases "i = j")
      case True
      then show ?thesis using edge by blast
    next
      case False
      then have "(f i, f j) \<in> r\<^sup>+" using Suc by simp
      then show ?thesis using edge by (rule trancl_into_trancl)
    qed
  qed simp
  have inj: "inj_on f {..n}"
  proof (rule inj_onI)
    fix i j assume ij: "i \<in> {..n}" "j \<in> {..n}" "f i = f j"
    show "i = j"
    proof (rule ccontr)
      assume "i \<noteq> j"
      then consider "i < j" | "j < i" by linarith
      then have "(f i, f i) \<in> r\<^sup>+"
        using step [of i j] step [of j i] ij by cases simp_all
      then show False using assms(1) by (simp add: acyclic_def)
    qed
  qed
  show ?thesis
  proof (cases n)
    case 0
    then show ?thesis using assms(4) by simp
  next
    case (Suc m)
    have "f i \<in> {..<N}" if "i \<le> n" for i
    proof (cases "i < n")
      case True
      then show ?thesis using f(2) assms(2) by blast
    next
      case False
      then have "i = Suc m" using that Suc by simp
      then show ?thesis using f(2) assms(2) Suc by blast
    qed
    then have "f ` {..n} \<subseteq> {..<N}" by auto
    then have "card {..n} \<le> card {..<N}"
      using inj by (metis card_image card_mono finite_lessThan)
    then show ?thesis by simp
  qed
qed

lemma acyclic_insert_into:
  assumes "acyclic r" "\<forall>h \<in> H. h \<noteq> x \<and> (x, h) \<notin> r\<^sup>+"
  shows "acyclic (r \<union> H \<times> {x})"
    and "\<And>y. (x, y) \<in> (r \<union> H \<times> {x})\<^sup>+ \<longleftrightarrow> (x, y) \<in> r\<^sup>+"
proof -
  have only: "(x, y) \<in> r\<^sup>+" if "(x, y) \<in> (r \<union> H \<times> {x})\<^sup>+" for y
    using that
  proof (induction rule: trancl_induct)
    case (base y)
    then show ?case using assms(2) by blast
  next
    case (step y z)
    then show ?case using assms(2) by (auto intro: trancl_into_trancl)
  qed
  then show "(x, y) \<in> (r \<union> H \<times> {x})\<^sup>+ \<longleftrightarrow> (x, y) \<in> r\<^sup>+" for y
    by (meson Un_upper1 trancl_mono)
  have from_any: "(a, y) \<in> r\<^sup>+ \<or> ((a, x) \<in> r\<^sup>* O (H \<times> {x}) \<and> (x, y) \<in> r\<^sup>*)"
    if "(a, y) \<in> (r \<union> H \<times> {x})\<^sup>+" for a y
    using that
  proof (induction rule: trancl_induct)
    case (base y)
    then show ?case by auto
  next
    case (step y z)
    then show ?case
      using assms(2) only
      by (auto intro: trancl_into_trancl rtrancl_into_rtrancl trancl_into_rtrancl dest: rtranclD)
  qed
  show "acyclic (r \<union> H \<times> {x})"
    unfolding acyclic_def
  proof (intro allI notI)
    fix a assume "(a, a) \<in> (r \<union> H \<times> {x})\<^sup>+"
    then have "(a, x) \<in> r\<^sup>* O (H \<times> {x}) \<and> (x, a) \<in> r\<^sup>*"
      using from_any assms(1) by (meson acyclic_def)
    then obtain h where "h \<in> H" "(a, h) \<in> r\<^sup>*" "(x, a) \<in> r\<^sup>*" by auto
    then have "h \<in> H" "(x, h) \<in> r\<^sup>*" by auto
    then show False using assms(2) by (metis rtranclD)
  qed
qed

end
