(* ===== verification/Backtrace.thy ===== *)
theory Backtrace
  imports Prelude
begin

text \<open>
  \<^verbatim>\<open>synchronization/backtrace.h\<close> and \<^verbatim>\<open>backtrace.cc\<close>: the captured call stack, its
  printing, and the rewriting of one symbol line. The frames that \<^verbatim>\<open>backtrace()\<close> and
  \<^verbatim>\<open>backtrace_symbols()\<close> deliver are an argument of the constructor; the ABI's demangler
  \<^verbatim>\<open>__cxa_demangle\<close> is an argument \<open>cxa\<close> (\<open>Some d\<close> for status 0).
\<close>

section \<open>The captured stack\<close>

definition max_depth :: nat where
  "max_depth = 30"

record BackTrace =
  bt_strings :: "string list"
  bt_size :: nat
  bt_skip :: int

definition BackTrace_ctor :: "int \<Rightarrow> string list \<Rightarrow> BackTrace" where
  "BackTrace_ctor s frames =
     (let array = take max_depth frames
      in \<lparr>bt_strings = array, bt_size = length array, bt_skip = s\<rparr>)"

section \<open>Demangling one line\<close>

text \<open>
  The loop over the characters keeps the position after the last opening parenthesis and
  the position of the last plus sign.
\<close>

fun demangle_scan ::
  "string \<Rightarrow> nat \<Rightarrow> nat option \<Rightarrow> nat option \<Rightarrow> nat option \<times> nat option" where
  "demangle_scan [] p begin end = (begin, end)"
| "demangle_scan (c # cs) p begin end =
     (if c = CHR ''('' then demangle_scan cs (Suc p) (Some (Suc p)) end
      else if c = CHR ''+'' then demangle_scan cs (Suc p) begin (Some p)
      else demangle_scan cs (Suc p) begin end)"

definition demangle :: "(string \<Rightarrow> string option) \<Rightarrow> string \<Rightarrow> string" where
  "demangle cxa name =
     (case demangle_scan name 0 None None of
        (Some begin, Some end) \<Rightarrow>
          if begin < end then
            let mangled = take (end - begin) (drop begin name)
            in if take 2 mangled = ''_Z'' then
                 (case cxa mangled of
                    Some demangled \<Rightarrow> ''('' @ demangled @ drop end name
                  | None \<Rightarrow> mangled @ ''()'')
               else mangled @ ''()''
          else name
      | _ \<Rightarrow> name)"

text \<open>
  Printing: one numbered line per frame from \<^verbatim>\<open>skip\<close> on. A negative \<^verbatim>\<open>skip\<close> converted
  to \<^verbatim>\<open>size_t\<close> is larger than any size, so nothing is printed then.
\<close>

definition BackTrace_print :: "(string \<Rightarrow> string option) \<Rightarrow> BackTrace \<Rightarrow> (nat \<times> string) list" where
  "BackTrace_print cxa bt =
     (if bt_skip bt < 0 then []
      else map (\<lambda>i. (i - nat (bt_skip bt) + 1, demangle cxa (bt_strings bt ! i)))
             [nat (bt_skip bt)..<bt_size bt])"

section \<open>What the scan finds\<close>

lemma demangle_scan_append:
  "demangle_scan (xs @ ys) p b e =
     (case demangle_scan xs p b e of (b', e') \<Rightarrow> demangle_scan ys (p + length xs) b' e')"
  by (induction xs p b e rule: demangle_scan.induct) auto

lemma demangle_scan_plain:
  assumes "CHR ''('' \<notin> set xs" "CHR ''+'' \<notin> set xs"
  shows "demangle_scan xs p b e = (b, e)"
  using assms by (induction xs p b e rule: demangle_scan.induct) auto

lemma demangle_scan_no_open:
  "CHR ''('' \<notin> set xs \<Longrightarrow> fst (demangle_scan xs p b e) = b"
  by (induction xs p b e rule: demangle_scan.induct) auto

lemma demangle_scan_no_plus:
  "CHR ''+'' \<notin> set xs \<Longrightarrow> snd (demangle_scan xs p b e) = e"
  by (induction xs p b e rule: demangle_scan.induct) auto

lemma demangle_scan_frame:
  assumes "CHR ''('' \<notin> set fn" "CHR ''('' \<notin> set off" "CHR ''+'' \<notin> set off"
  shows "demangle_scan (obj @ ''('' @ fn @ ''+'' @ off) 0 None None =
           (Some (length obj + 1), Some (length obj + 1 + length fn))"
proof -
  obtain b e where obj: "demangle_scan obj 0 None None = (b, e)" by fastforce
  obtain e' where fn: "demangle_scan fn (Suc (length obj)) (Some (Suc (length obj))) e =
      (Some (Suc (length obj)), e')"
    using demangle_scan_no_open [OF assms(1)] by (metis prod.collapse)
  show ?thesis
    using assms(2,3) by (simp add: demangle_scan_append obj fn demangle_scan_plain)
qed

text \<open>
  a symbol line \<^verbatim>\<open>object(function+offset) [address]\<close> is rewritten to the demangled
  name inside the parenthesis when the function is a mangled C++ name that the ABI can
  demangle, and to the bare function name followed by \<^verbatim>\<open>()\<close> otherwise; whatever the
  object's path contains does not matter.
\<close>
theorem demangle_frame_line:
  assumes "CHR ''('' \<notin> set fn" "CHR ''('' \<notin> set off" "CHR ''+'' \<notin> set off" "fn \<noteq> []"
  shows "demangle cxa (obj @ ''('' @ fn @ ''+'' @ off) =
           (if take 2 fn = ''_Z'' \<and> cxa fn \<noteq> None
            then ''('' @ the (cxa fn) @ ''+'' @ off
            else fn @ ''()'')"
  using assms(4) unfolding demangle_def demangle_scan_frame [OF assms(1-3)]
  by (auto split: option.splits)

theorem demangle_frame_line_witness:
  "demangle (\<lambda>_. Some ''f(int)'') ''./a.out(_Z1fi+0x1d) [0x40]'' = ''(f(int)+0x1d) [0x40]''"
  using demangle_frame_line
    [of "''_Z1fi''" "''0x1d) [0x40]''" "\<lambda>_. Some ''f(int)''" "''./a.out''"]
  by simp

lemma map_minus_upt: "map (\<lambda>i. i - k + 1) [k..<n] = [1..<Suc (n - k)]"
  by (rule nth_equalityI) (auto simp del: upt_Suc)

text \<open>
  The printed lines of a captured stack are numbered from 1 on without gaps, one for each
  of the at most 30 kept frames after the skipped ones.
\<close>

lemma BackTrace_print_numbering:
  assumes "0 \<le> s"
  shows "map fst (BackTrace_print cxa (BackTrace_ctor s frames)) =
           [1..<Suc (min (length frames) max_depth - nat s)]"
  using assms map_minus_upt [of "nat s" "min (length frames) max_depth"]
  by (simp add: BackTrace_print_def BackTrace_ctor_def Let_def comp_def)

end
