(* ===== verification/Lockdep.thy ===== *)
theory Lockdep
  imports Backtrace
begin

text \<open>
  \<^verbatim>\<open>synchronization/utils.cc\<close>: the lock-order checker. Its file-level variables are the
  record \<open>lockdep_state\<close>, each function is one definition, and every function body that the
  source runs between \<^verbatim>\<open>pthread_mutex_lock(&lockdep_mutex)\<close> and the matching unlock is one
  atomic transformation of that record. Text written to the streams is not kept.
\<close>

section \<open>State\<close>

definition MAX_LOCKS :: nat where
  "MAX_LOCKS = 4096"

record lockdep_state =
  lock_ids_bitmap :: "nat \<Rightarrow> byte"
  lock_ids_bitmap_initialized :: bool
  last_free_lock_id :: int
  name_to_id_map :: "string \<rightharpoonup> nat"
  id_to_name_map :: "nat \<rightharpoonup> string"
  lock_ref :: "nat \<rightharpoonup> int"
  held_locks :: "tid \<Rightarrow> (nat \<times> BackTrace) list"
  lock_tree :: "nat \<Rightarrow> nat \<Rightarrow> byte"
  lock_tree_backtrace :: "nat \<Rightarrow> nat \<Rightarrow> BackTrace option"
  current_max_id :: nat

definition lockdep_init :: lockdep_state where
  "lockdep_init =
     \<lparr>lock_ids_bitmap = (\<lambda>_. 0), lock_ids_bitmap_initialized = False,
      last_free_lock_id = -1, name_to_id_map = Map.empty, id_to_name_map = Map.empty,
      lock_ref = Map.empty, held_locks = (\<lambda>_. []), lock_tree = (\<lambda>_ _. 0),
      lock_tree_backtrace = (\<lambda>_ _. None), current_max_id = 0\<rparr>"

section \<open>Lock identifiers\<close>

definition init_lock_ids_bitmap :: "lockdep_state \<Rightarrow> lockdep_state" where
  "init_lock_ids_bitmap s =
     (if \<not> lock_ids_bitmap_initialized s then
        s\<lparr>lock_ids_bitmap :=
             (\<lambda>i. if i < MAX_LOCKS div 8 then 255 else lock_ids_bitmap s i),
          lock_ids_bitmap_initialized := True\<rparr>
      else s)"

definition id_bit :: "lockdep_state \<Rightarrow> nat \<Rightarrow> bool" where
  "id_bit s k = byte_test (lock_ids_bitmap s (k div 8)) (k mod 8)"

definition clear_id_bit :: "nat \<Rightarrow> nat \<Rightarrow> lockdep_state \<Rightarrow> lockdep_state" where
  "clear_id_bit i j s =
     s\<lparr>lock_ids_bitmap := (lock_ids_bitmap s)(i := byte_clear (lock_ids_bitmap s i) j)\<rparr>"

text \<open>The two nested loops over the bytes and the bits of a byte.\<close>

function scan_bits :: "byte \<Rightarrow> nat \<Rightarrow> nat option" where
  "scan_bits c j =
     (if j < 8 then if byte_test c j then Some j else scan_bits c (j + 1) else None)"
  by pat_completeness auto
termination
  by (relation "measure (\<lambda>(c, j). 8 - j)") auto

function scan_bytes :: "(nat \<Rightarrow> byte) \<Rightarrow> nat \<Rightarrow> (nat \<times> nat) option" where
  "scan_bytes bm i =
     (if i < MAX_LOCKS div 8 then
        (case scan_bits (bm i) 0 of
           Some j \<Rightarrow> Some (i, j)
         | None \<Rightarrow> scan_bytes bm (i + 1))
      else None)"
  by pat_completeness auto
termination
  by (relation "measure (\<lambda>(bm, i). MAX_LOCKS div 8 - i)") auto

declare scan_bits.simps [simp del] scan_bytes.simps [simp del]

definition lockdep_get_free_id :: "lockdep_state \<Rightarrow> int \<times> lockdep_state" where
  "lockdep_get_free_id s0 =
     (let s = init_lock_ids_bitmap s0; l = last_free_lock_id s
      in if 0 \<le> l \<and> id_bit s (nat l) then
           (l, clear_id_bit (nat l div 8) (nat l mod 8) (s\<lparr>last_free_lock_id := -1\<rparr>))
         else
           (case scan_bytes (lock_ids_bitmap s) 0 of
              Some (i, j) \<Rightarrow> (int (i * 8 + j), clear_id_bit i j s)
            | None \<Rightarrow> (-1, s)))"

section \<open>Registration\<close>

text \<open>
  The lookup goes through \<^verbatim>\<open>name.c_str()\<close>, so it sees the name up to its first NUL
  character, while the entry is stored under the whole name.
\<close>

definition c_str :: "string \<Rightarrow> string" where
  "c_str name = takeWhile (\<lambda>c. c \<noteq> CHR 0x00) name"

definition incr_ref :: "nat \<Rightarrow> lockdep_state \<Rightarrow> lockdep_state" where
  "incr_ref k s =
     s\<lparr>lock_ref := (lock_ref s)(k \<mapsto> (case lock_ref s k of None \<Rightarrow> 0 | Some r \<Rightarrow> r) + 1)\<rparr>"

definition lockdep_register_unlocked :: "string \<Rightarrow> lockdep_state \<Rightarrow> int \<times> lockdep_state" where
  "lockdep_register_unlocked name s =
     (case name_to_id_map s (c_str name) of
        None \<Rightarrow>
          (case lockdep_get_free_id s of
             (lid, s1) \<Rightarrow>
               if lid < 0 then (-1, s1)
               else
                 let k = nat lid;
                     s2 = (if current_max_id s1 \<le> k then s1\<lparr>current_max_id := k + 1\<rparr> else s1);
                     s3 = s2\<lparr>name_to_id_map := (name_to_id_map s2)(name \<mapsto> k),
                             id_to_name_map := (id_to_name_map s2)(k \<mapsto> name)\<rparr>
                 in (lid, incr_ref k s3))
      | Some k \<Rightarrow> (int k, incr_ref k s))"

definition register_failed :: "string \<Rightarrow> exn" where
  "register_failed name = Runtime_error (''Failed to register lock: '' @ name)"

definition lockdep_register :: "string \<Rightarrow> lockdep_state \<Rightarrow> (int, lockdep_state) outcome" where
  "lockdep_register name s =
     (case lockdep_register_unlocked name s of
        (lid, s') \<Rightarrow> if lid < 0 then Throw (register_failed name) s' else Ret lid s')"

text \<open>The common prologue of the hooks: a lock that has no identifier yet gets one.\<close>

definition ensure_registered ::
  "string \<Rightarrow> int \<Rightarrow> lockdep_state \<Rightarrow> (int, lockdep_state) outcome" where
  "ensure_registered name lid s = (if lid < 0 then lockdep_register name s else Ret lid s)"

section \<open>The dependency tree\<close>

definition follows_bit :: "lockdep_state \<Rightarrow> nat \<Rightarrow> nat \<Rightarrow> bool" where
  "follows_bit s a b = byte_test (lock_tree s a (b div 8)) (b mod 8)"

text \<open>
  \<^verbatim>\<open>does_follow\<close> recurses along the recorded dependencies. The fuel bounds the depth of
  the recursion: \<open>None\<close> says that the source's recursion is deeper than that.
\<close>

fun does_follow :: "nat \<Rightarrow> lockdep_state \<Rightarrow> nat \<Rightarrow> nat \<Rightarrow> bool option" where
  "does_follow 0 s a b = None"
| "does_follow (Suc n) s a b =
     (if follows_bit s a b then Some True
      else first_true
             (\<lambda>i. if follows_bit s a i then does_follow n s i b else Some False)
             [0..<current_max_id s])"

text \<open>
  Printing the new dependency reads \<^verbatim>\<open>id_to_name_map[i]\<close>, which inserts an empty name for
  an absent key.
\<close>

definition touch_name :: "nat \<Rightarrow> lockdep_state \<Rightarrow> lockdep_state" where
  "touch_name i s =
     (if id_to_name_map s i = None
      then s\<lparr>id_to_name_map := (id_to_name_map s)(i \<mapsto> [])\<rparr> else s)"

definition add_dependency :: "nat \<Rightarrow> nat \<Rightarrow> BackTrace \<Rightarrow> lockdep_state \<Rightarrow> lockdep_state" where
  "add_dependency p k bt s =
     touch_name k (touch_name p
       (s\<lparr>lock_tree := (lock_tree s)(p := (lock_tree s p)
             (k div 8 := byte_set (lock_tree s p (k div 8)) (k mod 8))),
          lock_tree_backtrace := (lock_tree_backtrace s)
             (p := (lock_tree_backtrace s p)(k \<mapsto> bt))\<rparr>))"

text \<open>
  The loop of \<^verbatim>\<open>lockdep_will_lock\<close> over the locks the thread holds. Both reports end in
  \<^verbatim>\<open>abort()\<close>.
\<close>

fun will_lock_loop ::
  "nat \<Rightarrow> BackTrace \<Rightarrow> (nat \<times> BackTrace) list \<Rightarrow> lockdep_state \<Rightarrow> (unit, lockdep_state) outcome"
where
  "will_lock_loop k bt [] s = Ret () s"
| "will_lock_loop k bt ((p, _) # ps) s =
     (if p = k then Abort
      else if MAX_LOCKS \<le> p \<or> MAX_LOCKS \<le> k then Undef
      else if \<not> follows_bit s p k then
        (case does_follow MAX_LOCKS s k p of
           None \<Rightarrow> Undef
         | Some True \<Rightarrow> Abort
         | Some False \<Rightarrow> will_lock_loop k bt ps (add_dependency p k bt s))
      else will_lock_loop k bt ps s)"

definition lockdep_will_lock ::
  "tid \<Rightarrow> BackTrace \<Rightarrow> string \<Rightarrow> int \<Rightarrow> lockdep_state \<Rightarrow> (int, lockdep_state) outcome" where
  "lockdep_will_lock t bt name lid0 s =
     bind (ensure_registered name lid0 s) (\<lambda>lid s1.
     bind (will_lock_loop (nat lid) bt (held_locks s1 t) s1) (\<lambda>_ s2.
     Ret lid s2))"

definition lockdep_locked ::
  "tid \<Rightarrow> BackTrace \<Rightarrow> string \<Rightarrow> int \<Rightarrow> lockdep_state \<Rightarrow> (int, lockdep_state) outcome" where
  "lockdep_locked t bt name lid0 s =
     bind (ensure_registered name lid0 s) (\<lambda>lid s1.
     Ret lid (s1\<lparr>held_locks := (held_locks s1)(t := smap_put (nat lid) bt (held_locks s1 t))\<rparr>))"

definition lockdep_will_unlock ::
  "tid \<Rightarrow> string \<Rightarrow> int \<Rightarrow> lockdep_state \<Rightarrow> (int, lockdep_state) outcome" where
  "lockdep_will_unlock t name lid s =
     (if lid < 0 then bind (assert_that (lid = -1) s) (\<lambda>_ s1. Ret lid s1)
      else Ret lid (s\<lparr>held_locks := (held_locks s)(t := smap_erase (nat lid) (held_locks s t))\<rparr>))"

section \<open>Unregistration\<close>

text \<open>One turn of the loop that forgets row and column of the identifier.\<close>

definition forget_dependency :: "nat \<Rightarrow> nat \<Rightarrow> lockdep_state \<Rightarrow> lockdep_state" where
  "forget_dependency k i s =
     (let bts1 = (lock_tree_backtrace s)(k := (lock_tree_backtrace s k)(i := None));
          bts2 = bts1(i := (bts1 i)(k := None))
      in s\<lparr>lock_tree_backtrace := bts2,
           lock_tree := (lock_tree s)(i := (lock_tree s i)
             (k div 8 := byte_clear (lock_tree s i (k div 8)) (k mod 8)))\<rparr>)"

definition clear_row :: "nat \<Rightarrow> lockdep_state \<Rightarrow> lockdep_state" where
  "clear_row k s =
     s\<lparr>lock_tree := (lock_tree s)(k := (\<lambda>c. if c < MAX_LOCKS div 8 then 0 else lock_tree s k c))\<rparr>"

definition forget_lock :: "nat \<Rightarrow> string \<Rightarrow> lockdep_state \<Rightarrow> lockdep_state" where
  "forget_lock k name s =
     (let s1 = fold (forget_dependency k) [0..<current_max_id s] (clear_row k s)
      in s1\<lparr>id_to_name_map := (id_to_name_map s1)(k := None),
            name_to_id_map := (name_to_id_map s1)(name := None)\<rparr>)"

definition release_id :: "nat \<Rightarrow> lockdep_state \<Rightarrow> lockdep_state" where
  "release_id k s =
     s\<lparr>lock_ref := (lock_ref s)(k := None),
       lock_ids_bitmap := (lock_ids_bitmap s)
         (k div 8 := byte_set (lock_ids_bitmap s (k div 8)) (k mod 8)),
       last_free_lock_id := int k\<rparr>"

definition lockdep_unregister :: "int \<Rightarrow> lockdep_state \<Rightarrow> (unit, lockdep_state) outcome" where
  "lockdep_unregister lid s =
     (if lid < 0 then Ret () s
      else
        let k = nat lid;
            ref = (case lock_ref s k of None \<Rightarrow> 0 | Some r \<Rightarrow> r) - 1;
            s1 = s\<lparr>lock_ref := (lock_ref s)(k \<mapsto> ref)\<rparr>
        in if ref = 0 then
             if MAX_LOCKS \<le> k then Undef
             else Ret () (release_id k
                    (case id_to_name_map s k of
                       None \<Rightarrow> s1
                     | Some name \<Rightarrow> forget_lock k name s1))
           else Ret () s1)"

end
