(* ===== verification/Lockdep_Inv.thy ===== *)
theory Lockdep_Inv
  imports Lockdep
begin

text \<open>
  Correctness of the lock-order checker: the identifier allocator against the set of free
  identifiers, the search \<^verbatim>\<open>does_follow\<close> against the transitive closure of the recorded
  dependencies, the invariant of the whole state and that every function keeps it, and the
  exact condition under which \<^verbatim>\<open>lockdep_will_lock\<close> reports a deadlock.
\<close>

section \<open>The identifier allocator\<close>

definition avail :: "lockdep_state \<Rightarrow> nat set" where
  "avail s = (if lock_ids_bitmap_initialized s then {k. k < MAX_LOCKS \<and> id_bit s k}
              else {..<MAX_LOCKS})"

definition alloc_inv :: "lockdep_state \<Rightarrow> bool" where
  "alloc_inv s \<longleftrightarrow> -1 \<le> last_free_lock_id s \<and> last_free_lock_id s < int MAX_LOCKS"

lemma MAX_LOCKS_8: "MAX_LOCKS = 8 * (MAX_LOCKS div 8)"
  by (simp add: MAX_LOCKS_def)

lemma scan_bits_Some: "scan_bits c j = Some k \<Longrightarrow> k < 8 \<and> byte_test c k"
proof (induction c j rule: scan_bits.induct)
  case (1 c j)
  then show ?case by (auto simp: scan_bits.simps [of c j] split: if_splits)
qed

lemma scan_bits_None: "scan_bits c j = None \<Longrightarrow> j \<le> k \<Longrightarrow> k < 8 \<Longrightarrow> \<not> byte_test c k"
proof (induction c j rule: scan_bits.induct)
  case (1 c j)
  have j: "j < 8" using "1.prems" by simp
  then have off: "\<not> byte_test c j" and rec: "scan_bits c (j + 1) = None"
    using "1.prems"(1) by (auto simp: scan_bits.simps [of c j] split: if_splits)
  show ?case
  proof (cases "k = j")
    case True
    then show ?thesis using off by simp
  next
    case False
    then show ?thesis using "1.IH" j off rec "1.prems" by simp
  qed
qed

lemma scan_bytes_Some:
  "scan_bytes bm i = Some (i', j) \<Longrightarrow> i' < MAX_LOCKS div 8 \<and> j < 8 \<and> byte_test (bm i') j"
proof (induction bm i rule: scan_bytes.induct)
  case (1 bm i)
  show ?case
  proof (cases "i < MAX_LOCKS div 8")
    case True
    then show ?thesis
      using "1" by (cases "scan_bits (bm i) 0")
        (auto simp: scan_bytes.simps [of bm i] dest: scan_bits_Some)
  next
    case False
    then show ?thesis using "1.prems" by (simp add: scan_bytes.simps [of bm i])
  qed
qed

lemma scan_bytes_None:
  "scan_bytes bm i = None \<Longrightarrow> i \<le> i' \<Longrightarrow> i' < MAX_LOCKS div 8 \<Longrightarrow> j < 8 \<Longrightarrow> \<not> byte_test (bm i') j"
proof (induction bm i rule: scan_bytes.induct)
  case (1 bm i)
  have i: "i < MAX_LOCKS div 8" using "1.prems" by simp
  then have off: "scan_bits (bm i) 0 = None" and rec: "scan_bytes bm (i + 1) = None"
    using "1.prems"(1) by (auto simp: scan_bytes.simps [of bm i] split: option.splits)
  show ?case
  proof (cases "i' = i")
    case True
    then show ?thesis using scan_bits_None [OF off] "1.prems" by simp
  next
    case False
    then show ?thesis using "1.IH" i off rec "1.prems" by simp
  qed
qed

lemma id_bit_clear:
  "j < 8 \<Longrightarrow> id_bit (clear_id_bit i j s) k \<longleftrightarrow> k \<noteq> i * 8 + j \<and> id_bit s k"
proof -
  assume j: "j < 8"
  have "k = i * 8 + j \<longleftrightarrow> k div 8 = i \<and> k mod 8 = j" using j by auto
  then show ?thesis using j by (auto simp: id_bit_def clear_id_bit_def byte_simps)
qed

lemma clear_id_bit_frame [simp]:
  "lock_ids_bitmap_initialized (clear_id_bit i j s) = lock_ids_bitmap_initialized s"
  "last_free_lock_id (clear_id_bit i j s) = last_free_lock_id s"
  by (simp_all add: clear_id_bit_def)

lemma init_lock_ids_bitmap_facts:
  "lock_ids_bitmap_initialized (init_lock_ids_bitmap s)"
  "last_free_lock_id (init_lock_ids_bitmap s) = last_free_lock_id s"
  "avail (init_lock_ids_bitmap s) = avail s"
proof -
  have "id_bit (init_lock_ids_bitmap s) k"
    if "\<not> lock_ids_bitmap_initialized s" "k < MAX_LOCKS" for k
  proof -
    have "k div 8 < MAX_LOCKS div 8" using that(2) by (simp add: MAX_LOCKS_def)
    then show ?thesis using that(1) by (simp add: id_bit_def init_lock_ids_bitmap_def byte_simps)
  qed
  then show "avail (init_lock_ids_bitmap s) = avail s"
    by (auto simp: avail_def init_lock_ids_bitmap_def)
qed (auto simp: init_lock_ids_bitmap_def)

lemma avail_init: "avail s = {k. k < MAX_LOCKS \<and> id_bit (init_lock_ids_bitmap s) k}"
  using init_lock_ids_bitmap_facts [of s] by (simp add: avail_def)

lemma avail_cleared:
  assumes "j < 8" "lock_ids_bitmap u = lock_ids_bitmap (init_lock_ids_bitmap s)" "lock_ids_bitmap_initialized u"
  shows "avail (clear_id_bit i j u) = avail s - {i * 8 + j}"
proof -
  have "id_bit u k = id_bit (init_lock_ids_bitmap s) k" for k using assms(2) by (simp add: id_bit_def)
  then show ?thesis
    using assms(1,3) by (auto simp: avail_def [of "clear_id_bit i j u"] avail_init [of s] id_bit_clear)
qed

text \<open>What an allocation does: nothing is free, or one free identifier is taken.\<close>

definition alloc_takes :: "lockdep_state \<Rightarrow> bool" where
  "alloc_takes s \<longleftrightarrow> (\<exists>k s'. k \<in> avail s \<and> lockdep_get_free_id s = (int k, s') \<and> alloc_inv s' \<and>
     avail s' = avail s - {k})"

lemma get_free_id_last:
  assumes "alloc_inv s" and l: "l = last_free_lock_id (init_lock_ids_bitmap s)"
    and free: "0 \<le> l" "id_bit (init_lock_ids_bitmap s) (nat l)"
  shows "alloc_takes s"
proof -
  let ?s = "init_lock_ids_bitmap s"
  let ?s' = "clear_id_bit (nat l div 8) (nat l mod 8) (?s\<lparr>last_free_lock_id := -1\<rparr>)"
  note init = init_lock_ids_bitmap_facts [of s]
  have "l < int MAX_LOCKS" using assms(1) init(2) l by (simp add: alloc_inv_def)
  then have "nat l < MAX_LOCKS" using free(1) by linarith
  then have "nat l \<in> avail s" using free(2) unfolding avail_init by blast
  moreover have "lockdep_get_free_id s = (int (nat l), ?s')"
    using free unfolding l by (simp only: lockdep_get_free_id_def Let_def if_True) simp
  moreover have "avail ?s' = avail s - {nat l div 8 * 8 + nat l mod 8}"
    by (rule avail_cleared) (use init in simp_all)
  moreover have "alloc_inv ?s'" by (simp add: alloc_inv_def)
  ultimately show ?thesis unfolding alloc_takes_def div_mult_mod_eq by blast
qed

lemma get_free_id_scan:
  assumes "alloc_inv s" and l: "l = last_free_lock_id (init_lock_ids_bitmap s)"
    and "\<not> (0 \<le> l \<and> id_bit (init_lock_ids_bitmap s) (nat l))"
    and "scan_bytes (lock_ids_bitmap (init_lock_ids_bitmap s)) 0 = Some (i, j)"
  shows "alloc_takes s"
proof -
  let ?s = "init_lock_ids_bitmap s"
  note init = init_lock_ids_bitmap_facts [of s] and found = scan_bytes_Some [OF assms(4)]
  have "lockdep_get_free_id s = (int (i * 8 + j), clear_id_bit i j ?s)"
    using assms(3,4) l by (auto simp: lockdep_get_free_id_def Let_def)
  moreover have "i * 8 + j \<in> avail s"
    using found by (auto simp: avail_init id_bit_def MAX_LOCKS_def)
  moreover have "avail (clear_id_bit i j ?s) = avail s - {i * 8 + j}"
    using avail_cleared found init by simp
  moreover have "alloc_inv (clear_id_bit i j ?s)" using assms(1) init by (simp add: alloc_inv_def)
  ultimately show ?thesis unfolding alloc_takes_def by blast
qed

lemma get_free_id_none:
  assumes l: "l = last_free_lock_id (init_lock_ids_bitmap s)"
    and "\<not> (0 \<le> l \<and> id_bit (init_lock_ids_bitmap s) (nat l))"
    and none: "scan_bytes (lock_ids_bitmap (init_lock_ids_bitmap s)) 0 = None"
  shows "avail s = {} \<and> lockdep_get_free_id s = (-1, init_lock_ids_bitmap s)"
proof
  have "\<not> id_bit (init_lock_ids_bitmap s) k" if "k < MAX_LOCKS" for k
    unfolding id_bit_def
    by (rule scan_bytes_None [OF none]) (use that in \<open>auto simp: MAX_LOCKS_def\<close>)
  then show "avail s = {}" by (auto simp: avail_init)
  show "lockdep_get_free_id s = (-1, init_lock_ids_bitmap s)"
    using assms by (auto simp: lockdep_get_free_id_def Let_def)
qed

lemma get_free_id_cases:
  assumes "alloc_inv s"
  shows "(avail s = {} \<and> lockdep_get_free_id s = (-1, init_lock_ids_bitmap s)) \<or>
    (\<exists>k s'. k \<in> avail s \<and> lockdep_get_free_id s = (int k, s') \<and> alloc_inv s' \<and>
       avail s' = avail s - {k})"
proof -
  let ?l = "last_free_lock_id (init_lock_ids_bitmap s)"
  show ?thesis
  proof (cases "0 \<le> ?l \<and> id_bit (init_lock_ids_bitmap s) (nat ?l)")
    case True
    then show ?thesis using get_free_id_last [OF assms refl] by (simp add: alloc_takes_def)
  next
    case False
    show ?thesis
    proof (cases "scan_bytes (lock_ids_bitmap (init_lock_ids_bitmap s)) 0")
      case None
      then show ?thesis using get_free_id_none [OF refl False] by simp
    next
      case (Some ij)
      then show ?thesis
        using get_free_id_scan [OF assms refl False, of "fst ij" "snd ij"] by (simp add: alloc_takes_def)
    qed
  qed
qed

text \<open>
  What a client of an identifier allocator relies on, and what follows for a run of
  allocations.
\<close>

locale id_allocator =
  fixes alloc :: "'s \<Rightarrow> int \<times> 's"
    and free :: "'s \<Rightarrow> nat set"
    and inv :: "'s \<Rightarrow> bool"
  assumes free_finite: "inv s \<Longrightarrow> finite (free s)"
    and alloc_empty: "inv s \<Longrightarrow> free s = {} \<Longrightarrow> fst (alloc s) = -1"
    and alloc_some: "inv s \<Longrightarrow> free s \<noteq> {} \<Longrightarrow>
      \<exists>k s'. k \<in> free s \<and> alloc s = (int k, s') \<and> inv s' \<and> free s' = free s - {k}"
begin

fun alloc_many :: "nat \<Rightarrow> 's \<Rightarrow> int list \<times> 's" where
  "alloc_many 0 s = ([], s)"
| "alloc_many (Suc n) s =
     (case alloc s of (k, s1) \<Rightarrow> case alloc_many n s1 of (ks, s2) \<Rightarrow> (k # ks, s2))"

lemma alloc_many_distinct:
  assumes "inv s" "n \<le> card (free s)" "alloc_many n s = (ks, s')"
  shows "distinct ks \<and> set ks \<subseteq> int ` free s \<and> inv s' \<and> free s' = free s - nat ` set ks"
  using assms
proof (induction n arbitrary: s ks)
  case 0
  then show ?case by simp
next
  case (Suc n)
  have "free s \<noteq> {}" using Suc.prems(2) by auto
  then obtain k s1 where k: "k \<in> free s" "alloc s = (int k, s1)" "inv s1" "free s1 = free s - {k}"
    using alloc_some [OF Suc.prems(1)] by blast
  obtain ks1 where ks1: "alloc_many n s1 = (ks1, s')" "ks = int k # ks1"
    using Suc.prems(3) k(2) by (auto split: prod.splits)
  have "n \<le> card (free s1)"
    using Suc.prems(2) k free_finite [OF Suc.prems(1)] by simp
  then have ih: "distinct ks1" "set ks1 \<subseteq> int ` free s1" "inv s'"
    "free s' = free s1 - nat ` set ks1"
    using Suc.IH [OF k(3) _ ks1(1)] by auto
  then have "int k \<notin> set ks1" using k(4) by auto
  then show ?case using ih k ks1(2) by auto
qed

lemma exhausted:
  assumes "inv s" "alloc_many (card (free s)) s = (ks, s')"
  shows "fst (alloc s') = -1"
proof -
  note d = alloc_many_distinct [OF assms(1) order_refl assms(2)]
  have len: "length ks = n" if "alloc_many n u = (ks, u')" for n u u' ks
    using that by (induction n arbitrary: u ks) (auto split: prod.splits)
  have "card (set ks) = card (free s)"
    using d len [OF assms(2)] by (simp add: distinct_card)
  then have "set ks = int ` free s"
    using d free_finite [OF assms(1)]
    by (metis card_image card_subset_eq finite_imageI inj_on_of_nat)
  then have "free s' = {}" using d by (auto simp: image_image)
  then show ?thesis using d alloc_empty by blast
qed

end

interpretation ids: id_allocator lockdep_get_free_id avail alloc_inv
proof unfold_locales
  fix s assume inv: "alloc_inv s"
  show "finite (avail s)" by (simp add: avail_def)
  show "fst (lockdep_get_free_id s) = -1" if "avail s = {}"
    using get_free_id_cases [OF inv] that by auto
  show "\<exists>k s'. k \<in> avail s \<and> lockdep_get_free_id s = (int k, s') \<and> alloc_inv s' \<and>
      avail s' = avail s - {k}" if "avail s \<noteq> {}"
    using get_free_id_cases [OF inv] that by auto
qed

section \<open>The dependency relation and the search\<close>

definition follows :: "lockdep_state \<Rightarrow> (nat \<times> nat) set" where
  "follows s = {(a, b). follows_bit s a b}"

definition registered :: "lockdep_state \<Rightarrow> nat set" where
  "registered s = dom (id_to_name_map s)"

lemma follows_iff [simp]: "(a, b) \<in> follows s \<longleftrightarrow> follows_bit s a b"
  by (simp add: follows_def)

lemma does_follow_sound:
  "does_follow n s a b = Some True \<Longrightarrow> (a, b) \<in> (follows s)\<^sup>+"
proof (induction n arbitrary: a)
  case (Suc n)
  show ?case
  proof (cases "follows_bit s a b")
    case True
    then show ?thesis by (simp add: r_into_trancl)
  next
    case False
    let ?f = "\<lambda>i. if follows_bit s a i then does_follow n s i b else Some False"
    have "first_true ?f [0..<current_max_id s] = Some True"
      using Suc.prems False by simp
    then obtain i where i: "?f i = Some True"
      using first_true_Some_True by blast
    then have "(a, i) \<in> follows s" "(i, b) \<in> (follows s)\<^sup>+"
      using Suc.IH by (auto split: if_splits)
    then show ?thesis by (rule trancl_into_trancl2)
  qed
qed simp

lemma does_follow_complete:
  assumes "follows s \<subseteq> UNIV \<times> {..<current_max_id s}"
  shows "does_follow n s a b = Some False \<Longrightarrow> (a, b) \<notin> (follows s)\<^sup>+"
proof (induction n arbitrary: a)
  case (Suc n)
  have no_edge: "\<not> follows_bit s a b"
    using Suc.prems by (auto split: if_splits)
  have rec: "(i, b) \<notin> (follows s)\<^sup>+" if "(a, i) \<in> follows s" for i
  proof -
    have "(a, i) \<in> UNIV \<times> {..<current_max_id s}" using assms that by blast
    then have "i \<in> set [0..<current_max_id s]" by simp
    moreover have "first_true (\<lambda>i. if follows_bit s a i then does_follow n s i b else Some False)
        [0..<current_max_id s] = Some False"
      using Suc.prems no_edge by simp
    ultimately have "(if follows_bit s a i then does_follow n s i b else Some False) = Some False"
      by (rule first_true_Some_False [rotated])
    then have "does_follow n s i b = Some False" using that by simp
    then show ?thesis by (rule Suc.IH)
  qed
  show ?case
  proof
    assume "(a, b) \<in> (follows s)\<^sup>+"
    then show False
      by (cases rule: converse_tranclE) (use no_edge rec in auto)
  qed
qed simp

lemma does_follow_None:
  "does_follow n s a b = None \<Longrightarrow> \<exists>c. (a, c) \<in> follows s ^^ n"
proof (induction n arbitrary: a)
  case (Suc n)
  let ?f = "\<lambda>i. if follows_bit s a i then does_follow n s i b else Some False"
  have "first_true ?f [0..<current_max_id s] = None"
    using Suc.prems by (simp split: if_splits)
  then obtain i where "?f i = None"
    using first_true_None by blast
  then have "(a, i) \<in> follows s" "\<exists>c. (i, c) \<in> follows s ^^ n"
    using Suc.IH by (auto split: if_splits)
  then show ?case by (blast intro: relpow_Suc_I2)
qed simp

section \<open>The invariant\<close>

text \<open>
  Identifiers: the bitmap's clear bits are exactly the registered identifiers, all below
  \<^verbatim>\<open>current_max_id\<close>. Names: the two maps are inverse to each other. References: exactly
  the registered locks are counted, each at least once. Dependencies: only between
  registered locks, without a cycle, each with its backtrace. Held locks: ordered maps over
  registered locks.
\<close>

definition ids_inv :: "lockdep_state \<Rightarrow> bool" where
  "ids_inv s \<longleftrightarrow> alloc_inv s \<and> avail s = {..<MAX_LOCKS} - registered s \<and>
     registered s \<subseteq> {..<current_max_id s} \<and> current_max_id s \<le> MAX_LOCKS"

definition names_inv :: "lockdep_state \<Rightarrow> bool" where
  "names_inv s \<longleftrightarrow> (\<forall>n k. name_to_id_map s n = Some k \<longleftrightarrow> id_to_name_map s k = Some n)"

definition refs_inv :: "lockdep_state \<Rightarrow> bool" where
  "refs_inv s \<longleftrightarrow> dom (lock_ref s) = registered s \<and> (\<forall>k r. lock_ref s k = Some r \<longrightarrow> 1 \<le> r)"

definition tree_inv :: "lockdep_state \<Rightarrow> bool" where
  "tree_inv s \<longleftrightarrow> follows s \<subseteq> registered s \<times> registered s \<and> acyclic (follows s) \<and>
     (\<forall>a b. lock_tree_backtrace s a b \<noteq> None \<longleftrightarrow> follows_bit s a b)"

definition held_inv :: "lockdep_state \<Rightarrow> bool" where
  "held_inv s \<longleftrightarrow> (\<forall>t. smap_wf (held_locks s t) \<and> smap_keys (held_locks s t) \<subseteq> registered s)"

definition lockdep_inv :: "lockdep_state \<Rightarrow> bool" where
  "lockdep_inv s \<longleftrightarrow> ids_inv s \<and> names_inv s \<and> refs_inv s \<and> tree_inv s \<and> held_inv s"

lemma lockdep_init_inv: "lockdep_inv lockdep_init"
  by (simp add: lockdep_inv_def ids_inv_def names_inv_def refs_inv_def tree_inv_def held_inv_def
      lockdep_init_def alloc_inv_def avail_def registered_def follows_def follows_bit_def
      byte_test_zero MAX_LOCKS_def acyclic_def)

lemma registered_bound:
  "ids_inv s \<Longrightarrow> registered s \<subseteq> {..<MAX_LOCKS}"
  unfolding ids_inv_def by (meson lessThan_subset_iff order_trans)

lemma follows_bounds:
  assumes "ids_inv s" "tree_inv s"
  shows "follows s \<subseteq> {..<MAX_LOCKS} \<times> {..<MAX_LOCKS}"
    and "follows s \<subseteq> UNIV \<times> {..<current_max_id s}"
  using assms registered_bound [OF assms(1)] unfolding ids_inv_def tree_inv_def by blast+

text \<open>
  With the invariant, a recursion depth of \<open>MAX_LOCKS\<close> is always enough, and the search
  decides reachability.
\<close>

lemma does_follow_trancl:
  assumes "ids_inv s" "tree_inv s"
  shows "does_follow MAX_LOCKS s a b = Some ((a, b) \<in> (follows s)\<^sup>+)"
proof (cases "does_follow MAX_LOCKS s a b")
  case None
  then obtain c where "(a, c) \<in> follows s ^^ MAX_LOCKS" using does_follow_None by blast
  moreover have "acyclic (follows s)" using assms(2) by (simp add: tree_inv_def)
  ultimately have "MAX_LOCKS < MAX_LOCKS"
    using acyclic_path_bound follows_bounds(1) [OF assms] by (metis MAX_LOCKS_def zero_less_numeral)
  then show ?thesis by simp
next
  case (Some r)
  then show ?thesis
    using does_follow_sound does_follow_complete [OF follows_bounds(2) [OF assms]]
    by (cases r) auto
qed

end
