(* ===== verification/Lockdep_Ops.thy ===== *)
theory Lockdep_Ops
  imports Lockdep_Inv
begin

text \<open>
  What the functions of the lock-order checker do on a state that satisfies the invariant:
  the exact verdict and effect of \<^verbatim>\<open>lockdep_will_lock\<close>, registration and unregistration
  of names, the bookkeeping of held locks, and that each of them keeps the invariant.
\<close>

section \<open>Updates that leave the dependencies and the identifiers alone\<close>

lemma lock_ref_update_frame [simp]:
  "registered (s\<lparr>lock_ref := R\<rparr>) = registered s" "avail (s\<lparr>lock_ref := R\<rparr>) = avail s"
  "alloc_inv (s\<lparr>lock_ref := R\<rparr>) = alloc_inv s" "follows (s\<lparr>lock_ref := R\<rparr>) = follows s"
  "follows_bit (s\<lparr>lock_ref := R\<rparr>) = follows_bit s"
  by (auto simp: registered_def avail_def id_bit_def alloc_inv_def follows_def follows_bit_def
      fun_eq_iff)

lemma held_locks_update_frame [simp]:
  "registered (s\<lparr>held_locks := H\<rparr>) = registered s" "avail (s\<lparr>held_locks := H\<rparr>) = avail s"
  "alloc_inv (s\<lparr>held_locks := H\<rparr>) = alloc_inv s" "follows (s\<lparr>held_locks := H\<rparr>) = follows s"
  "follows_bit (s\<lparr>held_locks := H\<rparr>) = follows_bit s"
  by (auto simp: registered_def avail_def id_bit_def alloc_inv_def follows_def follows_bit_def
      fun_eq_iff)

section \<open>Announcing a lock\<close>

lemma add_dependency_eq:
  assumes "p \<in> registered s" "k \<in> registered s"
  shows "add_dependency p k bt s =
    s\<lparr>lock_tree := (lock_tree s)(p := (lock_tree s p)
         (k div 8 := byte_set (lock_tree s p (k div 8)) (k mod 8))),
      lock_tree_backtrace := (lock_tree_backtrace s)
         (p := (lock_tree_backtrace s p)(k \<mapsto> bt))\<rparr>"
  using assms by (auto simp: add_dependency_def touch_name_def registered_def)

lemma follows_bit_set:
  "byte_test (((T :: nat \<Rightarrow> byte)(k div 8 := byte_set (T (k div 8)) (k mod 8))) (b div 8)) (b mod 8) \<longleftrightarrow>
     b = k \<or> byte_test (T (b div 8)) (b mod 8)"
  using div_mod_8_eq_iff [of b k] by (auto simp: byte_simps)

lemma follows_add_dependency:
  assumes "p \<in> registered s" "k \<in> registered s"
  shows "follows (add_dependency p k bt s) = follows s \<union> {p} \<times> {k}"
proof -
  have "follows_bit (add_dependency p k bt s) a b \<longleftrightarrow> a = p \<and> b = k \<or> follows_bit s a b" for a b
    unfolding add_dependency_eq [OF assms] follows_bit_def
    using follows_bit_set [of "lock_tree s p" k b] by auto
  then show ?thesis by (auto simp: follows_def)
qed

definition only_tree_changed :: "lockdep_state \<Rightarrow> lockdep_state \<Rightarrow> bool" where
  "only_tree_changed s s' \<longleftrightarrow>
     (\<exists>T B. s' = s\<lparr>lock_tree := T, lock_tree_backtrace := B\<rparr>)"

lemma only_tree_changedI:
  "s' = s\<lparr>lock_tree := lock_tree s', lock_tree_backtrace := lock_tree_backtrace s'\<rparr> \<Longrightarrow>
     only_tree_changed s s'"
  unfolding only_tree_changed_def by blast

lemma only_tree_changed_refl: "only_tree_changed s s"
  unfolding only_tree_changed_def
  by (rule exI [of _ "lock_tree s"], rule exI [of _ "lock_tree_backtrace s"]) simp

lemma only_tree_changed_trans:
  "only_tree_changed s s' \<Longrightarrow> only_tree_changed s' s'' \<Longrightarrow> only_tree_changed s s''"
  unfolding only_tree_changed_def by (clarsimp, blast)

lemma only_tree_changed_frame:
  assumes "only_tree_changed s s'"
  shows "registered s' = registered s" "held_locks s' = held_locks s"
    "name_to_id_map s' = name_to_id_map s" "lock_ref s' = lock_ref s"
    "id_to_name_map s' = id_to_name_map s" "current_max_id s' = current_max_id s"
    "lock_ids_bitmap s' = lock_ids_bitmap s"
    "lock_ids_bitmap_initialized s' = lock_ids_bitmap_initialized s"
  using assms unfolding only_tree_changed_def registered_def by auto

lemma only_tree_changed_inv:
  assumes "only_tree_changed s s'"
  shows "ids_inv s' = ids_inv s" "names_inv s' = names_inv s" "refs_inv s' = refs_inv s"
    "held_inv s' = held_inv s"
proof -
  have "alloc_inv s' = alloc_inv s" "avail s' = avail s"
    using assms by (auto simp: only_tree_changed_def alloc_inv_def avail_def id_bit_def)
  then show "ids_inv s' = ids_inv s" "names_inv s' = names_inv s" "refs_inv s' = refs_inv s"
    "held_inv s' = held_inv s"
    by (simp_all add: ids_inv_def names_inv_def refs_inv_def held_inv_def
        only_tree_changed_frame [OF assms])
qed

lemma add_dependency_inv:
  assumes "lockdep_inv s" "p \<in> registered s" "k \<in> registered s" "p \<noteq> k" "(k, p) \<notin> (follows s)\<^sup>+"
  shows "lockdep_inv (add_dependency p k bt s)"
proof -
  let ?s = "add_dependency p k bt s"
  note eq = add_dependency_eq [OF assms(2,3), of bt]
  have only: "only_tree_changed s ?s" by (auto simp: eq only_tree_changed_def)
  have reg: "registered ?s = registered s" by (simp add: eq registered_def)
  have "acyclic (follows ?s)"
    unfolding follows_add_dependency [OF assms(2,3)]
    by (rule acyclic_insert_into) (use assms in \<open>auto simp: lockdep_inv_def tree_inv_def\<close>)
  moreover have "follows ?s \<subseteq> registered ?s \<times> registered ?s"
    using assms by (auto simp: follows_add_dependency reg lockdep_inv_def tree_inv_def simp del: follows_iff)
  moreover have "lock_tree_backtrace ?s a b \<noteq> None \<longleftrightarrow> follows_bit ?s a b" for a b
    using assms(1) follows_add_dependency [OF assms(2,3), of bt]
    unfolding set_eq_iff by (auto simp: eq lockdep_inv_def tree_inv_def)
  ultimately have "tree_inv ?s" by (simp add: tree_inv_def)
  moreover have "ids_inv ?s" "names_inv ?s" "refs_inv ?s" "held_inv ?s"
    using assms(1) by (simp_all add: only_tree_changed_inv [OF only] lockdep_inv_def)
  ultimately show ?thesis by (simp add: lockdep_inv_def)
qed

text \<open>
  The loop aborts exactly when one of the held locks is the new one or is reachable from
  it; otherwise every held lock now precedes the new one and nothing else changes.
\<close>

definition will_lock_refused :: "lockdep_state \<Rightarrow> nat \<Rightarrow> nat set \<Rightarrow> bool" where
  "will_lock_refused s k H \<longleftrightarrow> (\<exists>p \<in> H. p = k \<or> (k, p) \<in> (follows s)\<^sup>+)"

text \<open>One held lock \<open>p\<close>: a path back refuses the announcement, otherwise the edge is there afterwards.\<close>

lemma will_lock_loop_refuses:
  assumes "lockdep_inv s" "k \<in> registered s" "p \<in> registered s" "p = k \<or> (k, p) \<in> (follows s)\<^sup>+"
  shows "will_lock_loop k bt ((p, b) # ps) s = Abort"
proof -
  have inv: "ids_inv s" "tree_inv s" using assms(1) by (auto simp: lockdep_inv_def)
  have small: "\<not> (MAX_LOCKS \<le> p \<or> MAX_LOCKS \<le> k)" using registered_bound [OF inv(1)] assms(2,3) by auto
  have "\<not> follows_bit s p k" if "p \<noteq> k"
  proof
    assume "follows_bit s p k"
    then have "(k, k) \<in> (follows s)\<^sup>+" using assms(4) that trancl_into_trancl by fastforce
    then show False using inv(2) by (simp add: tree_inv_def acyclic_def)
  qed
  then show ?thesis using assms(4) small does_follow_trancl [OF inv, of k p] by (cases "p = k") simp_all
qed

lemma will_lock_loop_passes:
  assumes "lockdep_inv s" "k \<in> registered s" "p \<in> registered s" "\<not> (p = k \<or> (k, p) \<in> (follows s)\<^sup>+)"
  obtains s1 where "will_lock_loop k bt ((p, b) # ps) s = will_lock_loop k bt ps s1" "lockdep_inv s1"
    "follows s1 = follows s \<union> {p} \<times> {k}" "only_tree_changed s s1"
    "\<And>y. (k, y) \<in> (follows s1)\<^sup>+ \<longleftrightarrow> (k, y) \<in> (follows s)\<^sup>+"
proof -
  have inv: "ids_inv s" "tree_inv s" using assms(1) by (auto simp: lockdep_inv_def)
  have small: "\<not> (MAX_LOCKS \<le> p \<or> MAX_LOCKS \<le> k)" using registered_bound [OF inv(1)] assms(2,3) by auto
  define s1 where "s1 = (if follows_bit s p k then s else add_dependency p k bt s)"
  have step: "will_lock_loop k bt ((p, b) # ps) s = will_lock_loop k bt ps s1"
    using assms(4) small does_follow_trancl [OF inv, of k p] by (simp add: s1_def)
  have inv1: "lockdep_inv s1" using assms by (simp add: s1_def add_dependency_inv)
  have f1: "follows s1 = follows s \<union> {p} \<times> {k}"
    using assms(2,3) by (auto simp: s1_def follows_add_dependency simp del: follows_iff) (simp add: follows_def)+
  have c1: "only_tree_changed s s1"
    using assms(2,3) only_tree_changed_refl [of s] by (auto simp: s1_def add_dependency_eq only_tree_changed_def)
  have reach: "(k, y) \<in> (follows s1)\<^sup>+ \<longleftrightarrow> (k, y) \<in> (follows s)\<^sup>+" for y
    unfolding f1 by (rule acyclic_insert_into(2)) (use inv assms(4) in \<open>auto simp: tree_inv_def\<close>)
  show ?thesis by (rule that [OF step inv1 f1 c1 reach])
qed

lemma will_lock_loop_correct:
  assumes "lockdep_inv s" "k \<in> registered s" "smap_keys ps \<subseteq> registered s"
  shows "if will_lock_refused s k (smap_keys ps) then will_lock_loop k bt ps s = Abort
    else \<exists>s'. will_lock_loop k bt ps s = Ret () s' \<and> lockdep_inv s' \<and>
      follows s' = follows s \<union> smap_keys ps \<times> {k} \<and> only_tree_changed s s'"
  using assms
proof (induction ps arbitrary: s)
  case Nil
  then show ?case by (simp add: will_lock_refused_def only_tree_changed_refl)
next
  case (Cons q ps)
  obtain p b where q: "q = (p, b)" by fastforce
  have reg: "p \<in> registered s" "smap_keys ps \<subseteq> registered s" using Cons.prems q by auto
  show ?case
  proof (cases "p = k \<or> (k, p) \<in> (follows s)\<^sup>+")
    case True
    then show ?thesis
      using will_lock_loop_refuses [OF Cons.prems(1,2) reg(1) True] by (auto simp: will_lock_refused_def q)
  next
    case False
    obtain s1 where s1: "will_lock_loop k bt (q # ps) s = will_lock_loop k bt ps s1" "lockdep_inv s1"
      "follows s1 = follows s \<union> {p} \<times> {k}" "only_tree_changed s s1"
      "\<And>y. (k, y) \<in> (follows s1)\<^sup>+ \<longleftrightarrow> (k, y) \<in> (follows s)\<^sup>+"
      using will_lock_loop_passes [OF Cons.prems(1,2) reg(1) False] q by metis
    have same: "will_lock_refused s k (smap_keys (q # ps)) = will_lock_refused s1 k (smap_keys ps)"
      using False by (auto simp: will_lock_refused_def q s1(5))
    have "if will_lock_refused s1 k (smap_keys ps) then will_lock_loop k bt ps s1 = Abort
      else \<exists>s'. will_lock_loop k bt ps s1 = Ret () s' \<and> lockdep_inv s' \<and>
        follows s' = follows s1 \<union> smap_keys ps \<times> {k} \<and> only_tree_changed s1 s'"
      by (rule Cons.IH [OF s1(2)]) (use Cons.prems(2) reg only_tree_changed_frame(1) [OF s1(4)] in auto)
    then show ?thesis
      unfolding s1(1) same
      using s1(3) q by (auto intro: only_tree_changed_trans [OF s1(4)] split: if_splits)
  qed
qed

section \<open>Registration\<close>

lemma get_free_id_frame:
  assumes "lockdep_get_free_id s = (lid, s')"
  shows "name_to_id_map s' = name_to_id_map s" "id_to_name_map s' = id_to_name_map s"
    "lock_ref s' = lock_ref s" "held_locks s' = held_locks s" "lock_tree s' = lock_tree s"
    "lock_tree_backtrace s' = lock_tree_backtrace s" "current_max_id s' = current_max_id s"
  using assms
  by (auto simp: lockdep_get_free_id_def Let_def clear_id_bit_def init_lock_ids_bitmap_def
      split: if_splits option.splits)

text \<open>
  Registering a known name counts one more reference; a new name gets an identifier that
  no registered lock has; a new name fails exactly when all identifiers are taken.
\<close>

definition same_but_registry :: "lockdep_state \<Rightarrow> lockdep_state \<Rightarrow> bool" where
  "same_but_registry s s' \<longleftrightarrow> held_locks s' = held_locks s \<and> lock_tree s' = lock_tree s \<and>
     lock_tree_backtrace s' = lock_tree_backtrace s"

lemma same_but_registry_follows:
  "same_but_registry s s' \<Longrightarrow> follows s' = follows s \<and> follows_bit s' = follows_bit s"
  by (auto simp: same_but_registry_def follows_def follows_bit_def fun_eq_iff)

lemma tree_held_mono:
  assumes "same_but_registry s s'" "tree_inv s" "held_inv s" "registered s \<subseteq> registered s'"
  shows "tree_inv s'" "held_inv s'"
proof -
  note f = same_but_registry_follows [OF assms(1)]
  show "tree_inv s'"
    using assms f unfolding tree_inv_def same_but_registry_def by auto
  show "held_inv s'"
    using assms unfolding held_inv_def same_but_registry_def by auto
qed

lemma register_known:
  assumes "lockdep_inv s" "c_str name = name" "name_to_id_map s name = Some k"
  shows "lockdep_register name s = Ret (int k) (incr_ref k s)"
    and "lockdep_inv (incr_ref k s)"
proof -
  show "lockdep_register name s = Ret (int k) (incr_ref k s)"
    using assms by (simp add: lockdep_register_def lockdep_register_unlocked_def)
  let ?s = "incr_ref k s"
  have k: "k \<in> registered s"
    using assms(1,3) by (auto simp: lockdep_inv_def names_inv_def registered_def)
  then obtain r where r: "lock_ref s k = Some r" "1 \<le> r"
    using assms(1) unfolding lockdep_inv_def refs_inv_def by blast
  have reg: "registered ?s = registered s" "avail ?s = avail s" "alloc_inv ?s = alloc_inv s"
    by (simp_all add: incr_ref_def registered_def avail_def id_bit_def alloc_inv_def)
  have "ids_inv ?s" "names_inv ?s"
    using assms(1) reg by (simp_all add: lockdep_inv_def ids_inv_def names_inv_def)
      (simp_all add: incr_ref_def)
  moreover have "refs_inv ?s"
  proof -
    have "lock_ref ?s = (lock_ref s)(k \<mapsto> r + 1)" by (simp add: incr_ref_def r)
    moreover have "0 \<le> r" using r(2) by simp
    ultimately show ?thesis
      using assms(1) k reg(1) by (simp add: lockdep_inv_def refs_inv_def insert_absorb)
  qed
  moreover have "tree_inv ?s" "held_inv ?s"
    by (rule tree_held_mono [of s]; use assms(1) reg in
        \<open>simp add: same_but_registry_def incr_ref_def lockdep_inv_def\<close>)+
  ultimately show "lockdep_inv ?s" by (simp add: lockdep_inv_def)
qed

lemma register_full:
  assumes "lockdep_inv s" "c_str name = name" "name_to_id_map s name = None"
    "registered s = {..<MAX_LOCKS}"
  shows "lockdep_register name s = Throw (register_failed name) (init_lock_ids_bitmap s)"
proof -
  have inv: "alloc_inv s" "avail s = {}"
    using assms(1,4) by (simp_all add: lockdep_inv_def ids_inv_def)
  then have "lockdep_get_free_id s = (-1, init_lock_ids_bitmap s)"
    using get_free_id_cases [OF inv(1)] by auto
  then show ?thesis
    using assms(2,3) by (simp add: lockdep_register_def lockdep_register_unlocked_def)
qed

lemma register_new:
  assumes "lockdep_inv s" "c_str name = name" "name_to_id_map s name = None"
    "registered s \<noteq> {..<MAX_LOCKS}"
  shows "\<exists>k s'. lockdep_register name s = Ret (int k) s' \<and> lockdep_inv s' \<and>
    k \<notin> registered s \<and> k < MAX_LOCKS \<and> same_but_registry s s' \<and>
    name_to_id_map s' = (name_to_id_map s)(name \<mapsto> k) \<and>
    id_to_name_map s' = (id_to_name_map s)(k \<mapsto> name) \<and>
    lock_ref s' = (lock_ref s)(k \<mapsto> 1)"
proof -
  have inv: "ids_inv s" "names_inv s" "refs_inv s" "tree_inv s" "held_inv s"
    using assms(1) by (simp_all add: lockdep_inv_def)
  have "avail s \<noteq> {}"
    using assms(4) inv(1) registered_bound [OF inv(1)] by (auto simp: ids_inv_def)
  then obtain k s1 where k: "k \<in> avail s" "lockdep_get_free_id s = (int k, s1)" "alloc_inv s1"
    "avail s1 = avail s - {k}"
    using get_free_id_cases [of s] inv(1) by (auto simp: ids_inv_def)
  note s1 = get_free_id_frame [OF k(2)]
  have kfree: "k \<notin> registered s" "k < MAX_LOCKS"
    using k(1) inv(1) by (auto simp: ids_inv_def)
  define s2 where "s2 = (if current_max_id s1 \<le> k then s1\<lparr>current_max_id := k + 1\<rparr> else s1)"
  define s' where "s' = incr_ref k (s2\<lparr>name_to_id_map := (name_to_id_map s2)(name \<mapsto> k),
      id_to_name_map := (id_to_name_map s2)(k \<mapsto> name)\<rparr>)"
  have res: "lockdep_register name s = Ret (int k) s'"
    using assms(2,3) k(2)
    by (simp add: lockdep_register_def lockdep_register_unlocked_def s'_def s2_def Let_def)
  have noref: "lock_ref s k = None"
    using inv(3) kfree by (auto simp: refs_inv_def)
  have fields: "name_to_id_map s' = (name_to_id_map s)(name \<mapsto> k)"
      "id_to_name_map s' = (id_to_name_map s)(k \<mapsto> name)"
      "lock_ref s' = (lock_ref s)(k \<mapsto> 1)"
      "current_max_id s' = max (current_max_id s) (k + 1)"
      "same_but_registry s s'"
    by (simp_all add: s'_def s2_def s1 incr_ref_def noref same_but_registry_def max_def)
  have alloc: "avail s' = avail s1" "alloc_inv s' = alloc_inv s1"
    by (simp_all add: s'_def s2_def incr_ref_def avail_def id_bit_def alloc_inv_def)
  have reg: "registered s' = insert k (registered s)"
    by (simp add: registered_def fields)
  have "ids_inv s'"
    using inv(1) k kfree by (auto simp: ids_inv_def alloc reg fields)
  moreover have "names_inv s'"
  proof -
    have "id_to_name_map s k' \<noteq> Some name" for k'
      using inv(2) assms(3) by (metis names_inv_def option.distinct(1))
    moreover have "id_to_name_map s k = None" using kfree by (auto simp: registered_def)
    ultimately show ?thesis using inv(2) by (simp add: names_inv_def fields)
  qed
  moreover have "refs_inv s'"
    using inv(3) by (auto simp: refs_inv_def reg fields)
  moreover have "tree_inv s'" "held_inv s'"
    using tree_held_mono [OF fields(5) inv(4,5)] reg by auto
  ultimately show ?thesis
    using res kfree fields by (auto simp: lockdep_inv_def)
qed

section \<open>Held locks\<close>

definition set_held :: "tid \<Rightarrow> (nat \<times> BackTrace) list \<Rightarrow> lockdep_state \<Rightarrow> lockdep_state" where
  "set_held t hs s = s\<lparr>held_locks := (held_locks s)(t := hs)\<rparr>"

lemma set_held_inv:
  assumes "lockdep_inv s" "smap_wf hs" "smap_keys hs \<subseteq> registered s"
  shows "lockdep_inv (set_held t hs s)"
  using assms
  by (simp add: lockdep_inv_def ids_inv_def names_inv_def refs_inv_def tree_inv_def held_inv_def
      set_held_def)

lemma locked_registered:
  assumes "0 \<le> lid"
  shows "lockdep_locked t bt name lid s =
    Ret lid (set_held t (smap_put (nat lid) bt (held_locks s t)) s)"
  using assms by (simp add: lockdep_locked_def ensure_registered_def set_held_def)

lemma locked_inv:
  assumes "lockdep_inv s" "0 \<le> lid" "nat lid \<in> registered s"
  shows "lockdep_inv (set_held t (smap_put (nat lid) bt (held_locks s t)) s)"
  by (rule set_held_inv) (use assms in \<open>auto simp: lockdep_inv_def held_inv_def smap_wf_put\<close>)

lemma will_unlock_registered:
  assumes "0 \<le> lid"
  shows "lockdep_will_unlock t name lid s =
    Ret lid (set_held t (smap_erase (nat lid) (held_locks s t)) s)"
  using assms by (simp add: lockdep_will_unlock_def set_held_def)

lemma will_unlock_inv:
  assumes "lockdep_inv s"
  shows "lockdep_inv (set_held t (smap_erase k (held_locks s t)) s)"
  by (rule set_held_inv) (use assms in \<open>auto simp: lockdep_inv_def held_inv_def smap_wf_erase\<close>)

section \<open>Unregistration\<close>

lemma forget_loop_bit:
  "follows_bit (fold (forget_dependency k) xs s) a b \<longleftrightarrow>
     follows_bit s a b \<and> \<not> (a \<in> set xs \<and> b = k)"
proof (induction xs arbitrary: s)
  case (Cons i xs)
  have "follows_bit (forget_dependency k i s) a b \<longleftrightarrow> follows_bit s a b \<and> \<not> (a = i \<and> b = k)"
    using div_mod_8_eq_iff [of b k]
    by (auto simp: follows_bit_def forget_dependency_def Let_def byte_simps)
  then show ?case using Cons.IH [of "forget_dependency k i s"] by auto
qed simp

lemma forget_loop_backtrace:
  "lock_tree_backtrace (fold (forget_dependency k) xs s) a b =
     (if a = k \<and> b \<in> set xs \<or> b = k \<and> a \<in> set xs then None else lock_tree_backtrace s a b)"
  by (induction xs arbitrary: s) (auto simp: forget_dependency_def Let_def)

lemma forget_loop_only_tree:
  "only_tree_changed s (fold (forget_dependency k) xs s)"
proof (induction xs arbitrary: s)
  case (Cons i xs)
  have "only_tree_changed s (forget_dependency k i s)"
    by (rule only_tree_changedI) (simp add: forget_dependency_def Let_def)
  then show ?case using Cons.IH only_tree_changed_trans by fastforce
qed (simp add: only_tree_changed_refl)

lemma clear_row_follows:
  assumes "b < MAX_LOCKS"
  shows "follows_bit (clear_row k s) a b \<longleftrightarrow> follows_bit s a b \<and> a \<noteq> k"
proof -
  have "b div 8 < MAX_LOCKS div 8" using assms by (simp add: MAX_LOCKS_def)
  then show ?thesis by (auto simp: follows_bit_def clear_row_def byte_simps)
qed

lemma clear_row_only_tree: "only_tree_changed s (clear_row k s)"
  by (rule only_tree_changedI) (simp add: clear_row_def)

text \<open>The tree after forgetting a lock: its row and its column are gone, the rest is as before.\<close>

definition without_lock :: "nat \<Rightarrow> (nat \<times> nat) set \<Rightarrow> (nat \<times> nat) set" where
  "without_lock k r = {(a, b) \<in> r. a \<noteq> k \<and> b \<noteq> k}"

lemma forget_tree:
  fixes k :: nat
  assumes "ids_inv s" "tree_inv s"
  defines "s1 \<equiv> fold (forget_dependency k) [0..<current_max_id s] (clear_row k s)"
  shows "follows s1 = without_lock k (follows s)"
    and "lock_tree_backtrace s1 a b \<noteq> None \<longleftrightarrow> (a, b) \<in> without_lock k (follows s)"
    and "only_tree_changed s s1"
proof -
  have inside: "a < current_max_id s" "b < current_max_id s" "b < MAX_LOCKS"
    if "follows_bit s a b" for a b
  proof -
    have "(a, b) \<in> follows s" using that by simp
    then have "(a, b) \<in> registered s \<times> registered s"
      using assms(2) unfolding tree_inv_def by blast
    then show "a < current_max_id s" "b < current_max_id s" "b < MAX_LOCKS"
      using assms(1) registered_bound [OF assms(1)] unfolding ids_inv_def by auto
  qed
  have beyond: "follows_bit (clear_row k s) a b \<Longrightarrow> follows_bit s a b" for a b
    by (auto simp: follows_bit_def clear_row_def byte_simps split: if_splits)
  have bit: "follows_bit s1 a b \<longleftrightarrow> follows_bit s a b \<and> a \<noteq> k \<and> b \<noteq> k" for a b
    unfolding s1_def forget_loop_bit
    using clear_row_follows [of b k s a] inside [of a b] beyond [of a b] by auto
  then show "follows s1 = without_lock k (follows s)"
    by (auto simp: follows_def without_lock_def)
  have "lock_tree_backtrace (clear_row k s) = lock_tree_backtrace s"
    by (simp add: clear_row_def)
  moreover have "lock_tree_backtrace s a b \<noteq> None \<longleftrightarrow> follows_bit s a b"
    using assms(2) by (simp add: tree_inv_def)
  ultimately show "lock_tree_backtrace s1 a b \<noteq> None \<longleftrightarrow> (a, b) \<in> without_lock k (follows s)"
    unfolding s1_def forget_loop_backtrace
    using inside [of a b] by (auto simp: without_lock_def)
  show "only_tree_changed s s1"
    unfolding s1_def
    by (rule only_tree_changed_trans [OF clear_row_only_tree forget_loop_only_tree])
qed

lemma acyclic_without_lock: "acyclic r \<Longrightarrow> acyclic (without_lock k r)"
  by (erule acyclic_subset) (auto simp: without_lock_def)

lemma release_avail:
  assumes "k < MAX_LOCKS" "lock_ids_bitmap_initialized s"
  shows "avail (release_id k s) = insert k (avail s)"
proof -
  have "id_bit (release_id k s) j \<longleftrightarrow> j = k \<or> id_bit s j" for j
    using div_mod_8_eq_iff [of j k] by (auto simp: id_bit_def release_id_def byte_simps)
  moreover have "lock_ids_bitmap_initialized (release_id k s)"
    using assms(2) by (simp add: release_id_def)
  ultimately show ?thesis using assms by (auto simp: avail_def)
qed

text \<open>Two maps that are inverse to each other stay so when a pair is removed from both.\<close>

lemma name_pair_removed:
  assumes "\<And>n k. m n = Some k \<longleftrightarrow> i k = Some n" "i k = Some name"
  shows "(m(name := None)) n = Some k' \<longleftrightarrow> (i(k := None)) k' = Some n"
  using assms by (metis fun_upd_apply option.distinct(1) option.inject)

text \<open>The state after the last reference to \<open>k\<close> is gone.\<close>

lemma last_reference_gone:
  assumes "ids_inv s" "tree_inv s" "k < MAX_LOCKS" "lock_ids_bitmap_initialized s"
    and s': "s' = release_id k (forget_lock k name (s\<lparr>lock_ref := (lock_ref s)(k \<mapsto> 0)\<rparr>))"
  shows "id_to_name_map s' = (id_to_name_map s)(k := None)" "name_to_id_map s' = (name_to_id_map s)(name := None)"
    "lock_ref s' = (lock_ref s)(k := None)" "held_locks s' = held_locks s" "last_free_lock_id s' = int k"
    "current_max_id s' = current_max_id s" "follows s' = without_lock k (follows s)" "avail s' = insert k (avail s)"
    "lock_tree_backtrace s' a b \<noteq> None \<longleftrightarrow> (a, b) \<in> without_lock k (follows s)"
    "registered s' = registered s - {k}"
proof -
  define u where "u = s\<lparr>lock_ref := (lock_ref s)(k \<mapsto> 0)\<rparr>"
  define s1 where "s1 = fold (forget_dependency k) [0..<current_max_id u] (clear_row k u)"
  have u: "ids_inv u" "tree_inv u" "follows u = follows s"
    using assms(1,2) by (simp_all add: u_def ids_inv_def tree_inv_def)
  note tree = forget_tree [OF u(1,2), of k, folded s1_def]
  note frame = only_tree_changed_frame [OF tree(3)]
  have fields: "id_to_name_map s' = (id_to_name_map s)(k := None)"
      "name_to_id_map s' = (name_to_id_map s)(name := None)"
      "lock_ref s' = (lock_ref s)(k := None)" "held_locks s' = held_locks s"
      "last_free_lock_id s' = int k" "current_max_id s' = current_max_id s"
      "lock_tree s' = lock_tree s1" "lock_tree_backtrace s' = lock_tree_backtrace s1"
      "lock_ids_bitmap s' = lock_ids_bitmap (release_id k s)"
      "lock_ids_bitmap_initialized s' = lock_ids_bitmap_initialized (release_id k s)"
    by (simp_all add: s' u_def [symmetric] release_id_def forget_lock_def s1_def [symmetric] frame Let_def)
      (simp_all add: u_def)
  show "id_to_name_map s' = (id_to_name_map s)(k := None)" "name_to_id_map s' = (name_to_id_map s)(name := None)"
    "lock_ref s' = (lock_ref s)(k := None)" "held_locks s' = held_locks s" "last_free_lock_id s' = int k"
    "current_max_id s' = current_max_id s" by (fact fields(1-6))+
  show "follows s' = without_lock k (follows s)" using tree(1) u(3) by (simp add: follows_def follows_bit_def fields)
  have "avail s' = avail (release_id k s)" by (simp add: avail_def id_bit_def fields)
  then show "avail s' = insert k (avail s)" using release_avail [OF assms(3,4)] by simp
  show "lock_tree_backtrace s' a b \<noteq> None \<longleftrightarrow> (a, b) \<in> without_lock k (follows s)"
    using tree(2) u(3) by (simp add: fields)
  show "registered s' = registered s - {k}" by (auto simp: registered_def fields split: if_splits)
qed

lemma unregister_last:
  assumes "lockdep_inv s" "k \<in> registered s" "lock_ref s k = Some 1"
    and "\<forall>t. k \<notin> smap_keys (held_locks s t)"
  shows "\<exists>s'. lockdep_unregister (int k) s = Ret () s' \<and> lockdep_inv s' \<and>
    registered s' = registered s - {k} \<and> follows s' = without_lock k (follows s) \<and>
    held_locks s' = held_locks s \<and> last_free_lock_id s' = int k \<and>
    id_to_name_map s' = (id_to_name_map s)(k := None) \<and>
    lock_ref s' = (lock_ref s)(k := None)"
proof -
  have inv: "ids_inv s" "names_inv s" "refs_inv s" "tree_inv s" "held_inv s"
    using assms(1) by (simp_all add: lockdep_inv_def)
  obtain name where name: "id_to_name_map s k = Some name"
    using assms(2) by (auto simp: registered_def)
  have small: "k < MAX_LOCKS" using registered_bound [OF inv(1)] assms(2) by auto
  define s' where "s' = release_id k (forget_lock k name (s\<lparr>lock_ref := (lock_ref s)(k \<mapsto> 0)\<rparr>))"
  have res: "lockdep_unregister (int k) s = Ret () s'"
    using name assms(3) small by (simp add: lockdep_unregister_def s'_def)
  have init: "lock_ids_bitmap_initialized s"
    using inv(1) assms(2) small by (auto simp: ids_inv_def avail_def)
  note gone = last_reference_gone [OF inv(1,4) small init s'_def]
  have "ids_inv s'"
    using inv(1) small assms(2) by (auto simp: ids_inv_def gone alloc_inv_def)
  moreover have "names_inv s'"
    using name_pair_removed [of "name_to_id_map s" "id_to_name_map s", OF _ name] inv(2)
    unfolding names_inv_def gone by blast
  moreover have "refs_inv s'"
    using inv(3) by (auto simp: refs_inv_def gone split: if_splits)
  moreover have "tree_inv s'"
    using inv(4) acyclic_without_lock [of "follows s" k]
    unfolding tree_inv_def gone
    by (auto simp: without_lock_def gone(7) set_eq_iff simp flip: follows_iff)
  moreover have "held_inv s'"
    using inv(5) assms(4) by (auto simp: held_inv_def gone)
  ultimately show ?thesis
    using res gone by (auto simp: lockdep_inv_def)
qed

lemma unregister_shared:
  assumes "lockdep_inv s" "lock_ref s k = Some r" "1 < r"
  shows "lockdep_unregister (int k) s = Ret () (s\<lparr>lock_ref := (lock_ref s)(k \<mapsto> r - 1)\<rparr>)"
    and "lockdep_inv (s\<lparr>lock_ref := (lock_ref s)(k \<mapsto> r - 1)\<rparr>)"
proof -
  let ?s = "s\<lparr>lock_ref := (lock_ref s)(k \<mapsto> r - 1)\<rparr>"
  show "lockdep_unregister (int k) s = Ret () ?s"
    using assms(2,3) by (simp add: lockdep_unregister_def)
  have "k \<in> registered s" using assms(1,2) by (auto simp: lockdep_inv_def refs_inv_def)
  then show "lockdep_inv ?s"
    using assms
    by (simp add: lockdep_inv_def ids_inv_def names_inv_def refs_inv_def tree_inv_def held_inv_def
        insert_absorb)
qed

section \<open>A concrete run\<close>

text \<open>
  Two locks named as in \<^verbatim>\<open>qa/test_mutex.cc\<close>, registered from the initial state; thread 7
  then holds the first one.
\<close>

definition bt_demo :: BackTrace where
  "bt_demo = BackTrace_ctor 0 [''./test_mutex(main+0x1d) [0x40]'']"

definition ld_one :: lockdep_state where
  "ld_one = lockdep_init\<lparr>
     lock_ids_bitmap := (\<lambda>i. if i < MAX_LOCKS div 8 then 255 else 0)(0 := 254),
     lock_ids_bitmap_initialized := True,
     name_to_id_map := [''mutex0'' \<mapsto> 0], id_to_name_map := [0 \<mapsto> ''mutex0''],
     lock_ref := [0 \<mapsto> 1], current_max_id := 1\<rparr>"

definition ld_two :: lockdep_state where
  "ld_two = ld_one\<lparr>
     lock_ids_bitmap := (\<lambda>i. if i < MAX_LOCKS div 8 then 255 else 0)(0 := 252),
     name_to_id_map := [''mutex0'' \<mapsto> 0, ''mutex1'' \<mapsto> 1],
     id_to_name_map := [0 \<mapsto> ''mutex0'', 1 \<mapsto> ''mutex1''],
     lock_ref := [0 \<mapsto> 1, 1 \<mapsto> 1], current_max_id := 2\<rparr>"

definition ld_held :: lockdep_state where
  "ld_held = set_held 7 [(0, bt_demo)] ld_two"

lemma scan_bits_255: "scan_bits 255 0 = Some 0"
  by (simp add: scan_bits.simps [of _ 0] byte_test_def)

lemma scan_bits_254: "scan_bits 254 0 = Some 1"
  by (simp add: scan_bits.simps [of _ 0] scan_bits.simps [of _ "Suc 0"] byte_test_def)

lemmas register_eval =
  lockdep_register_def lockdep_register_unlocked_def lockdep_get_free_id_def
  init_lock_ids_bitmap_def clear_id_bit_def incr_ref_def c_str_def byte_clear_def
  scan_bytes.simps [of _ 0] scan_bits_255 scan_bits_254 MAX_LOCKS_def Let_def

lemma ld_one_run: "lockdep_register ''mutex0'' lockdep_init = Ret 0 ld_one"
  by (simp add: ld_one_def lockdep_init_def register_eval cong: if_cong)

lemma ld_two_run: "lockdep_register ''mutex1'' ld_one = Ret 1 ld_two"
  by (simp add: ld_two_def ld_one_def lockdep_init_def register_eval cong: if_cong)

lemma ld_held_run: "lockdep_locked 7 bt_demo ''mutex0'' 0 ld_two = Ret 0 ld_held"
  by (simp add: locked_registered ld_held_def ld_two_def ld_one_def lockdep_init_def)

lemma register_Ret_inv:
  assumes "lockdep_inv s" "c_str name = name" "lockdep_register name s = Ret lid s'"
  shows "lockdep_inv s'" "0 \<le> lid" "nat lid \<in> registered s'"
    "id_to_name_map s' (nat lid) = Some name" "registered s \<subseteq> registered s'"
    "same_but_registry s s'"
proof -
  have "lockdep_inv s' \<and> 0 \<le> lid \<and> id_to_name_map s' (nat lid) = Some name \<and>
      registered s \<subseteq> registered s' \<and> same_but_registry s s'"
  proof (cases "name_to_id_map s name")
    case None
    show ?thesis
    proof (cases "registered s = {..<MAX_LOCKS}")
      case True
      then show ?thesis using register_full [OF assms(1,2) None] assms(3) by simp
    next
      case False
      from register_new [OF assms(1,2) None False] assms(3) show ?thesis
        by (auto simp: registered_def)
    qed
  next
    case (Some k)
    then have "id_to_name_map s k = Some name"
      using assms(1) by (simp add: lockdep_inv_def names_inv_def)
    then show ?thesis
      using register_known [OF assms(1,2) Some] assms(3)
      by (auto simp: incr_ref_def same_but_registry_def)
  qed
  then show "lockdep_inv s'" "0 \<le> lid" "nat lid \<in> registered s'"
    "id_to_name_map s' (nat lid) = Some name" "registered s \<subseteq> registered s'"
    "same_but_registry s s'"
    by (auto simp: registered_def)
qed

lemma ld_one_inv: "lockdep_inv ld_one"
  by (rule register_Ret_inv(1) [OF lockdep_init_inv _ ld_one_run]) (simp add: c_str_def)

lemma ld_two_inv: "lockdep_inv ld_two"
  by (rule register_Ret_inv(1) [OF ld_one_inv _ ld_two_run]) (simp add: c_str_def)

lemma ld_held_inv: "lockdep_inv ld_held"
  unfolding ld_held_def
  by (rule set_held_inv [OF ld_two_inv]) (simp_all add: registered_def ld_two_def)

lemma ld_held_facts [simp]:
  "held_locks ld_held 7 = [(0, bt_demo)]" "registered ld_held = {0, 1}"
  "lock_ref ld_held = [0 \<mapsto> 1, 1 \<mapsto> 1]" "lock_ref ld_two = [0 \<mapsto> 1, 1 \<mapsto> 1]"
  "registered ld_two = {0, 1}" "held_locks ld_two t = []"
  "name_to_id_map ld_two = [''mutex0'' \<mapsto> 0, ''mutex1'' \<mapsto> 1]"
  by (auto simp: ld_held_def ld_two_def ld_one_def lockdep_init_def set_held_def registered_def)

section \<open>The theorems on the checker\<close>

text \<open>
  C20: on every state that satisfies the invariant, \<^verbatim>\<open>does_follow(a, b)\<close> returns (its
  recursion is never deeper than the number of identifiers), and it returns true exactly
  when there is a chain of recorded dependencies from \<open>a\<close> to \<open>b\<close>.
\<close>
theorem does_follow_decides_reachability:
  assumes "lockdep_inv s"
  shows "does_follow MAX_LOCKS s a b = Some ((a, b) \<in> (follows s)\<^sup>+)"
  using assms does_follow_trancl by (simp add: lockdep_inv_def)

theorem does_follow_decides_reachability_witness:
  "does_follow MAX_LOCKS ld_held 0 1 = Some ((0, 1) \<in> (follows ld_held)\<^sup>+)"
  by (rule does_follow_decides_reachability [OF ld_held_inv])

lemma will_lock_eq:
  assumes "0 \<le> lid"
  shows "lockdep_will_lock t bt name lid s =
    bind (will_lock_loop (nat lid) bt (held_locks s t) s) (\<lambda>_ s2. Ret lid s2)"
  using assms by (simp add: lockdep_will_lock_def ensure_registered_def)

lemma will_lock_correct:
  assumes "lockdep_inv s" "k \<in> registered s"
  shows "if will_lock_refused s k (smap_keys (held_locks s t))
    then lockdep_will_lock t bt name (int k) s = Abort
    else \<exists>s'. lockdep_will_lock t bt name (int k) s = Ret (int k) s' \<and> lockdep_inv s' \<and>
      follows s' = follows s \<union> smap_keys (held_locks s t) \<times> {k} \<and> only_tree_changed s s'"
proof -
  have "smap_keys (held_locks s t) \<subseteq> registered s"
    using assms(1) by (simp add: lockdep_inv_def held_inv_def)
  from will_lock_loop_correct [OF assms(1,2) this, of bt] show ?thesis
    by (auto simp: will_lock_eq split: if_splits)
qed

text \<open>
  C4: the verdict of \<^verbatim>\<open>lockdep_will_lock\<close>. A thread that announces a registered lock is
  stopped (\<^verbatim>\<open>abort()\<close>) exactly when it already holds that lock or holds a lock that, by
  the recorded dependencies, has been taken after it; in every other case the call returns.
\<close>
theorem will_lock_aborts_iff_deadlock:
  assumes "lockdep_inv s" "k \<in> registered s"
  shows "lockdep_will_lock t bt name (int k) s = Abort \<longleftrightarrow>
    (\<exists>h \<in> smap_keys (held_locks s t). h = k \<or> (k, h) \<in> (follows s)\<^sup>+)"
  using will_lock_correct [OF assms, of t bt name] by (auto simp: will_lock_refused_def split: if_splits)

theorem will_lock_aborts_iff_deadlock_witness:
  "lockdep_will_lock 7 bt_demo ''mutex0'' 0 ld_held = Abort"
  using will_lock_aborts_iff_deadlock [OF ld_held_inv, of 0 7 bt_demo "''mutex0''"] by simp

text \<open>
  C16: the effect of an accepted \<^verbatim>\<open>lockdep_will_lock\<close>. Every lock the thread holds is now
  recorded before the announced one and no other dependency appears or disappears, the
  dependencies stay free of cycles, and names, references and held locks are untouched.
\<close>
theorem will_lock_records_order:
  assumes "lockdep_inv s" "k \<in> registered s"
    and "lockdep_will_lock t bt name (int k) s = Ret lid s'"
  shows "lid = int k \<and> lockdep_inv s' \<and> acyclic (follows s') \<and>
    follows s' = follows s \<union> smap_keys (held_locks s t) \<times> {k} \<and>
    held_locks s' = held_locks s \<and> name_to_id_map s' = name_to_id_map s \<and>
    lock_ref s' = lock_ref s"
proof -
  from will_lock_correct [OF assms(1,2), of t bt name] assms(3)
  have "lid = int k" and inv: "lockdep_inv s'"
    and f: "follows s' = follows s \<union> smap_keys (held_locks s t) \<times> {k}"
    and only: "only_tree_changed s s'"
    by (auto split: if_splits)
  moreover have "acyclic (follows s')" using inv by (simp add: lockdep_inv_def tree_inv_def)
  ultimately show ?thesis using only_tree_changed_frame [OF only] by simp
qed

theorem will_lock_records_order_witness:
  "\<exists>s'. lockdep_will_lock 7 bt_demo ''mutex1'' 1 ld_held = Ret 1 s' \<and>
     follows s' = follows ld_held \<union> {(0, 1)} \<and> acyclic (follows s')"
proof -
  have none: "(1, 0) \<notin> (follows ld_held)\<^sup>+"
  proof -
    have "follows ld_held = {}"
      by (simp add: follows_def follows_bit_def ld_held_def set_held_def ld_two_def ld_one_def
          lockdep_init_def byte_test_zero)
    then show ?thesis by simp
  qed
  then obtain s' where s': "lockdep_will_lock 7 bt_demo ''mutex1'' (int 1) ld_held = Ret (int 1) s'"
    using will_lock_correct [OF ld_held_inv, of 1 7 bt_demo "''mutex1''"]
    by (auto simp: will_lock_refused_def)
  have reg: "1 \<in> registered ld_held" by simp
  from will_lock_records_order [OF ld_held_inv reg s'] s' show ?thesis by auto
qed

text \<open>
  C30: \<^verbatim>\<open>lockdep_register\<close> on a name without embedded NUL. A known name keeps its identifier
  and gains a reference; a new name gets an identifier no other lock has, with one
  reference; the call throws exactly when the name is new and all \<open>MAX_LOCKS\<close> identifiers
  are taken. The invariant holds afterwards, and dependencies and held locks are unchanged.
\<close>
theorem register_name_correct:
  assumes "lockdep_inv s" "c_str name = name"
  shows "case name_to_id_map s name of
      Some k \<Rightarrow> \<exists>s'. lockdep_register name s = Ret (int k) s' \<and> lockdep_inv s' \<and>
        lock_ref s' = (lock_ref s)(k \<mapsto> the (lock_ref s k) + 1) \<and>
        name_to_id_map s' = name_to_id_map s \<and> same_but_registry s s'
    | None \<Rightarrow> if registered s = {..<MAX_LOCKS}
        then \<exists>s'. lockdep_register name s = Throw (register_failed name) s'
        else \<exists>k s'. lockdep_register name s = Ret (int k) s' \<and> lockdep_inv s' \<and>
          k \<notin> registered s \<and> lock_ref s' = (lock_ref s)(k \<mapsto> 1) \<and>
          name_to_id_map s' = (name_to_id_map s)(name \<mapsto> k) \<and> same_but_registry s s'"
proof (cases "name_to_id_map s name")
  case None
  then show ?thesis
    using register_full [OF assms None] register_new [OF assms None] by auto
next
  case (Some k)
  then have "k \<in> dom (lock_ref s)"
    using assms(1) by (auto simp: lockdep_inv_def names_inv_def refs_inv_def registered_def)
  then show ?thesis
    using Some register_known [OF assms Some]
    by (auto simp: incr_ref_def same_but_registry_def)
qed

theorem register_name_correct_witness:
  "\<exists>s'. lockdep_register ''mutex1'' ld_two = Ret 1 s' \<and> lockdep_inv s' \<and>
     lock_ref s' = [0 \<mapsto> 1, 1 \<mapsto> 2]"
  using register_name_correct [OF ld_two_inv, of "''mutex1''"] by (simp add: c_str_def) blast

text \<open>
  The lookup by \<^verbatim>\<open>name.c_str()\<close> does not find a name with an embedded NUL character, so
  registering such a name a second time gives it a second identifier.
\<close>

lemma register_embedded_nul_twice:
  "\<exists>s1 s2. lockdep_register [CHR 0x00] lockdep_init = Ret 0 s1 \<and>
     lockdep_register [CHR 0x00] s1 = Ret 1 s2"
  by (simp add: lockdep_init_def register_eval cong: if_cong)

text \<open>
  C29: \<^verbatim>\<open>lockdep_unregister\<close> of a registered lock that no thread holds. While other
  references remain only the count drops; with the last one the identifier is free again,
  remembered as the next to hand out, and every dependency that names it is forgotten while
  all others stay. The invariant holds afterwards.
\<close>
theorem unregister_correct:
  assumes "lockdep_inv s" "k \<in> registered s" "\<forall>t. k \<notin> smap_keys (held_locks s t)"
  shows "\<exists>r s'. lock_ref s k = Some r \<and> lockdep_unregister (int k) s = Ret () s' \<and>
    lockdep_inv s' \<and> held_locks s' = held_locks s \<and>
    (if r = 1
     then registered s' = registered s - {k} \<and> last_free_lock_id s' = int k \<and>
       follows s' = {(a, b) \<in> follows s. a \<noteq> k \<and> b \<noteq> k}
     else lock_ref s' = (lock_ref s)(k \<mapsto> r - 1) \<and> registered s' = registered s \<and>
       follows s' = follows s)"
proof -
  obtain r where r: "lock_ref s k = Some r" "1 \<le> r"
    using assms(1,2) unfolding lockdep_inv_def refs_inv_def by blast
  show ?thesis
  proof (cases "r = 1")
    case True
    then show ?thesis
      using unregister_last [OF assms(1,2) _ assms(3)] r by (auto simp: without_lock_def)
  next
    case False
    then have "1 < r" using r by simp
    from unregister_shared [OF assms(1) r(1) this] show ?thesis using r False by auto
  qed
qed

theorem unregister_correct_witness:
  "\<exists>s'. lockdep_unregister 1 ld_two = Ret () s' \<and> lockdep_inv s' \<and> registered s' = {0} \<and>
     last_free_lock_id s' = 1"
proof -
  have "1 \<in> registered ld_two" "\<forall>t. 1 \<notin> smap_keys (held_locks ld_two t)" by simp_all
  from unregister_correct [OF ld_two_inv this] show ?thesis by auto
qed

end
