(* ===== verification/Lockdep_Clients.thy ===== *)
theory Lockdep_Clients
  imports Lockdep_Ops
begin

text \<open>
  The lock-order checker under any sequence of calls its clients make. The hooks of the mutex
  classes pass an identifier that is \<open>-1\<close> or was handed out by the checker and not given back
  since, and give one back only when the lock is not held; under that discipline every call
  ends in one of the ways the source provides for, and never indexes outside its arrays.
\<close>

section \<open>Calls\<close>

datatype ld_call =
    Register string
  | Will_lock tid BackTrace string int
  | Locked tid BackTrace string int
  | Will_unlock tid string int
  | Unregister int

fun ld_do :: "ld_call \<Rightarrow> lockdep_state \<Rightarrow> (int, lockdep_state) outcome" where
  "ld_do (Register name) s = lockdep_register name s"
| "ld_do (Will_lock t bt name lid) s = lockdep_will_lock t bt name lid s"
| "ld_do (Locked t bt name lid) s = lockdep_locked t bt name lid s"
| "ld_do (Will_unlock t name lid) s = lockdep_will_unlock t name lid s"
| "ld_do (Unregister lid) s = bind (lockdep_unregister lid s) (\<lambda>_ s. Ret lid s)"

definition id_known :: "lockdep_state \<Rightarrow> int \<Rightarrow> bool" where
  "id_known s lid \<longleftrightarrow> lid = -1 \<or> (0 \<le> lid \<and> nat lid \<in> registered s)"

fun ld_allowed :: "lockdep_state \<Rightarrow> ld_call \<Rightarrow> bool" where
  "ld_allowed s (Register name) \<longleftrightarrow> c_str name = name"
| "ld_allowed s (Will_lock t bt name lid) \<longleftrightarrow> c_str name = name \<and> id_known s lid"
| "ld_allowed s (Locked t bt name lid) \<longleftrightarrow> c_str name = name \<and> id_known s lid"
| "ld_allowed s (Will_unlock t name lid) \<longleftrightarrow> id_known s lid"
| "ld_allowed s (Unregister lid) \<longleftrightarrow> id_known s lid \<and> (\<forall>t. nat lid \<notin> smap_keys (held_locks s t))"

text \<open>The states of the checker under such calls, from the initial values of its variables.\<close>

inductive ld_reach :: "lockdep_state \<Rightarrow> bool" where
  start: "ld_reach lockdep_init"
| returned: "ld_reach s \<Longrightarrow> ld_allowed s c \<Longrightarrow> ld_do c s = Ret i s' \<Longrightarrow> ld_reach s'"
| thrown: "ld_reach s \<Longrightarrow> ld_allowed s c \<Longrightarrow> ld_do c s = Throw e s' \<Longrightarrow> ld_reach s'"

section \<open>How a call can end\<close>

fun id_result :: "lockdep_state \<Rightarrow> ld_call \<Rightarrow> (int, lockdep_state) outcome \<Rightarrow> bool" where
  "id_result s c (Ret i s') \<longleftrightarrow> lockdep_inv s' \<and> -1 \<le> i \<and> i < int MAX_LOCKS"
| "id_result s c (Throw e s') \<longleftrightarrow> lockdep_inv s' \<and> registered s = {..<MAX_LOCKS} \<and> (\<exists>n. e = register_failed n)"
| "id_result s c Abort \<longleftrightarrow> (\<exists>t bt n lid. c = Will_lock t bt n lid)"
| "id_result s c _ \<longleftrightarrow> False"

lemma init_bitmap_inv:
  assumes "lockdep_inv s"
  shows "lockdep_inv (init_lock_ids_bitmap s)"
proof (cases "lock_ids_bitmap_initialized s")
  case False
  let ?s = "init_lock_ids_bitmap s"
  have "registered ?s = registered s" "follows ?s = follows s" "current_max_id ?s = current_max_id s"
    "name_to_id_map ?s = name_to_id_map s" "id_to_name_map ?s = id_to_name_map s" "lock_ref ?s = lock_ref s"
    "held_locks ?s = held_locks s" "lock_tree_backtrace ?s = lock_tree_backtrace s"
    "\<And>a b. follows_bit ?s a b = follows_bit s a b"
    by (simp_all add: init_lock_ids_bitmap_def registered_def follows_def follows_bit_def)
  then show ?thesis
    using assms init_lock_ids_bitmap_facts [of s]
    by (simp add: lockdep_inv_def ids_inv_def names_inv_def refs_inv_def tree_inv_def held_inv_def alloc_inv_def)
qed (use assms in \<open>simp add: init_lock_ids_bitmap_def\<close>)

lemma registered_small: "lockdep_inv s \<Longrightarrow> k \<in> registered s \<Longrightarrow> k < MAX_LOCKS"
  using registered_bound [of s] by (auto simp: lockdep_inv_def)

lemma register_outcome:
  assumes "lockdep_inv s" "c_str name = name"
  obtains (new) k s' where "lockdep_register name s = Ret (int k) s'" "lockdep_inv s'" "k \<in> registered s'"
    "held_locks s' = held_locks s"
  | (full) "lockdep_register name s = Throw (register_failed name) (init_lock_ids_bitmap s)"
    "registered s = {..<MAX_LOCKS}"
proof (cases "name_to_id_map s name = None \<and> registered s = {..<MAX_LOCKS}")
  case True
  then show ?thesis using full register_full [OF assms] by blast
next
  case False
  have "\<exists>lid s'. lockdep_register name s = Ret lid s'"
  proof (cases "name_to_id_map s name")
    case None
    then show ?thesis using register_new [OF assms None] False by auto
  next
    case (Some k)
    then show ?thesis using register_known(1) [OF assms Some] by blast
  qed
  then obtain lid s' where r: "lockdep_register name s = Ret lid s'" by blast
  from register_Ret_inv [OF assms r]
  have "lockdep_inv s'" "lid = int (nat lid)" "nat lid \<in> registered s'" "held_locks s' = held_locks s"
    by (auto simp: same_but_registry_def)
  then show ?thesis using r new by metis
qed

text \<open>A hook with the identifier \<open>-1\<close> registers first; from then on the identifier is known.\<close>

lemma ensured:
  assumes "lockdep_inv s" "c_str name = name" "id_known s lid"
    and hook: "\<And>k s1. lockdep_inv s1 \<Longrightarrow> k \<in> registered s1 \<Longrightarrow> id_result s c (f (int k) s1)"
  shows "id_result s c (bind (ensure_registered name lid s) f)"
proof (cases "lid = -1")
  case True
  from assms(1,2) show ?thesis
  proof (cases rule: register_outcome)
    case (new k s')
    then show ?thesis using True hook [of s' k] by (simp add: ensure_registered_def)
  next
    case full
    then show ?thesis using True init_bitmap_inv [OF assms(1)] by (auto simp: ensure_registered_def)
  qed
next
  case False
  then have "0 \<le> lid" "nat lid \<in> registered s" using assms(3) by (simp_all add: id_known_def)
  then show ?thesis using hook [of s "nat lid"] assms(1) by (simp add: ensure_registered_def)
qed

lemma will_lock_result:
  assumes "lockdep_inv s" "c_str name = name" "id_known s lid"
  shows "id_result s (Will_lock t bt name lid) (lockdep_will_lock t bt name lid s)"
  unfolding lockdep_will_lock_def
proof (rule ensured [OF assms])
  fix k s1 assume s1: "lockdep_inv s1" "k \<in> registered s1"
  have "lockdep_will_lock t bt name (int k) s1 =
      bind (will_lock_loop (nat (int k)) bt (held_locks s1 t) s1) (\<lambda>_ s2. Ret (int k) s2)"
    by (simp add: will_lock_eq)
  moreover have "id_result s (Will_lock t bt name lid) (lockdep_will_lock t bt name (int k) s1)"
    using will_lock_correct [OF s1, of t bt name] registered_small [OF s1] by (auto split: if_splits)
  ultimately show "id_result s (Will_lock t bt name lid)
      (bind (will_lock_loop (nat (int k)) bt (held_locks s1 t) s1) (\<lambda>_ s2. Ret (int k) s2))"
    by simp
qed

lemma locked_result:
  assumes "lockdep_inv s" "c_str name = name" "id_known s lid"
  shows "id_result s c (lockdep_locked t bt name lid s)"
  unfolding lockdep_locked_def
proof (rule ensured [OF assms])
  fix k s1 assume s1: "lockdep_inv s1" "k \<in> registered s1"
  then show "id_result s c (Ret (int k)
      (s1\<lparr>held_locks := (held_locks s1)(t := smap_put (nat (int k)) bt (held_locks s1 t))\<rparr>))"
    using locked_inv [OF s1(1), of "int k" t bt] registered_small [OF s1] by (simp add: set_held_def)
qed

lemma will_unlock_result:
  assumes "lockdep_inv s" "id_known s lid"
  shows "id_result s c (lockdep_will_unlock t name lid s)"
proof (cases "lid = -1")
  case False
  then have "0 \<le> lid" "nat lid \<in> registered s" using assms(2) by (simp_all add: id_known_def)
  moreover from this have "lid < int MAX_LOCKS" using registered_small [OF assms(1)] by fastforce
  ultimately show ?thesis
    using will_unlock_registered [of lid t name s] will_unlock_inv [OF assms(1), of t "nat lid"] by simp
qed (use assms(1) in \<open>simp add: lockdep_will_unlock_def assert_that_def\<close>)

lemma unregister_result:
  assumes "lockdep_inv s" "id_known s lid" "\<forall>t. nat lid \<notin> smap_keys (held_locks s t)"
  shows "id_result s c (bind (lockdep_unregister lid s) (\<lambda>_ s. Ret lid s))"
proof (cases "lid = -1")
  case False
  then have lid: "0 \<le> lid" "nat lid \<in> registered s" using assms(2) by (simp_all add: id_known_def)
  then have small: "lid < int MAX_LOCKS" using registered_small [OF assms(1)] by fastforce
  obtain r where r: "lock_ref s (nat lid) = Some r" "1 \<le> r"
    using assms(1) lid(2) unfolding lockdep_inv_def refs_inv_def by blast
  have "\<exists>s'. lockdep_unregister lid s = Ret () s' \<and> lockdep_inv s'"
  proof (cases "r = 1")
    case True
    then show ?thesis using unregister_last [OF assms(1) lid(2) _ assms(3)] r(1) lid(1) by auto
  next
    case False
    then show ?thesis using unregister_shared [OF assms(1) r(1)] r(2) lid(1) by auto
  qed
  then show ?thesis using lid(1) small by auto
qed (use assms(1) in \<open>simp add: lockdep_unregister_def\<close>)

lemma ld_do_result:
  assumes "lockdep_inv s" "ld_allowed s c"
  shows "id_result s c (ld_do c s)"
proof (cases c)
  case (Register name)
  then have "c_str name = name" using assms(2) by simp
  from assms(1) this show ?thesis
  proof (cases rule: register_outcome)
    case (new k s')
    then show ?thesis using Register registered_small [of s' k] by simp
  next
    case full
    then show ?thesis using Register init_bitmap_inv [OF assms(1)] by auto
  qed
qed (use assms will_lock_result locked_result will_unlock_result unregister_result in simp_all)

lemma ld_reach_inv: "ld_reach s \<Longrightarrow> lockdep_inv s"
proof (induction rule: ld_reach.induct)
  case (returned s c i s')
  then show ?case using ld_do_result [of s c] by simp
next
  case (thrown s c e s')
  then show ?case using ld_do_result [of s c] by simp
qed (rule lockdep_init_inv)

text \<open>
  C31: No call of the checker goes wrong. After any sequence of calls with known identifiers,
  starting from the initial variables, the invariant holds, and the next call returns an
  identifier that is \<open>-1\<close> or below \<open>MAX_LOCKS\<close>, or throws because all identifiers are in use,
  or, if it announces a lock, ends the process with a report; it never indexes one of the
  arrays out of range and never recurses without end, and it leaves the invariant intact.
\<close>
theorem checker_well_behaved:
  assumes "ld_reach s" "ld_allowed s c"
  shows "lockdep_inv s \<and> (\<forall>k \<in> registered s. k < MAX_LOCKS) \<and>
    (case ld_do c s of
       Ret i s' \<Rightarrow> lockdep_inv s' \<and> -1 \<le> i \<and> i < int MAX_LOCKS
     | Throw e s' \<Rightarrow> lockdep_inv s' \<and> registered s = {..<MAX_LOCKS} \<and> (\<exists>n. e = register_failed n)
     | Abort \<Rightarrow> \<exists>t bt n lid. c = Will_lock t bt n lid
     | _ \<Rightarrow> False)"
proof -
  have inv: "lockdep_inv s" by (rule ld_reach_inv [OF assms(1)])
  show ?thesis
    using ld_do_result [OF inv assms(2)] inv registered_small [OF inv] by (auto split: outcome.splits)
qed

theorem checker_well_behaved_witness:
  "ld_reach ld_two \<and> lockdep_inv ld_two \<and>
   (\<exists>s'. ld_do (Locked 7 bt_demo ''mutex0'' 0) ld_two = Ret 0 s' \<and> lockdep_inv s')"
proof -
  have names: "c_str ''mutex0'' = ''mutex0''" "c_str ''mutex1'' = ''mutex1''" by (simp_all add: c_str_def)
  have "ld_reach ld_one"
    by (rule ld_reach.returned [OF ld_reach.start, of "Register ''mutex0''" 0]) (simp_all add: names ld_one_run)
  then have r: "ld_reach ld_two"
    by (rule ld_reach.returned [of _ "Register ''mutex1''" 1]) (simp_all add: names ld_two_run)
  have "ld_allowed ld_two (Locked 7 bt_demo ''mutex0'' 0)" by (simp add: names id_known_def)
  from checker_well_behaved [OF r this] r show ?thesis by (simp add: ld_held_run)
qed

end
