(* ===== verification/Pthread.thy ===== *)
theory Pthread
  imports Prelude
begin

text \<open>
  The POSIX synchronization objects the sources call, as POSIX documents them: mutexes of
  type \<^verbatim>\<open>PTHREAD_MUTEX_ERRORCHECK\<close> and \<^verbatim>\<open>PTHREAD_MUTEX_RECURSIVE\<close>, and read-write locks.
  A call that would wait returns \<open>None\<close>; otherwise it returns the error number and the new
  object. Error numbers that POSIX reserves for invalid or inconsistent objects do not occur
  here; the sources' branches for them are definitions over an arbitrary error number. The interface \<open>lockable\<close> is the part of the C++ BasicLockable contract that
  \<^verbatim>\<open>std::lock_guard\<close> and \<^verbatim>\<open>std::unique_lock\<close> build on.
\<close>

section \<open>Mutexes\<close>

datatype mutex_kind = ERRORCHECK | RECURSIVE

record pmutex =
  pm_kind :: mutex_kind
  pm_owner :: "tid option"
  pm_count :: nat

definition max_recursion :: nat where
  "max_recursion = 2 ^ 32 - 1"

definition pthread_mutex_init :: "mutex_kind \<Rightarrow> pmutex" where
  "pthread_mutex_init k = \<lparr>pm_kind = k, pm_owner = None, pm_count = 0\<rparr>"

definition pm_take :: "tid \<Rightarrow> pmutex \<Rightarrow> pmutex" where
  "pm_take t m = m\<lparr>pm_owner := Some t, pm_count := 1\<rparr>"

definition pm_again :: "pmutex \<Rightarrow> errno \<times> pmutex" where
  "pm_again m =
     (if pm_count m < max_recursion then (0, m\<lparr>pm_count := pm_count m + 1\<rparr>) else (EAGAIN, m))"

definition pthread_mutex_trylock :: "tid \<Rightarrow> pmutex \<Rightarrow> errno \<times> pmutex" where
  "pthread_mutex_trylock t m =
     (case pm_owner m of
        None \<Rightarrow> (0, pm_take t m)
      | Some u \<Rightarrow> if u = t \<and> pm_kind m = RECURSIVE then pm_again m else (EBUSY, m))"

definition pthread_mutex_lock :: "tid \<Rightarrow> pmutex \<Rightarrow> (errno \<times> pmutex) option" where
  "pthread_mutex_lock t m =
     (case pm_owner m of
        None \<Rightarrow> Some (0, pm_take t m)
      | Some u \<Rightarrow>
          if u = t then
            (case pm_kind m of
               RECURSIVE \<Rightarrow> Some (pm_again m)
             | ERRORCHECK \<Rightarrow> Some (EDEADLK, m))
          else None)"

definition pthread_mutex_unlock :: "tid \<Rightarrow> pmutex \<Rightarrow> errno \<times> pmutex" where
  "pthread_mutex_unlock t m =
     (if pm_owner m = Some t then
        (0, if pm_count m \<le> 1 then m\<lparr>pm_owner := None, pm_count := 0\<rparr>
            else m\<lparr>pm_count := pm_count m - 1\<rparr>)
      else (EPERM, m))"

definition pthread_mutex_destroy :: "pmutex \<Rightarrow> errno" where
  "pthread_mutex_destroy m = (if pm_owner m = None then 0 else EBUSY)"

section \<open>Read-write locks\<close>

text \<open>
  A writer that has to wait is recorded; a lock initialised with
  \<^verbatim>\<open>PTHREAD_RWLOCK_PREFER_WRITER_NONRECURSIVE_NP\<close> admits no further reader while a writer
  waits. A blocking call returns \<open>None\<close> instead of an error number.
\<close>

record prwlock =
  rw_writer :: "tid option"
  rw_readers :: "tid list"
  rw_waiting :: "tid list"
  rw_prefer_writer :: bool

definition pthread_rwlock_init :: "bool \<Rightarrow> prwlock" where
  "pthread_rwlock_init pw =
     \<lparr>rw_writer = None, rw_readers = [], rw_waiting = [], rw_prefer_writer = pw\<rparr>"

definition pthread_rwlock_wrlock :: "tid \<Rightarrow> prwlock \<Rightarrow> errno option \<times> prwlock" where
  "pthread_rwlock_wrlock t l =
     (if rw_writer l = Some t then (Some EDEADLK, l)
      else if rw_writer l = None \<and> rw_readers l = [] then
        (Some 0, l\<lparr>rw_writer := Some t, rw_waiting := remove1 t (rw_waiting l)\<rparr>)
      else (None, l\<lparr>rw_waiting := List.insert t (rw_waiting l)\<rparr>))"

definition pthread_rwlock_rdlock :: "tid \<Rightarrow> prwlock \<Rightarrow> errno option \<times> prwlock" where
  "pthread_rwlock_rdlock t l =
     (if rw_writer l = Some t then (Some EDEADLK, l)
      else if rw_writer l = None \<and> (rw_prefer_writer l \<longrightarrow> rw_waiting l = []) then
        (Some 0, l\<lparr>rw_readers := t # rw_readers l\<rparr>)
      else (None, l))"

text \<open>Unlocking releases the caller's write lock or one of its read locks.\<close>

definition pthread_rwlock_unlock :: "tid \<Rightarrow> prwlock \<Rightarrow> errno \<times> prwlock" where
  "pthread_rwlock_unlock t l =
     (if rw_writer l = Some t then (0, l\<lparr>rw_writer := None\<rparr>)
      else if t \<in> set (rw_readers l) then (0, l\<lparr>rw_readers := remove1 t (rw_readers l)\<rparr>)
      else (EPERM, l))"

section \<open>Scoped locking\<close>

text \<open>
  \<^verbatim>\<open>std::lock_guard\<close> around a body: the destructor unlocks on a normal return and on an
  exception alike.
\<close>

definition lock_guard ::
  "(tid \<Rightarrow> 's \<Rightarrow> (unit, 's) outcome) \<Rightarrow> (tid \<Rightarrow> 's \<Rightarrow> (unit, 's) outcome) \<Rightarrow>
   tid \<Rightarrow> ('s \<Rightarrow> ('a, 's) outcome) \<Rightarrow> 's \<Rightarrow> ('a, 's) outcome" where
  "lock_guard lock unlock t body s =
     bind (lock t s) (\<lambda>_ s1.
       case body s1 of
         Ret a s2 \<Rightarrow> bind (unlock t s2) (\<lambda>_ s3. Ret a s3)
       | Throw e s2 \<Rightarrow> bind (unlock t s2) (\<lambda>_ s3. Throw e s3)
       | other \<Rightarrow> other)"

locale lockable =
  fixes lock :: "tid \<Rightarrow> 's \<Rightarrow> (unit, 's) outcome"
    and unlock :: "tid \<Rightarrow> 's \<Rightarrow> (unit, 's) outcome"
    and holder :: "'s \<Rightarrow> tid option"
    and inv :: "'s \<Rightarrow> bool"
  assumes lock_free: "inv s \<Longrightarrow> holder s = None \<Longrightarrow>
      \<exists>s'. lock t s = Ret () s' \<and> holder s' = Some t \<and> inv s'"
    and lock_busy: "inv s \<Longrightarrow> holder s = Some u \<Longrightarrow> u \<noteq> t \<Longrightarrow> \<exists>s'. lock t s = Block s'"
    and lock_self: "inv s \<Longrightarrow> holder s = Some t \<Longrightarrow>
      \<exists>s'. lock t s = Throw (System_error EDEADLK) s'"
    and unlock_own: "inv s \<Longrightarrow> holder s = Some t \<Longrightarrow>
      \<exists>s'. unlock t s = Ret () s' \<and> holder s' = None \<and> inv s'"
begin

lemma lock_Ret_iff: "inv s \<Longrightarrow> (\<exists>s'. lock t s = Ret () s') \<longleftrightarrow> holder s = None"
  using lock_free lock_busy lock_self by (cases "holder s") (metis outcome.distinct)+

lemma lock_unlock:
  assumes "inv s" "lock t s = Ret () s'"
  shows "holder s' = Some t \<and> inv s' \<and>
    (\<exists>s''. unlock t s' = Ret () s'' \<and> holder s'' = None \<and> inv s'')"
proof -
  have "holder s = None" using assms lock_Ret_iff by blast
  then obtain s1 where "lock t s = Ret () s1" "holder s1 = Some t" "inv s1"
    using lock_free [OF assms(1)] by blast
  then have "holder s' = Some t" "inv s'" using assms(2) by simp_all
  then show ?thesis using unlock_own by blast
qed

text \<open>
  A guarded body that keeps the lock's holder and invariant ends with the lock free again,
  whether it returns or throws; the body runs only while the lock is held.
\<close>

lemma lock_guard_releases:
  assumes "inv s" "holder s = None"
    and body: "\<And>s1. inv s1 \<Longrightarrow> holder s1 = Some t \<Longrightarrow>
      (\<exists>a s2. body s1 = Ret a s2 \<and> inv s2 \<and> holder s2 = Some t) \<or>
      (\<exists>e s2. body s1 = Throw e s2 \<and> inv s2 \<and> holder s2 = Some t)"
  shows "(\<exists>a s'. lock_guard lock unlock t body s = Ret a s' \<and> inv s' \<and> holder s' = None) \<or>
    (\<exists>e s'. lock_guard lock unlock t body s = Throw e s' \<and> inv s' \<and> holder s' = None)"
proof -
  obtain s1 where s1: "lock t s = Ret () s1" "holder s1 = Some t" "inv s1"
    using lock_free [OF assms(1,2)] by blast
  consider (ret) a s2 where "body s1 = Ret a s2" "inv s2" "holder s2 = Some t"
    | (throw) e s2 where "body s1 = Throw e s2" "inv s2" "holder s2 = Some t"
    using body [OF s1(3,2)] by blast
  then show ?thesis
  proof cases
    case ret
    then show ?thesis using unlock_own [OF ret(2,3)] s1 by (auto simp: lock_guard_def)
  next
    case throw
    then show ?thesis using unlock_own [OF throw(2,3)] s1 by (auto simp: lock_guard_def)
  qed
qed

end

end
