(* ===== verification/Mutex.thy ===== *)
theory Mutex
  imports Lockdep_Ops Pthread
begin

text \<open>
  \<^verbatim>\<open>synchronization/mutex.h\<close> and \<^verbatim>\<open>mutex.cc\<close>: \<^verbatim>\<open>mutex_debug_base\<close> and
  \<^verbatim>\<open>mutex_debug_impl\<close> (\<^verbatim>\<open>BlueMutex\<close>). An object is the record \<open>mutex_debug\<close>; a method runs
  on the object together with the lock-order checker's state. The calling thread is the
  argument \<open>t\<close>, the call stack captured by a hook the argument \<open>bt\<close>. \<^verbatim>\<open>lock()\<close> that has to
  wait ends in \<open>Block\<close>; the thread continues with \<open>lock_wait\<close> once the mutex is free.
\<close>

section \<open>\<^verbatim>\<open>mutex_debug_base\<close>\<close>

record mutex_base =
  lock_name :: string
  m_id :: int
  lockdep :: bool
  locked_count :: int
  locked_by :: "tid option"

record mutex_debug = mutex_base +
  pm :: pmutex

record 'm mworld =
  ld :: lockdep_state
  mu :: 'm

definition call_lockdep ::
  "(lockdep_state \<Rightarrow> ('a, lockdep_state) outcome) \<Rightarrow> 'm mworld \<Rightarrow> ('a, 'm mworld) outcome" where
  "call_lockdep f s = lift_state (\<lambda>l. s\<lparr>ld := l\<rparr>) (f (ld s))"

definition set_id ::
  "(int, ('z mutex_base_scheme) mworld) outcome \<Rightarrow> (unit, ('z mutex_base_scheme) mworld) outcome"
where
  "set_id r = bind r (\<lambda>i s. Ret () (s\<lparr>mu := (mu s)\<lparr>m_id := i\<rparr>\<rparr>))"

definition base_register ::
  "('z mutex_base_scheme) mworld \<Rightarrow> (unit, ('z mutex_base_scheme) mworld) outcome" where
  "base_register s = set_id (call_lockdep (lockdep_register (lock_name (mu s))) s)"

definition base_unregister ::
  "('z mutex_base_scheme) mworld \<Rightarrow> (unit, ('z mutex_base_scheme) mworld) outcome" where
  "base_unregister s = call_lockdep (lockdep_unregister (m_id (mu s))) s"

definition base_will_lock ::
  "tid \<Rightarrow> BackTrace \<Rightarrow> ('z mutex_base_scheme) mworld \<Rightarrow> (unit, ('z mutex_base_scheme) mworld) outcome"
where
  "base_will_lock t bt s =
     set_id (call_lockdep (lockdep_will_lock t bt (lock_name (mu s)) (m_id (mu s))) s)"

definition base_locked ::
  "tid \<Rightarrow> BackTrace \<Rightarrow> ('z mutex_base_scheme) mworld \<Rightarrow> (unit, ('z mutex_base_scheme) mworld) outcome"
where
  "base_locked t bt s =
     set_id (call_lockdep (lockdep_locked t bt (lock_name (mu s)) (m_id (mu s))) s)"

definition base_will_unlock ::
  "tid \<Rightarrow> ('z mutex_base_scheme) mworld \<Rightarrow> (unit, ('z mutex_base_scheme) mworld) outcome" where
  "base_will_unlock t s =
     set_id (call_lockdep (lockdep_will_unlock t (lock_name (mu s)) (m_id (mu s))) s)"

definition is_locked :: "'z mutex_base_scheme \<Rightarrow> bool" where
  "is_locked m = (0 < locked_count m)"

definition is_locked_by_me :: "tid \<Rightarrow> 'z mutex_base_scheme \<Rightarrow> bool" where
  "is_locked_by_me t m = (0 < locked_count m \<and> locked_by m = Some t)"

text \<open>The base constructor, given the members it initialises, and the base destructor.\<close>

definition base_ctor ::
  "('z mutex_base_scheme) mworld \<Rightarrow> (unit, ('z mutex_base_scheme) mworld) outcome" where
  "base_ctor s = (if lockdep (mu s) then base_register s else Ret () s)"

definition base_dtor ::
  "('z mutex_base_scheme) mworld \<Rightarrow> (unit, ('z mutex_base_scheme) mworld) outcome" where
  "base_dtor s =
     bind (assert_that (locked_count (mu s) = 0) s) (\<lambda>_ s.
     if lockdep (mu s) then base_unregister s else Ret () s)"

section \<open>\<^verbatim>\<open>mutex_debug_impl\<close>\<close>

type_synonym mstate = "mutex_debug mworld"

definition new_mutex :: "string \<Rightarrow> bool \<Rightarrow> mutex_debug" where
  "new_mutex name dep =
     \<lparr>lock_name = name, m_id = -1, lockdep = dep, locked_count = 0, locked_by = None,
      pm = pthread_mutex_init ERRORCHECK\<rparr>"

definition mutex_ctor :: "string \<Rightarrow> bool \<Rightarrow> lockdep_state \<Rightarrow> (unit, mstate) outcome" where
  "mutex_ctor name dep l = base_ctor \<lparr>ld = l, mu = new_mutex name dep\<rparr>"

definition mutex_dtor :: "mstate \<Rightarrow> (unit, mstate) outcome" where
  "mutex_dtor s =
     bind (assert_that (pthread_mutex_destroy (pm (mu s)) = 0) s) (\<lambda>_ s. base_dtor s)"

definition set_pm :: "pmutex \<Rightarrow> mstate \<Rightarrow> mstate" where
  "set_pm p s = s\<lparr>mu := (mu s)\<lparr>pm := p\<rparr>\<rparr>"

text \<open>What \<^verbatim>\<open>lock_impl\<close> and \<^verbatim>\<open>try_lock_impl\<close> do with the return code, whatever it is.\<close>

definition lock_impl_result :: "errno \<Rightarrow> mstate \<Rightarrow> (unit, mstate) outcome" where
  "lock_impl_result r s =
     (if r = EPERM \<or> r = EDEADLK \<or> r = EBUSY then Throw (System_error r) s
      else assert_that (r = 0) s)"

definition lock_impl :: "tid \<Rightarrow> mstate \<Rightarrow> (unit, mstate) outcome" where
  "lock_impl t s =
     (case pthread_mutex_lock t (pm (mu s)) of
        None \<Rightarrow> Block s
      | Some (r, p) \<Rightarrow> lock_impl_result r (set_pm p s))"

definition unlock_impl :: "tid \<Rightarrow> mstate \<Rightarrow> (unit, mstate) outcome" where
  "unlock_impl t s =
     (case pthread_mutex_unlock t (pm (mu s)) of (r, p) \<Rightarrow> assert_that (r = 0) (set_pm p s))"

definition try_lock_impl_result :: "errno \<Rightarrow> mstate \<Rightarrow> (bool, mstate) outcome" where
  "try_lock_impl_result r s =
     (if r = 0 then Ret True s else if r = EBUSY then Ret False s else Throw (System_error r) s)"

definition try_lock_impl :: "tid \<Rightarrow> mstate \<Rightarrow> (bool, mstate) outcome" where
  "try_lock_impl t s =
     (case pthread_mutex_trylock t (pm (mu s)) of (r, p) \<Rightarrow> try_lock_impl_result r (set_pm p s))"

definition post_lock :: "tid \<Rightarrow> mstate \<Rightarrow> (unit, mstate) outcome" where
  "post_lock t s =
     bind (assert_that (locked_count (mu s) = 0) s) (\<lambda>_ s.
     Ret () (s\<lparr>mu := (mu s)\<lparr>locked_by := Some t, locked_count := locked_count (mu s) + 1\<rparr>\<rparr>))"

definition pre_unlock :: "tid \<Rightarrow> mstate \<Rightarrow> (unit, mstate) outcome" where
  "pre_unlock t s =
     bind (assert_that (locked_count (mu s) = 1) s) (\<lambda>_ s.
     let m = (if locked_count (mu s) = 1 then (mu s)\<lparr>locked_by := Some t\<rparr> else mu s)
     in Ret () (s\<lparr>mu := m\<lparr>locked_count := locked_count m - 1\<rparr>\<rparr>))"

text \<open>\<^verbatim>\<open>if (lockdep) hook();\<close>\<close>

definition when_lockdep ::
  "('z mutex_base_scheme mworld \<Rightarrow> (unit, 'z mutex_base_scheme mworld) outcome) \<Rightarrow>
   'z mutex_base_scheme mworld \<Rightarrow> (unit, 'z mutex_base_scheme mworld) outcome" where
  "when_lockdep hook s = (if lockdep (mu s) then hook s else Ret () s)"

definition mutex_try_lock :: "tid \<Rightarrow> BackTrace \<Rightarrow> mstate \<Rightarrow> (bool, mstate) outcome" where
  "mutex_try_lock t bt s =
     bind (try_lock_impl t s) (\<lambda>locked s.
     if locked then
       bind (when_lockdep (base_locked t bt) s) (\<lambda>_ s.
       bind (post_lock t s) (\<lambda>_ s.
       Ret True s))
     else Ret False s)"

definition lock_wait :: "tid \<Rightarrow> BackTrace \<Rightarrow> mstate \<Rightarrow> (unit, mstate) outcome" where
  "lock_wait t bt s =
     bind (lock_impl t s) (\<lambda>_ s.
     bind (when_lockdep (base_locked t bt) s) (\<lambda>_ s.
     post_lock t s))"

definition mutex_lock :: "tid \<Rightarrow> BackTrace \<Rightarrow> mstate \<Rightarrow> (unit, mstate) outcome" where
  "mutex_lock t bt s =
     bind (when_lockdep (base_will_lock t bt) s) (\<lambda>_ s.
     bind (mutex_try_lock t bt s) (\<lambda>locked s.
     if locked then Ret () s else lock_wait t bt s))"

definition mutex_unlock :: "tid \<Rightarrow> mstate \<Rightarrow> (unit, mstate) outcome" where
  "mutex_unlock t s =
     bind (pre_unlock t s) (\<lambda>_ s.
     bind (when_lockdep (base_will_unlock t) s) (\<lambda>_ s.
     unlock_impl t s))"

section \<open>The object invariant between calls\<close>

text \<open>
  Between calls the owner kept by the library's mutex, the counter and the recorded thread
  agree.
\<close>

definition mutex_inv :: "mutex_debug \<Rightarrow> bool" where
  "mutex_inv m \<longleftrightarrow> pm_kind (pm m) = ERRORCHECK \<and>
     (case pm_owner (pm m) of
        None \<Rightarrow> locked_count m = 0
      | Some t \<Rightarrow> locked_count m = 1 \<and> locked_by m = Some t \<and> pm_count (pm m) = 1)"

definition owner :: "mstate \<Rightarrow> tid option" where
  "owner s = pm_owner (pm (mu s))"

lemmas mutex_defs =
  mutex_lock_def mutex_unlock_def mutex_try_lock_def lock_wait_def lock_impl_def unlock_impl_def
  try_lock_impl_def lock_impl_result_def try_lock_impl_result_def post_lock_def pre_unlock_def
  when_lockdep_def set_pm_def pm_take_def assert_that_def
  pthread_mutex_trylock_def pthread_mutex_lock_def pthread_mutex_unlock_def

lemma mutex_inv_is_locked:
  "mutex_inv m \<Longrightarrow> is_locked m \<longleftrightarrow> pm_owner (pm m) \<noteq> None"
  "mutex_inv m \<Longrightarrow> is_locked_by_me t m \<longleftrightarrow> pm_owner (pm m) = Some t"
  by (auto simp: mutex_inv_def is_locked_def is_locked_by_me_def split: option.splits)

text \<open>Without the checker, \<^verbatim>\<open>BlueMutex\<close> meets the scoped-locking contract.\<close>

definition plain_inv :: "mstate \<Rightarrow> bool" where
  "plain_inv s \<longleftrightarrow> mutex_inv (mu s) \<and> \<not> lockdep (mu s)"

interpretation blue: lockable "\<lambda>t. mutex_lock t bt" mutex_unlock owner plain_inv for bt
proof unfold_locales
  fix s :: mstate and t u
  assume inv: "plain_inv s"
  show "\<exists>s'. mutex_lock t bt s = Ret () s' \<and> owner s' = Some t \<and> plain_inv s'" if "owner s = None"
    using inv that by (simp add: plain_inv_def mutex_inv_def owner_def mutex_defs)
  show "\<exists>s'. mutex_lock t bt s = Block s'" if "owner s = Some u" "u \<noteq> t"
    using inv that by (simp add: plain_inv_def mutex_inv_def owner_def mutex_defs)
  show "\<exists>s'. mutex_lock t bt s = Throw (System_error EDEADLK) s'" if "owner s = Some t"
    using inv that by (simp add: plain_inv_def mutex_inv_def owner_def mutex_defs)
  show "\<exists>s'. mutex_unlock t s = Ret () s' \<and> owner s' = None \<and> plain_inv s'" if "owner s = Some t"
    using inv that by (simp add: plain_inv_def mutex_inv_def owner_def mutex_defs)
qed

section \<open>The object together with the checker\<close>

text \<open>
  With the checker on, the identifier is registered under the mutex's name, and a thread is
  recorded as holding it exactly while it owns the mutex.
\<close>

definition dep_inv :: "mstate \<Rightarrow> bool" where
  "dep_inv s \<longleftrightarrow> mutex_inv (mu s) \<and> lockdep (mu s) \<and> lockdep_inv (ld s) \<and> 0 \<le> m_id (mu s) \<and>
     id_to_name_map (ld s) (nat (m_id (mu s))) = Some (lock_name (mu s)) \<and>
     (\<forall>t. nat (m_id (mu s)) \<in> smap_keys (held_locks (ld s) t) \<longleftrightarrow> owner s = Some t)"

lemma dep_inv_registered: "dep_inv s \<Longrightarrow> nat (m_id (mu s)) \<in> registered (ld s)"
  by (auto simp: dep_inv_def registered_def)

lemma set_id_same:
  "m_id (mu s) = i \<Longrightarrow> set_id (Ret i s) = Ret () s"
  by (simp add: set_id_def)

lemma base_will_lock_correct:
  assumes "lockdep_inv (ld s)" "0 \<le> m_id (mu s)" "nat (m_id (mu s)) \<in> registered (ld s)"
  shows "if will_lock_refused (ld s) (nat (m_id (mu s))) (smap_keys (held_locks (ld s) t))
    then base_will_lock t bt s = Abort
    else \<exists>l. base_will_lock t bt s = Ret () (s\<lparr>ld := l\<rparr>) \<and> lockdep_inv l \<and>
      follows l = follows (ld s) \<union> smap_keys (held_locks (ld s) t) \<times> {nat (m_id (mu s))} \<and>
      only_tree_changed (ld s) l"
proof -
  have i: "int (nat (m_id (mu s))) = m_id (mu s)" using assms(2) by simp
  show ?thesis
    using will_lock_correct [OF assms(1,3), of t bt "lock_name (mu s)"] assms(2)
    by (auto simp: i base_will_lock_def call_lockdep_def set_id_def split: if_splits)
qed

lemma base_locked_eq:
  assumes "0 \<le> m_id (mu s)"
  shows "base_locked t bt s = Ret () (s\<lparr>ld := set_held t
    (smap_put (nat (m_id (mu s))) bt (held_locks (ld s) t)) (ld s)\<rparr>)"
  using assms by (simp add: base_locked_def call_lockdep_def locked_registered set_id_def)

lemma base_will_unlock_eq:
  assumes "0 \<le> m_id (mu s)"
  shows "base_will_unlock t s = Ret () (s\<lparr>ld := set_held t
    (smap_erase (nat (m_id (mu s))) (held_locks (ld s) t)) (ld s)\<rparr>)"
  using assms by (simp add: base_will_unlock_def call_lockdep_def will_unlock_registered set_id_def)

lemma set_held_fields [simp]:
  "held_locks (set_held t hs l) u = (if u = t then hs else held_locks l u)"
  "id_to_name_map (set_held t hs l) = id_to_name_map l"
  "registered (set_held t hs l) = registered l"
  "follows (set_held t hs l) = follows l"
  by (simp_all add: set_held_def)

text \<open>Taking a free mutex after the announcement: owner, counter and held lock together.\<close>

lemma acquire_dep:
  assumes "dep_inv s" "owner s = None"
  shows "\<exists>s'. mutex_try_lock t bt s = Ret True s' \<and> dep_inv s' \<and> owner s' = Some t \<and>
    smap_keys (held_locks (ld s') t) = insert (nat (m_id (mu s))) (smap_keys (held_locks (ld s) t)) \<and>
    follows (ld s') = follows (ld s)"
proof -
  let ?k = "nat (m_id (mu s))"
  let ?l = "set_held t (smap_put ?k bt (held_locks (ld s) t)) (ld s)"
  let ?m = "(mu s)\<lparr>pm := pm_take t (pm (mu s)), locked_by := Some t, locked_count := 1\<rparr>"
  have z: "locked_count (mu s) = 0" "lockdep (mu s)" "0 \<le> m_id (mu s)"
    using assms by (auto simp: dep_inv_def mutex_inv_def owner_def)
  then have "mutex_try_lock t bt s = Ret True (s\<lparr>ld := ?l, mu := ?m\<rparr>)"
    using assms(2)
    by (simp add: mutex_try_lock_def try_lock_impl_def try_lock_impl_result_def owner_def set_pm_def
        pthread_mutex_trylock_def when_lockdep_def base_locked_eq post_lock_def assert_that_def)
  moreover have "dep_inv (s\<lparr>ld := ?l, mu := ?m\<rparr>)"
    using assms locked_inv [of "ld s" "m_id (mu s)" t bt] dep_inv_registered [OF assms(1)]
    by (auto simp: dep_inv_def mutex_inv_def owner_def pm_take_def)
  ultimately show ?thesis by (simp add: owner_def pm_take_def)
qed

lemma dep_inv_announced:
  assumes "dep_inv s" "lockdep_inv l" "only_tree_changed (ld s) l"
  shows "dep_inv (s\<lparr>ld := l\<rparr>)"
  using assms(1,2) only_tree_changed_frame [OF assms(3)] by (simp add: dep_inv_def owner_def)

lemma lock_wait_busy:
  assumes "owner s = Some u" "u \<noteq> t"
  shows "mutex_try_lock t bt s = Ret False s" "lock_wait t bt s = Block s"
  using assms by (simp_all add: owner_def mutex_defs)

text \<open>
  C27: \<^verbatim>\<open>BlueMutex::lock()\<close> with the checker on. The call ends the process exactly when the
  checker refuses the announcement; otherwise every held lock is recorded before this one,
  and the call takes the mutex at once when it is free (owner, counter and held locks agree
  afterwards) or waits without changing any of them when another thread owns it. A thread
  never waits for a mutex it owns.
\<close>
theorem mutex_lock_checked:
  fixes s :: mstate
  assumes "dep_inv s"
  shows "case mutex_lock t bt s of
      Abort \<Rightarrow> \<exists>h \<in> smap_keys (held_locks (ld s) t).
        h = nat (m_id (mu s)) \<or> (nat (m_id (mu s)), h) \<in> (follows (ld s))\<^sup>+
    | Ret _ s' \<Rightarrow> owner s = None \<and> owner s' = Some t \<and> dep_inv s' \<and>
        smap_keys (held_locks (ld s') t) =
          insert (nat (m_id (mu s))) (smap_keys (held_locks (ld s) t)) \<and>
        follows (ld s') = follows (ld s) \<union> smap_keys (held_locks (ld s) t) \<times> {nat (m_id (mu s))}
    | Block s' \<Rightarrow> (\<exists>u. owner s = Some u \<and> u \<noteq> t) \<and> mu s' = mu s \<and> dep_inv s' \<and>
        held_locks (ld s') = held_locks (ld s) \<and>
        follows (ld s') = follows (ld s) \<union> smap_keys (held_locks (ld s) t) \<times> {nat (m_id (mu s))}
    | Throw _ _ \<Rightarrow> False
    | Undef \<Rightarrow> False"
proof -
  let ?k = "nat (m_id (mu s))" and ?H = "smap_keys (held_locks (ld s) t)"
  have facts: "lockdep_inv (ld s)" "0 \<le> m_id (mu s)" "lockdep (mu s)"
    using assms by (auto simp: dep_inv_def)
  note wl = base_will_lock_correct [OF facts(1,2) dep_inv_registered [OF assms], of t bt]
  show ?thesis
  proof (cases "will_lock_refused (ld s) ?k ?H")
    case True
    then have "mutex_lock t bt s = Abort"
      using wl facts(3) by (simp add: mutex_lock_def when_lockdep_def)
    then show ?thesis using True by (simp add: will_lock_refused_def)
  next
    case False
    then obtain l where l: "base_will_lock t bt s = Ret () (s\<lparr>ld := l\<rparr>)" "lockdep_inv l"
      "follows l = follows (ld s) \<union> ?H \<times> {?k}" "only_tree_changed (ld s) l"
      using wl by auto
    let ?s = "s\<lparr>ld := l\<rparr>"
    have inv: "dep_inv ?s" by (rule dep_inv_announced [OF assms l(2,4)])
    have held: "held_locks l = held_locks (ld s)" by (rule only_tree_changed_frame(2) [OF l(4)])
    have run: "mutex_lock t bt s =
        bind (mutex_try_lock t bt ?s) (\<lambda>b s. if b then Ret () s else lock_wait t bt s)"
      using l(1) facts(3) by (simp add: mutex_lock_def when_lockdep_def)
    show ?thesis
    proof (cases "owner s")
      case None
      then have "owner ?s = None" by (simp add: owner_def)
      from acquire_dep [OF inv this, of t bt] show ?thesis
        using run l(3) held None by auto
    next
      case (Some u)
      have "u \<noteq> t"
        using False assms Some by (auto simp: will_lock_refused_def dep_inv_def)
      moreover have "owner ?s = Some u" using Some by (simp add: owner_def)
      ultimately show ?thesis
        using run lock_wait_busy [of ?s u t bt] l(3) held Some inv by simp
    qed
  qed
qed

definition mutex_demo :: mstate where
  "mutex_demo = \<lparr>ld = ld_two, mu = (new_mutex ''mutex0'' True)\<lparr>m_id := 0\<rparr>\<rparr>"

lemma mutex_demo_inv: "dep_inv mutex_demo"
  using ld_two_inv
  by (simp add: dep_inv_def mutex_demo_def new_mutex_def mutex_inv_def pthread_mutex_init_def
      owner_def) (simp add: ld_two_def)

theorem mutex_lock_checked_witness:
  "case mutex_lock 7 bt_demo mutex_demo of Ret _ s' \<Rightarrow> owner s' = Some 7 | _ \<Rightarrow> True"
  using mutex_lock_checked [OF mutex_demo_inv, of 7 bt_demo] by (auto split: outcome.splits)

text \<open>
  C28: \<^verbatim>\<open>BlueMutex::unlock()\<close> with the checker on. The owner's call frees the mutex and
  removes it from the locks recorded for the thread, and for no other; a call by any other
  thread ends the process.
\<close>
theorem mutex_unlock_checked:
  fixes s :: mstate
  assumes "dep_inv s"
  shows "if owner s = Some t
    then \<exists>s'. mutex_unlock t s = Ret () s' \<and> dep_inv s' \<and> owner s' = None \<and>
      smap_keys (held_locks (ld s') t) = smap_keys (held_locks (ld s) t) - {nat (m_id (mu s))} \<and>
      (\<forall>u. u \<noteq> t \<longrightarrow> held_locks (ld s') u = held_locks (ld s) u)
    else mutex_unlock t s = Abort"
proof (cases "owner s = Some t")
  case True
  let ?k = "nat (m_id (mu s))"
  let ?l = "set_held t (smap_erase ?k (held_locks (ld s) t)) (ld s)"
  let ?m = "(mu s)\<lparr>locked_by := Some t, locked_count := 0,
      pm := (pm (mu s))\<lparr>pm_owner := None, pm_count := 0\<rparr>\<rparr>"
  have z: "locked_count (mu s) = 1" "lockdep (mu s)" "0 \<le> m_id (mu s)" "pm_count (pm (mu s)) = 1"
    using assms True by (auto simp: dep_inv_def mutex_inv_def owner_def)
  then have "mutex_unlock t s = Ret () (s\<lparr>ld := ?l, mu := ?m\<rparr>)"
    using True
    by (simp add: mutex_unlock_def pre_unlock_def when_lockdep_def base_will_unlock_eq
        unlock_impl_def set_pm_def pthread_mutex_unlock_def owner_def assert_that_def)
  moreover have "dep_inv (s\<lparr>ld := ?l, mu := ?m\<rparr>)"
    using assms True will_unlock_inv [of "ld s" t ?k]
    by (auto simp: dep_inv_def mutex_inv_def owner_def)
  ultimately show ?thesis using True by (simp add: owner_def)
next
  case False
  have "mutex_unlock t s = Abort"
  proof (cases "owner s")
    case None
    then show ?thesis using assms by (simp add: dep_inv_def mutex_inv_def owner_def mutex_defs)
  next
    case (Some u)
    then have "locked_count (mu s) = 1" "lockdep (mu s)" "0 \<le> m_id (mu s)"
      using assms by (auto simp: dep_inv_def mutex_inv_def owner_def)
    then show ?thesis
      using False
      by (simp add: mutex_unlock_def pre_unlock_def when_lockdep_def base_will_unlock_eq
          unlock_impl_def set_pm_def pthread_mutex_unlock_def owner_def assert_that_def)
  qed
  then show ?thesis using False by simp
qed

theorem mutex_unlock_checked_witness:
  "mutex_unlock 7 mutex_demo = Abort"
  using mutex_unlock_checked [OF mutex_demo_inv, of 7]
  by (simp add: owner_def mutex_demo_def new_mutex_def pthread_mutex_init_def)

section \<open>Construction and destruction\<close>

lemma without_unregistered:
  assumes "tree_inv l" "k \<notin> registered l"
  shows "without_lock k (follows l) = follows l"
proof -
  have "follows l \<subseteq> registered l \<times> registered l" using assms(1) by (simp add: tree_inv_def)
  then show ?thesis using assms(2) unfolding without_lock_def by blast
qed

lemma mutex_ctor_fresh:
  assumes "lockdep_inv l" "c_str name = name" "name_to_id_map l name = None"
    "registered l \<noteq> {..<MAX_LOCKS}"
  shows "\<exists>s k. mutex_ctor name True l = Ret () s \<and> dep_inv s \<and> owner s = None \<and>
    mu s = (new_mutex name True)\<lparr>m_id := int k\<rparr> \<and> k \<notin> registered l \<and>
    registered (ld s) = insert k (registered l) \<and> same_but_registry l (ld s) \<and>
    lock_ref (ld s) k = Some 1"
proof -
  obtain k l' where r: "lockdep_register name l = Ret (int k) l'" "lockdep_inv l'"
    "k \<notin> registered l" "same_but_registry l l'"
    "id_to_name_map l' = (id_to_name_map l)(k \<mapsto> name)" "lock_ref l' = (lock_ref l)(k \<mapsto> 1)"
    using register_new [OF assms] by blast
  let ?s = "\<lparr>ld = l', mu = (new_mutex name True)\<lparr>m_id := int k\<rparr>\<rparr>"
  have "mutex_ctor name True l = Ret () ?s"
    using r(1) by (simp add: mutex_ctor_def base_ctor_def base_register_def call_lockdep_def
        set_id_def new_mutex_def)
  moreover have "k \<notin> smap_keys (held_locks l' t)" for t
    using assms(1) r(3,4) by (auto simp: lockdep_inv_def held_inv_def same_but_registry_def)
  then have "dep_inv ?s"
    using r(2,5) by (simp add: dep_inv_def mutex_inv_def new_mutex_def pthread_mutex_init_def owner_def)
  ultimately show ?thesis
    using r by (auto simp: owner_def new_mutex_def pthread_mutex_init_def registered_def)
qed

text \<open>
  C37: constructing a checked mutex under a new name and destroying it again. The constructor
  gives a free mutex that satisfies the object's invariant, the destructor returns, and the
  checker is left with the same registered locks, the same dependencies and the same held
  locks as before.
\<close>
theorem mutex_ctor_dtor_roundtrip:
  assumes "lockdep_inv l" "c_str name = name" "name_to_id_map l name = None"
    "registered l \<noteq> {..<MAX_LOCKS}"
  shows "\<exists>s s'. mutex_ctor name True l = Ret () s \<and> dep_inv s \<and> owner s = None \<and>
    mutex_dtor s = Ret () s' \<and> lockdep_inv (ld s') \<and> registered (ld s') = registered l \<and>
    follows (ld s') = follows l \<and> held_locks (ld s') = held_locks l"
proof -
  obtain s k where s: "mutex_ctor name True l = Ret () s" "dep_inv s" "owner s = None"
    "mu s = (new_mutex name True)\<lparr>m_id := int k\<rparr>" "k \<notin> registered l"
    "registered (ld s) = insert k (registered l)" "same_but_registry l (ld s)"
    "lock_ref (ld s) k = Some 1"
    using mutex_ctor_fresh [OF assms] by blast
  have inv: "lockdep_inv (ld s)" using s(2) by (simp add: dep_inv_def)
  have "\<forall>t. k \<notin> smap_keys (held_locks (ld s) t)"
    using s(2,3,4) by (simp add: dep_inv_def new_mutex_def)
  then obtain l' where l': "lockdep_unregister (int k) (ld s) = Ret () l'" "lockdep_inv l'"
    "registered l' = registered (ld s) - {k}" "follows l' = without_lock k (follows (ld s))"
    "held_locks l' = held_locks (ld s)"
    using unregister_last [OF inv _ s(8)] s(6) by auto
  have "mutex_dtor s = Ret () (s\<lparr>ld := l'\<rparr>)"
    using s(3,4) l'(1)
    by (simp add: mutex_dtor_def base_dtor_def base_unregister_def call_lockdep_def
        pthread_mutex_destroy_def new_mutex_def pthread_mutex_init_def assert_that_def)
  moreover have "follows (ld s) = follows l" "held_locks (ld s) = held_locks l"
    using s(7) same_but_registry_follows [OF s(7)] by (simp_all add: same_but_registry_def)
  moreover have "without_lock k (follows l) = follows l"
    using without_unregistered assms(1) s(5) by (simp add: lockdep_inv_def)
  ultimately show ?thesis using s l' by auto
qed

theorem mutex_ctor_dtor_roundtrip_witness:
  "\<exists>s s'. mutex_ctor ''test_mutex'' True ld_two = Ret () s \<and> mutex_dtor s = Ret () s' \<and>
     registered (ld s') = {0, 1}"
proof -
  have "2 \<notin> registered ld_two" "2 \<in> {..<MAX_LOCKS}" by (simp_all add: MAX_LOCKS_def)
  then have full: "registered ld_two \<noteq> {..<MAX_LOCKS}" by blast
  have "c_str ''test_mutex'' = ''test_mutex''" "name_to_id_map ld_two ''test_mutex'' = None"
    by (simp_all add: c_str_def)
  from mutex_ctor_dtor_roundtrip [OF ld_two_inv this full] show ?thesis by auto
qed

text \<open>
  destroying a mutex that is still locked ends the process, with and without the
  checker.
\<close>
theorem mutex_dtor_locked_aborts:
  assumes "mutex_inv (mu s)" "owner s \<noteq> None"
  shows "mutex_dtor s = Abort"
  using assms
  by (auto simp: mutex_dtor_def pthread_mutex_destroy_def owner_def assert_that_def)

theorem mutex_dtor_locked_aborts_witness:
  "mutex_dtor \<lparr>ld = lockdep_init, mu = (new_mutex ''m'' False)
     \<lparr>pm := pm_take 1 (pthread_mutex_init ERRORCHECK), locked_count := 1, locked_by := Some 1\<rparr>\<rparr>
   = Abort"
  by (rule mutex_dtor_locked_aborts)
    (simp_all add: mutex_inv_def owner_def pm_take_def pthread_mutex_init_def)

end
