(* ===== verification/Mutex_System.thy ===== *)
theory Mutex_System
  imports Mutex
begin

text \<open>
  Many threads on many checked mutexes, interleaved at the granularity of the source's
  atomic actions: \<^verbatim>\<open>lock()\<close>, \<^verbatim>\<open>try_lock()\<close> and \<^verbatim>\<open>unlock()\<close> are cut between the hooks of the
  checker (each a critical section of \<^verbatim>\<open>lockdep_mutex\<close>), the calls of the library's mutex
  and the updates of the counter. A step runs the definitions of the mutex theory. Shown
  for every reachable state: mutual exclusion, that no \<^verbatim>\<open>ASSERT\<close> of its methods and
  of its destructor fails, and
  that threads never wait for each other in a cycle.
\<close>

section \<open>Program points and steps\<close>

text \<open>
  \<open>Trying\<close>: announced, before \<^verbatim>\<open>pthread_mutex_trylock\<close>; \<open>Blocked\<close>: waiting in
  \<^verbatim>\<open>pthread_mutex_lock\<close>; \<open>Acquired\<close>: before the \<^verbatim>\<open>_locked()\<close> hook; \<open>Noted\<close>: before
  \<^verbatim>\<open>_post_lock()\<close>; \<open>Unlocking\<close>: after \<^verbatim>\<open>_pre_unlock()\<close>; \<open>Unnoted\<close>: after the
  \<^verbatim>\<open>_will_unlock()\<close> hook.
\<close>

datatype point =
    Idle
  | Trying nat
  | Blocked nat
  | Acquired nat
  | Noted nat
  | Unlocking nat
  | Unnoted nat

text \<open>
  \<open>s_cs t\<close> records the mutexes for which a lock call of thread \<open>t\<close> has returned and the
  thread has not called unlock yet.
\<close>

record msys =
  s_ld :: lockdep_state
  s_mx :: "nat \<Rightarrow> mutex_debug"
  s_pc :: "tid \<Rightarrow> point"
  s_cs :: "tid \<Rightarrow> nat set"

definition at :: "nat \<Rightarrow> msys \<Rightarrow> mstate" where
  "at a s = \<lparr>ld = s_ld s, mu = s_mx s a\<rparr>"

definition goto :: "tid \<Rightarrow> point \<Rightarrow> nat \<Rightarrow> mstate \<Rightarrow> msys \<Rightarrow> msys" where
  "goto t p a w s =
     s\<lparr>s_ld := ld w, s_mx := (s_mx s)(a := mu w), s_pc := (s_pc s)(t := p)\<rparr>"

text \<open>
  \<open>A\<close> is the set of mutexes. A thread calls \<^verbatim>\<open>unlock()\<close> only on a mutex it has locked.
\<close>

inductive mstep :: "nat set \<Rightarrow> msys \<Rightarrow> msys \<Rightarrow> bool" for A where
  announce: "s_pc s t = Idle \<Longrightarrow> a \<in> A \<Longrightarrow> base_will_lock t bt (at a s) = Ret () w \<Longrightarrow>
     mstep A s (goto t (Trying a) a w s)"
| try_ok: "s_pc s t = Trying a \<Longrightarrow> try_lock_impl t (at a s) = Ret True w \<Longrightarrow>
     mstep A s (goto t (Acquired a) a w s)"
| try_busy: "s_pc s t = Trying a \<Longrightarrow> try_lock_impl t (at a s) = Ret False w \<Longrightarrow>
     mstep A s (goto t (Blocked a) a w s)"
| wake: "s_pc s t = Blocked a \<Longrightarrow> lock_impl t (at a s) = Ret () w \<Longrightarrow>
     mstep A s (goto t (Acquired a) a w s)"
| try_alone: "s_pc s t = Idle \<Longrightarrow> a \<in> A \<Longrightarrow> try_lock_impl t (at a s) = Ret b w \<Longrightarrow>
     mstep A s (goto t (if b then Acquired a else Idle) a w s)"
| note_lock: "s_pc s t = Acquired a \<Longrightarrow> base_locked t bt (at a s) = Ret () w \<Longrightarrow>
     mstep A s (goto t (Noted a) a w s)"
| post: "s_pc s t = Noted a \<Longrightarrow> post_lock t (at a s) = Ret () w \<Longrightarrow>
     mstep A s ((goto t Idle a w s)\<lparr>s_cs := (s_cs s)(t := insert a (s_cs s t))\<rparr>)"
| unlock: "s_pc s t = Idle \<Longrightarrow> a \<in> s_cs s t \<Longrightarrow> pre_unlock t (at a s) = Ret () w \<Longrightarrow>
     mstep A s ((goto t (Unlocking a) a w s)\<lparr>s_cs := (s_cs s)(t := s_cs s t - {a})\<rparr>)"
| unnote: "s_pc s t = Unlocking a \<Longrightarrow> base_will_unlock t (at a s) = Ret () w \<Longrightarrow>
     mstep A s (goto t (Unnoted a) a w s)"
| release: "s_pc s t = Unnoted a \<Longrightarrow> unlock_impl t (at a s) = Ret () w \<Longrightarrow>
     mstep A s (goto t Idle a w s)"

definition key :: "msys \<Rightarrow> nat \<Rightarrow> nat" where
  "key s a = nat (m_id (s_mx s a))"

definition owner_of :: "msys \<Rightarrow> nat \<Rightarrow> tid option" where
  "owner_of s a = pm_owner (pm (s_mx s a))"

definition held_ids :: "msys \<Rightarrow> tid \<Rightarrow> nat set" where
  "held_ids s t = smap_keys (held_locks (s_ld s) t)"

text \<open>The start: registered mutexes under different names, all free, no thread busy.\<close>

definition msys_start :: "nat set \<Rightarrow> msys \<Rightarrow> bool" where
  "msys_start A s \<longleftrightarrow> lockdep_inv (s_ld s) \<and> inj_on (key s) A \<and>
     (\<forall>a \<in> A. lockdep (s_mx s a) \<and> 0 \<le> m_id (s_mx s a) \<and> key s a \<in> registered (s_ld s) \<and>
        pm (s_mx s a) = pthread_mutex_init ERRORCHECK \<and> locked_count (s_mx s a) = 0) \<and>
     (\<forall>t. s_pc s t = Idle \<and> s_cs s t = {} \<and> held_locks (s_ld s) t = [])"

inductive mreach :: "nat set \<Rightarrow> msys \<Rightarrow> bool" for A where
  start: "msys_start A s \<Longrightarrow> mreach A s"
| step: "mreach A s \<Longrightarrow> mstep A s s' \<Longrightarrow> mreach A s'"

section \<open>The invariant\<close>

definition inside :: "nat \<Rightarrow> point set" where
  "inside a = {Acquired a, Noted a, Unlocking a, Unnoted a}"

fun target :: "point \<Rightarrow> nat option" where
  "target Idle = None"
| "target (Trying a) = Some a"
| "target (Blocked a) = Some a"
| "target (Acquired a) = Some a"
| "target (Noted a) = Some a"
| "target (Unlocking a) = Some a"
| "target (Unnoted a) = Some a"

definition objects_ok :: "nat set \<Rightarrow> msys \<Rightarrow> bool" where
  "objects_ok A s \<longleftrightarrow> lockdep_inv (s_ld s) \<and> inj_on (key s) A \<and>
     (\<forall>a \<in> A. lockdep (s_mx s a) \<and> 0 \<le> m_id (s_mx s a) \<and> key s a \<in> registered (s_ld s) \<and>
        pm_kind (pm (s_mx s a)) = ERRORCHECK) \<and>
     (\<forall>t a. target (s_pc s t) = Some a \<longrightarrow> a \<in> A) \<and> (\<forall>t. s_cs s t \<subseteq> A)"

definition owners_ok :: "nat set \<Rightarrow> msys \<Rightarrow> bool" where
  "owners_ok A s \<longleftrightarrow> (\<forall>a \<in> A.
     (\<forall>t. s_pc s t \<in> inside a \<longrightarrow> owner_of s a = Some t) \<and>
     (\<forall>t. a \<in> s_cs s t \<longleftrightarrow> owner_of s a = Some t \<and> s_pc s t \<notin> inside a) \<and>
     (case owner_of s a of
        None \<Rightarrow> locked_count (s_mx s a) = 0
      | Some t \<Rightarrow> pm_count (pm (s_mx s a)) = 1 \<and>
          (if s_pc s t \<in> inside a then locked_count (s_mx s a) = 0
           else locked_count (s_mx s a) = 1 \<and> locked_by (s_mx s a) = Some t)))"

definition held_ok :: "nat set \<Rightarrow> msys \<Rightarrow> bool" where
  "held_ok A s \<longleftrightarrow> (\<forall>a \<in> A. \<forall>t. key s a \<in> held_ids s t \<longleftrightarrow>
     owner_of s a = Some t \<and> s_pc s t \<notin> {Acquired a, Unnoted a})"

definition order_ok :: "msys \<Rightarrow> bool" where
  "order_ok s \<longleftrightarrow> (\<forall>t a. s_pc s t \<in> {Trying a, Blocked a} \<longrightarrow>
     (\<forall>h \<in> held_ids s t. (h, key s a) \<in> follows (s_ld s)))"

definition msys_inv :: "nat set \<Rightarrow> msys \<Rightarrow> bool" where
  "msys_inv A s \<longleftrightarrow> objects_ok A s \<and> owners_ok A s \<and> held_ok A s \<and> order_ok s"

lemmas msys_defs = objects_ok_def owners_ok_def held_ok_def order_ok_def
  key_def owner_of_def held_ids_def inside_def

lemma msys_start_inv: "msys_start A s \<Longrightarrow> msys_inv A s"
  by (simp add: msys_start_def msys_inv_def msys_defs pthread_mutex_init_def)

section \<open>What the single actions do\<close>

lemma at_simps [simp]: "ld (at a s) = s_ld s" "mu (at a s) = s_mx s a"
  by (simp_all add: at_def)

lemma goto_simps [simp]:
  "s_ld (goto t p a w s) = ld w" "s_mx (goto t p a w s) = (s_mx s)(a := mu w)"
  "s_pc (goto t p a w s) = (s_pc s)(t := p)" "s_cs (goto t p a w s) = s_cs s"
  by (simp_all add: goto_def)

lemma try_lock_impl_cases:
  assumes "pm_kind (pm (mu s)) = ERRORCHECK" "try_lock_impl t s = Ret b w"
  shows "(b \<and> owner s = None \<and> w = set_pm (pm_take t (pm (mu s))) s) \<or>
    (\<not> b \<and> owner s \<noteq> None \<and> w = s)"
  using assms
  by (auto simp: try_lock_impl_def pthread_mutex_trylock_def try_lock_impl_result_def owner_def
      set_pm_def split: option.splits if_splits)

lemma lock_impl_Ret:
  assumes "pm_kind (pm (mu s)) = ERRORCHECK" "lock_impl t s = Ret u w"
  shows "owner s = None \<and> w = set_pm (pm_take t (pm (mu s))) s"
  using assms
  by (auto simp: lock_impl_def pthread_mutex_lock_def lock_impl_result_def owner_def assert_that_def
      split: option.splits if_splits)

lemma unlock_impl_Ret:
  assumes "unlock_impl t s = Ret u w" "pm_count (pm (mu s)) = 1"
  shows "owner s = Some t \<and> w = set_pm ((pm (mu s))\<lparr>pm_owner := None, pm_count := 0\<rparr>) s"
  using assms
  by (auto simp: unlock_impl_def pthread_mutex_unlock_def owner_def assert_that_def split: if_splits)

lemma post_lock_Ret:
  assumes "post_lock t s = Ret u w"
  shows "locked_count (mu s) = 0 \<and> w = s\<lparr>mu := (mu s)\<lparr>locked_by := Some t, locked_count := 1\<rparr>\<rparr>"
  using assms by (auto simp: post_lock_def assert_that_def split: if_splits)

lemma pre_unlock_Ret:
  assumes "pre_unlock t s = Ret u w"
  shows "locked_count (mu s) = 1 \<and> w = s\<lparr>mu := (mu s)\<lparr>locked_by := Some t, locked_count := 0\<rparr>\<rparr>"
  using assms by (auto simp: pre_unlock_def assert_that_def split: if_splits)

section \<open>Every step keeps the invariant\<close>

text \<open>The ownership condition of one mutex, over the parts of the state it reads.\<close>

definition own1 :: "nat \<Rightarrow> mutex_debug \<Rightarrow> (tid \<Rightarrow> point) \<Rightarrow> (tid \<Rightarrow> nat set) \<Rightarrow> bool" where
  "own1 a m pc cs \<longleftrightarrow>
     (\<forall>t. pc t \<in> inside a \<longrightarrow> pm_owner (pm m) = Some t) \<and>
     (\<forall>t. a \<in> cs t \<longleftrightarrow> pm_owner (pm m) = Some t \<and> pc t \<notin> inside a) \<and>
     (case pm_owner (pm m) of
        None \<Rightarrow> locked_count m = 0
      | Some t \<Rightarrow> pm_count (pm m) = 1 \<and>
          (if pc t \<in> inside a then locked_count m = 0
           else locked_count m = 1 \<and> locked_by m = Some t))"

lemma owners_ok_own1: "owners_ok A s \<longleftrightarrow> (\<forall>a \<in> A. own1 a (s_mx s a) (s_pc s) (s_cs s))"
  by (simp add: owners_ok_def own1_def owner_of_def)

lemma own1_Some:
  assumes "pm_owner (pm m) = Some t"
  shows "own1 a m pc cs \<longleftrightarrow> (\<forall>u. u \<noteq> t \<longrightarrow> pc u \<notin> inside a \<and> a \<notin> cs u) \<and>
    (a \<in> cs t \<longleftrightarrow> pc t \<notin> inside a) \<and> pm_count (pm m) = 1 \<and>
    (if pc t \<in> inside a then locked_count m = 0
     else locked_count m = 1 \<and> locked_by m = Some t)"
proof -
  have "(\<forall>u. pc u \<in> inside a \<longrightarrow> t = u) \<and> (\<forall>u. a \<in> cs u \<longleftrightarrow> t = u \<and> pc u \<notin> inside a) \<longleftrightarrow>
      (\<forall>u. u \<noteq> t \<longrightarrow> pc u \<notin> inside a \<and> a \<notin> cs u) \<and> (a \<in> cs t \<longleftrightarrow> pc t \<notin> inside a)"
    by metis
  then show ?thesis by (simp only: own1_def assms option.inject option.case conj_assoc [symmetric])
qed

lemma own1_None:
  assumes "pm_owner (pm m) = None"
  shows "own1 a m pc cs \<longleftrightarrow> (\<forall>u. pc u \<notin> inside a \<and> a \<notin> cs u) \<and> locked_count m = 0"
  using assms unfolding own1_def by auto

lemma inside_simps [simp]:
  "Idle \<notin> inside a" "Trying b \<notin> inside a" "Blocked b \<notin> inside a"
  "Acquired b \<in> inside a \<longleftrightarrow> b = a" "Noted b \<in> inside a \<longleftrightarrow> b = a"
  "Unlocking b \<in> inside a \<longleftrightarrow> b = a" "Unnoted b \<in> inside a \<longleftrightarrow> b = a"
  by (auto simp: inside_def)

text \<open>A thread that moves between points of another mutex does not disturb this one.\<close>

lemma own1_other:
  assumes "own1 b m pc cs" "pc t \<notin> inside b" "p \<notin> inside b" "b \<in> cs' \<longleftrightarrow> b \<in> cs t"
  shows "own1 b m (pc(t := p)) (cs(t := cs'))"
  using assms unfolding own1_def by (auto split: option.splits)

lemma owners_ok_move:
  assumes "owners_ok A s"
    and "\<And>b. b \<noteq> a \<Longrightarrow> s_pc s t \<notin> inside b \<and> p \<notin> inside b \<and> (b \<in> cs' \<longleftrightarrow> b \<in> s_cs s t)"
    and "a \<in> A \<Longrightarrow> own1 a (mu w) ((s_pc s)(t := p)) ((s_cs s)(t := cs'))"
  shows "owners_ok A ((goto t p a w s)\<lparr>s_cs := (s_cs s)(t := cs')\<rparr>)"
  unfolding owners_ok_own1
proof
  fix b assume b: "b \<in> A"
  show "own1 b (s_mx ((goto t p a w s)\<lparr>s_cs := (s_cs s)(t := cs')\<rparr>) b)
      (s_pc ((goto t p a w s)\<lparr>s_cs := (s_cs s)(t := cs')\<rparr>))
      (s_cs ((goto t p a w s)\<lparr>s_cs := (s_cs s)(t := cs')\<rparr>))"
  proof (cases "b = a")
    case True
    then show ?thesis using assms(3) b by simp
  next
    case False
    have "own1 b (s_mx s b) (s_pc s) (s_cs s)"
      using assms(1) b by (simp add: owners_ok_own1)
    then show ?thesis using own1_other assms(2) [OF False] False by simp
  qed
qed

text \<open>
  The remaining conditions under a step of thread \<open>t\<close> that leaves identifiers and
  dependencies alone.
\<close>

lemma objects_ok_move:
  assumes "objects_ok A s" "lockdep_inv (ld w)" "registered (ld w) = registered (s_ld s)"
    "m_id (mu w) = m_id (s_mx s a)" "lockdep (mu w) = lockdep (s_mx s a)"
    "pm_kind (pm (mu w)) = pm_kind (pm (s_mx s a))"
    "target p = None \<or> target p = Some a" "a \<in> A" "cs' \<subseteq> A"
  shows "objects_ok A ((goto t p a w s)\<lparr>s_cs := (s_cs s)(t := cs')\<rparr>)"
proof -
  let ?s = "(goto t p a w s)\<lparr>s_cs := (s_cs s)(t := cs')\<rparr>"
  have "key ?s = key s" using assms(4) by (simp add: key_def fun_eq_iff)
  then show ?thesis using assms by (auto simp: objects_ok_def)
qed

lemma held_ok_move:
  assumes "held_ok A s" "objects_ok A s" "a \<in> A" "m_id (mu w) = m_id (s_mx s a)"
    "\<And>u. u \<noteq> t \<Longrightarrow> held_locks (ld w) u = held_locks (s_ld s) u"
    "\<And>k. k \<noteq> key s a \<Longrightarrow> k \<in> smap_keys (held_locks (ld w) t) \<longleftrightarrow> k \<in> held_ids s t"
    "\<And>b. b \<noteq> a \<Longrightarrow> s_pc s t \<notin> inside b \<and> p \<notin> inside b"
    "\<And>u. u \<noteq> t \<Longrightarrow> pm_owner (pm (mu w)) = Some u \<longleftrightarrow> owner_of s a = Some u"
    "key s a \<in> smap_keys (held_locks (ld w) t) \<longleftrightarrow>
       pm_owner (pm (mu w)) = Some t \<and> p \<notin> {Acquired a, Unnoted a}"
  shows "held_ok A ((goto t p a w s)\<lparr>s_cs := cs'\<rparr>)"
  unfolding held_ok_def
proof (intro ballI allI)
  fix b u
  assume b: "b \<in> A"
  let ?s = "(goto t p a w s)\<lparr>s_cs := cs'\<rparr>"
  have key: "key ?s b = key s b" using assms(4) by (simp add: key_def)
  have old: "key s b \<in> held_ids s u \<longleftrightarrow> owner_of s b = Some u \<and> s_pc s u \<notin> {Acquired b, Unnoted b}"
    using assms(1) b by (simp add: held_ok_def)
  have inj: "key s b = key s a \<longleftrightarrow> b = a"
    using assms(2,3) b by (auto simp: objects_ok_def inj_on_def)
  show "key ?s b \<in> held_ids ?s u \<longleftrightarrow>
      owner_of ?s b = Some u \<and> s_pc ?s u \<notin> {Acquired b, Unnoted b}"
  proof (cases "u = t")
    case False
    then show ?thesis
      using old assms(5,8) [OF False] unfolding key
      by (simp add: held_ids_def owner_of_def)
  next
    case True
    show ?thesis
    proof (cases "b = a")
      case True
      then show ?thesis
        using assms(9) \<open>u = t\<close> unfolding key by (simp add: held_ids_def owner_of_def)
    next
      case False
      then show ?thesis
        using old assms(6) [of "key s b"] assms(7) [OF False] inj \<open>u = t\<close> unfolding key
        by (auto simp: held_ids_def owner_of_def inside_def)
    qed
  qed
qed

lemma order_ok_move:
  assumes "order_ok s" "follows (ld w) = follows (s_ld s)" "m_id (mu w) = m_id (s_mx s a)"
    "\<And>u. u \<noteq> t \<Longrightarrow> held_locks (ld w) u = held_locks (s_ld s) u"
    "\<And>b. p \<notin> {Trying b, Blocked b} \<or>
       s_pc s t \<in> {Trying b, Blocked b} \<and> held_locks (ld w) t = held_locks (s_ld s) t"
  shows "order_ok ((goto t p a w s)\<lparr>s_cs := cs'\<rparr>)"
  unfolding order_ok_def
proof (intro allI impI)
  fix u b
  let ?s = "(goto t p a w s)\<lparr>s_cs := cs'\<rparr>"
  assume pc: "s_pc ?s u \<in> {Trying b, Blocked b}"
  have key: "key ?s b = key s b" using assms(3) by (simp add: key_def)
  have "held_locks (ld w) u = held_locks (s_ld s) u \<and> s_pc s u \<in> {Trying b, Blocked b}"
    using pc assms(4) [of u] assms(5) [of b] by (cases "u = t") auto
  then show "\<forall>h \<in> held_ids ?s u. (h, key ?s b) \<in> follows (s_ld ?s)"
    using assms(1,2) unfolding key by (auto simp: order_ok_def held_ids_def simp del: follows_iff)
qed

lemma msys_move:
  assumes inv: "msys_inv A s" and a: "a \<in> A"
    and w: "lockdep_inv (ld w)" "registered (ld w) = registered (s_ld s)"
      "follows (ld w) = follows (s_ld s)" "m_id (mu w) = m_id (s_mx s a)"
      "lockdep (mu w) = lockdep (s_mx s a)" "pm_kind (pm (mu w)) = pm_kind (pm (s_mx s a))"
    and p: "target p = None \<or> target p = Some a"
      "target (s_pc s t) = None \<or> target (s_pc s t) = Some a"
    and cs: "cs' = s_cs s t \<or> cs' = insert a (s_cs s t) \<or> cs' = s_cs s t - {a}"
    and own: "own1 a (mu w) ((s_pc s)(t := p)) ((s_cs s)(t := cs'))"
    and held: "\<And>u. u \<noteq> t \<Longrightarrow> held_locks (ld w) u = held_locks (s_ld s) u"
      "\<And>k. k \<noteq> key s a \<Longrightarrow> k \<in> smap_keys (held_locks (ld w) t) \<longleftrightarrow> k \<in> held_ids s t"
      "\<And>u. u \<noteq> t \<Longrightarrow> pm_owner (pm (mu w)) = Some u \<longleftrightarrow> owner_of s a = Some u"
      "key s a \<in> smap_keys (held_locks (ld w) t) \<longleftrightarrow>
         pm_owner (pm (mu w)) = Some t \<and> p \<notin> {Acquired a, Unnoted a}"
    and order: "\<And>b. p \<notin> {Trying b, Blocked b} \<or>
       s_pc s t \<in> {Trying b, Blocked b} \<and> held_locks (ld w) t = held_locks (s_ld s) t"
  shows "msys_inv A ((goto t p a w s)\<lparr>s_cs := (s_cs s)(t := cs')\<rparr>)"
proof -
  have parts: "objects_ok A s" "owners_ok A s" "held_ok A s" "order_ok s"
    using inv by (simp_all add: msys_inv_def)
  have in_A: "cs' \<subseteq> A" using cs parts(1) a by (auto simp: objects_ok_def)
  have away: "s_pc s t \<notin> inside b \<and> p \<notin> inside b" if "b \<noteq> a" for b
    using p that by (auto simp: inside_def)
  have away_cs: "b \<in> cs' \<longleftrightarrow> b \<in> s_cs s t" if "b \<noteq> a" for b
    using cs that by auto
  show ?thesis
    unfolding msys_inv_def
    using objects_ok_move [OF parts(1) w(1,2,4,5,6) p(1) a in_A]
      owners_ok_move [OF parts(2), of a t p cs' w] away away_cs own
      held_ok_move [OF parts(3,1) a w(4) held(1,2) away held(3,4)]
      order_ok_move [OF parts(4) w(3,4) held(1) order]
    by blast
qed

lemma goto_cs: "goto t p a w s = (goto t p a w s)\<lparr>s_cs := (s_cs s)(t := s_cs s t)\<rparr>"
  by (simp add: goto_def)

lemma msys_inv_at:
  assumes "msys_inv A s" "a \<in> A"
  shows "own1 a (s_mx s a) (s_pc s) (s_cs s)" "lockdep_inv (s_ld s)" "0 \<le> m_id (s_mx s a)"
    "key s a \<in> registered (s_ld s)" "pm_kind (pm (s_mx s a)) = ERRORCHECK"
    "key s a \<in> held_ids s t \<longleftrightarrow> owner_of s a = Some t \<and> s_pc s t \<notin> {Acquired a, Unnoted a}"
  using assms by (auto simp: msys_inv_def objects_ok_def owners_ok_own1 held_ok_def)

lemma msys_inv_target:
  assumes "msys_inv A s" "target (s_pc s t) = Some a"
  shows "a \<in> A"
  using assms by (auto simp: msys_inv_def objects_ok_def)

lemma inv_announce:
  assumes inv: "msys_inv A s" and pc: "s_pc s t = Idle" and a: "a \<in> A"
    and w: "base_will_lock t bt (at a s) = Ret () w"
  shows "msys_inv A (goto t (Trying a) a w s)"
proof -
  note at = msys_inv_at [OF inv a]
  obtain l where l: "w = (at a s)\<lparr>ld := l\<rparr>" "lockdep_inv l"
    "follows l = follows (s_ld s) \<union> held_ids s t \<times> {key s a}" "only_tree_changed (s_ld s) l"
    using base_will_lock_correct [of "at a s" t bt] at(2-4) w
    by (auto simp: key_def held_ids_def split: if_splits)
  define s' where "s' = goto t (Trying a) a w s"
  have same: "s_mx s' = s_mx s" "s_ld s' = l" "key s' = key s" "owner_of s' = owner_of s"
    "held_ids s' = held_ids s" "s_cs s' = s_cs s" "s_pc s' = (s_pc s)(t := Trying a)"
    by (auto simp: s'_def l(1) key_def owner_of_def held_ids_def fun_eq_iff
        only_tree_changed_frame [OF l(4)])
  have "objects_ok A s'"
    using inv a l(2) by (auto simp: msys_inv_def objects_ok_def same only_tree_changed_frame [OF l(4)])
  moreover have "owners_ok A s'"
    unfolding owners_ok_own1 same
    using own1_other [of _ _ "s_pc s" "s_cs s" t "Trying a" "s_cs s t"] inv pc
    by (simp add: msys_inv_def owners_ok_own1 inside_def)
  moreover have "held_ok A s'"
    using inv pc by (auto simp: msys_inv_def held_ok_def same)
  moreover have "order_ok s'"
    using inv pc by (auto simp: msys_inv_def order_ok_def same l(3) simp del: follows_iff)
  ultimately show ?thesis by (simp add: msys_inv_def s'_def)
qed

lemma inv_take:
  assumes inv: "msys_inv A s" and pc: "s_pc s t \<in> {Idle, Trying a, Blocked a}" and a: "a \<in> A"
    and free: "owner_of s a = None"
  shows "msys_inv A (goto t (Acquired a) a (set_pm (pm_take t (pm (s_mx s a))) (at a s)) s)"
proof -
  note at = msys_inv_at [OF inv a]
  have "own1 a ((s_mx s a)\<lparr>pm := pm_take t (pm (s_mx s a))\<rparr>) ((s_pc s)(t := Acquired a)) (s_cs s)"
    using at(1) free unfolding own1_def owner_of_def by (auto simp: pm_take_def inside_def)
  then show ?thesis
    using at(2,5,6) free pc
    by (subst goto_cs, intro msys_move [OF inv a])
      (auto simp: set_pm_def pm_take_def held_ids_def owner_of_def)
qed

lemma inv_busy:
  assumes inv: "msys_inv A s" and pc: "s_pc s t = Trying a"
  shows "msys_inv A (goto t (Blocked a) a (at a s) s)"
proof -
  have a: "a \<in> A" by (rule msys_inv_target [OF inv, of t]) (simp add: pc)
  note at = msys_inv_at [OF inv a]
  have "own1 a (s_mx s a) ((s_pc s)(t := Blocked a)) ((s_cs s)(t := s_cs s t))"
    by (rule own1_other [OF at(1)]) (simp_all add: pc inside_def)
  then show ?thesis
    using at(2) at(6) [of t] pc
    by (subst goto_cs, intro msys_move [OF inv a]) (auto simp: held_ids_def owner_of_def)
qed

lemma inv_note:
  assumes inv: "msys_inv A s" and pc: "s_pc s t = Acquired a"
    and w: "base_locked t bt (at a s) = Ret () w"
  shows "msys_inv A (goto t (Noted a) a w s)"
proof -
  have a: "a \<in> A" by (rule msys_inv_target [OF inv, of t]) (simp add: pc)
  note at = msys_inv_at [OF inv a]
  have w': "w = (at a s)\<lparr>ld := set_held t (smap_put (key s a) bt (held_locks (s_ld s) t)) (s_ld s)\<rparr>"
    using base_locked_eq [of "at a s" t bt] at(3) w by (simp add: key_def)
  have own: "pm_owner (pm (s_mx s a)) = Some t"
    using at(1) pc by (simp add: own1_def inside_def)
  have "own1 a (s_mx s a) ((s_pc s)(t := Noted a)) ((s_cs s)(t := s_cs s t))"
    using at(1) pc own by (simp add: own1_Some [of _ t] w')
  moreover have "lockdep_inv (ld w)"
    using locked_inv [OF at(2,3)] at(4) by (simp add: w' key_def)
  ultimately show ?thesis
    using pc own
    by (subst goto_cs, intro msys_move [OF inv a]) (auto simp: w' held_ids_def owner_of_def)
qed

lemma inv_post:
  assumes inv: "msys_inv A s" and pc: "s_pc s t = Noted a"
    and w: "post_lock t (at a s) = Ret () w"
  shows "msys_inv A ((goto t Idle a w s)\<lparr>s_cs := (s_cs s)(t := insert a (s_cs s t))\<rparr>)"
proof -
  have a: "a \<in> A" by (rule msys_inv_target [OF inv, of t]) (simp add: pc)
  note at = msys_inv_at [OF inv a]
  have w': "w = (at a s)\<lparr>mu := (s_mx s a)\<lparr>locked_by := Some t, locked_count := 1\<rparr>\<rparr>"
    using post_lock_Ret [OF w] by simp
  have own: "pm_owner (pm (s_mx s a)) = Some t"
    using at(1) pc by (simp add: own1_def inside_def)
  have "own1 a (mu w) ((s_pc s)(t := Idle)) ((s_cs s)(t := insert a (s_cs s t)))"
    using at(1) pc own by (simp add: own1_Some [of _ t] w')
  then show ?thesis
    using at(2) at(6) [of t] pc own
    by (intro msys_move [OF inv a]) (auto simp: w' held_ids_def owner_of_def)
qed

lemma inv_unlock:
  assumes inv: "msys_inv A s" and pc: "s_pc s t = Idle" and cs: "a \<in> s_cs s t"
    and w: "pre_unlock t (at a s) = Ret () w"
  shows "msys_inv A ((goto t (Unlocking a) a w s)\<lparr>s_cs := (s_cs s)(t := s_cs s t - {a})\<rparr>)"
proof -
  have a: "a \<in> A" using inv cs by (auto simp: msys_inv_def objects_ok_def)
  note at = msys_inv_at [OF inv a]
  have w': "w = (at a s)\<lparr>mu := (s_mx s a)\<lparr>locked_by := Some t, locked_count := 0\<rparr>\<rparr>"
    using pre_unlock_Ret [OF w] by simp
  have own: "pm_owner (pm (s_mx s a)) = Some t"
    using at(1) cs by (simp add: own1_def)
  have "own1 a (mu w) ((s_pc s)(t := Unlocking a)) ((s_cs s)(t := s_cs s t - {a}))"
    using at(1) pc own by (simp add: own1_Some [of _ t] w')
  then show ?thesis
    using at(2) at(6) [of t] pc own
    by (intro msys_move [OF inv a]) (auto simp: w' held_ids_def owner_of_def)
qed

lemma inv_unnote:
  assumes inv: "msys_inv A s" and pc: "s_pc s t = Unlocking a"
    and w: "base_will_unlock t (at a s) = Ret () w"
  shows "msys_inv A (goto t (Unnoted a) a w s)"
proof -
  have a: "a \<in> A" by (rule msys_inv_target [OF inv, of t]) (simp add: pc)
  note at = msys_inv_at [OF inv a]
  have w': "w = (at a s)\<lparr>ld := set_held t (smap_erase (key s a) (held_locks (s_ld s) t)) (s_ld s)\<rparr>"
    using base_will_unlock_eq [of "at a s" t] at(3) w by (simp add: key_def)
  have own: "pm_owner (pm (s_mx s a)) = Some t"
    using at(1) pc by (simp add: own1_def inside_def)
  have "own1 a (s_mx s a) ((s_pc s)(t := Unnoted a)) ((s_cs s)(t := s_cs s t))"
    using at(1) pc own by (simp add: own1_Some [of _ t] w')
  then show ?thesis
    using will_unlock_inv [OF at(2)] pc own
    by (subst goto_cs, intro msys_move [OF inv a]) (auto simp: w' held_ids_def owner_of_def)
qed

lemma inv_release:
  assumes inv: "msys_inv A s" and pc: "s_pc s t = Unnoted a"
    and w: "unlock_impl t (at a s) = Ret () w"
  shows "msys_inv A (goto t Idle a w s)"
proof -
  have a: "a \<in> A" by (rule msys_inv_target [OF inv, of t]) (simp add: pc)
  note at = msys_inv_at [OF inv a]
  have own: "pm_owner (pm (s_mx s a)) = Some t"
    using at(1) pc by (simp add: own1_def inside_def)
  then have "pm_count (pm (s_mx s a)) = 1" using at(1) by (simp add: own1_def)
  then have w': "w = (at a s)\<lparr>mu := (s_mx s a)
      \<lparr>pm := (pm (s_mx s a))\<lparr>pm_owner := None, pm_count := 0\<rparr>\<rparr>\<rparr>"
    using unlock_impl_Ret [OF w] by (simp add: set_pm_def)
  have "own1 a (mu w) ((s_pc s)(t := Idle)) ((s_cs s)(t := s_cs s t))"
    using at(1) pc own by (auto simp: own1_Some [of _ t] own1_None w')
  then show ?thesis
    using at(2) at(6) [of t] pc own
    by (subst goto_cs, intro msys_move [OF inv a]) (auto simp: w' held_ids_def owner_of_def)
qed

lemma goto_self:
  assumes "s_pc s t = p" shows "goto t p a (at a s) s = s"
  using assms by (auto simp: goto_def)

lemma mstep_inv:
  assumes "mstep A s s'" "msys_inv A s"
  shows "msys_inv A s'"
  using assms
proof (induction rule: mstep.induct)
  case (announce s t a bt w)
  then show ?case by (blast intro: inv_announce)
next
  case (try_ok s t a w)
  have a: "a \<in> A" by (rule msys_inv_target [of A s t]) (use try_ok in simp_all)
  note kind = msys_inv_at(5) [OF \<open>msys_inv A s\<close> a]
  from try_ok a show ?case
    using try_lock_impl_cases [of "at a s" t True w] kind inv_take [of A s t a]
    by (simp add: owner_def owner_of_def)
next
  case (try_busy s t a w)
  have a: "a \<in> A" by (rule msys_inv_target [of A s t]) (use try_busy in simp_all)
  note kind = msys_inv_at(5) [OF \<open>msys_inv A s\<close> a]
  from try_busy show ?case
    using try_lock_impl_cases [of "at a s" t False w] kind inv_busy [of A s t a] by simp
next
  case (wake s t a w)
  have a: "a \<in> A" by (rule msys_inv_target [of A s t]) (use wake in simp_all)
  note kind = msys_inv_at(5) [OF \<open>msys_inv A s\<close> a]
  from wake a show ?case
    using lock_impl_Ret [of "at a s" t _ w] kind inv_take [of A s t a]
    by (simp add: owner_def owner_of_def)
next
  case (try_alone s t a b w)
  note kind = msys_inv_at(5) [OF \<open>msys_inv A s\<close> \<open>a \<in> A\<close>]
  from try_alone show ?case
    using try_lock_impl_cases [of "at a s" t b w] kind inv_take [of A s t a]
    by (auto simp: owner_def owner_of_def goto_self)
next
  case (note_lock s t a bt w)
  then show ?case by (blast intro: inv_note)
next
  case (post s t a w)
  then show ?case by (blast intro: inv_post)
next
  case (unlock s t a w)
  then show ?case by (blast intro: inv_unlock)
next
  case (unnote s t a w)
  then show ?case by (blast intro: inv_unnote)
next
  case (release s t a w)
  then show ?case by (blast intro: inv_release)
qed

lemma mreach_inv: "mreach A s \<Longrightarrow> msys_inv A s"
  by (induction rule: mreach.induct) (auto intro: msys_start_inv mstep_inv)

section \<open>The calls as runs\<close>

text \<open>A call that runs without interruption is a sequence of steps of the interleaved system.\<close>

lemma goto_goto [simp]: "goto t p' a w' (goto t p a w s) = goto t p' a w' s"
  by (simp add: goto_def)

lemma at_goto [simp]: "at a (goto t p a w s) = w"
  by (cases w) (simp add: at_def)

lemma mutex_lock_Ret_split:
  fixes s :: mstate
  assumes "mutex_lock t bt s = Ret () w" "lockdep (mu s)" "pm_kind (pm (mu s)) = ERRORCHECK"
    "\<And>u. base_will_lock t bt s = Ret () u \<Longrightarrow> mu u = mu s"
    "\<And>u b v. base_will_lock t bt s = Ret () u \<Longrightarrow> try_lock_impl t u = Ret b v \<Longrightarrow> lockdep (mu v)"
  shows "\<exists>u v x. base_will_lock t bt s = Ret () u \<and> try_lock_impl t u = Ret True v \<and>
    base_locked t bt v = Ret () x \<and> post_lock t x = Ret () w"
proof -
  obtain u where u: "base_will_lock t bt s = Ret () u"
    and rest: "bind (mutex_try_lock t bt u) (\<lambda>b s. if b then Ret () s else lock_wait t bt s) = Ret () w"
    using assms(1,2) by (auto simp: mutex_lock_def when_lockdep_def bind_eq_Ret_iff)
  obtain b v where v: "try_lock_impl t u = Ret b v"
    using rest by (auto simp: mutex_try_lock_def bind_eq_Ret_iff)
  have kind: "pm_kind (pm (mu u)) = ERRORCHECK" using assms(3,4) u by simp
  show ?thesis
  proof (cases b)
    case True
    then show ?thesis
      using u v rest assms(5) [OF u v]
      by (auto simp: mutex_try_lock_def when_lockdep_def bind_eq_Ret_iff)
  next
    case False
    then have "owner u \<noteq> None" "v = u" using try_lock_impl_cases [OF kind v] by auto
    moreover obtain x where "lock_impl t v = Ret () x"
      using rest v False by (auto simp: mutex_try_lock_def lock_wait_def bind_eq_Ret_iff)
    ultimately show ?thesis using lock_impl_Ret [OF kind] by auto
  qed
qed

lemma lock_run:
  assumes "mreach A s" "s_pc s t = Idle" "a \<in> A" "mutex_lock t bt (at a s) = Ret () w"
  shows "mreach A ((goto t Idle a w s)\<lparr>s_cs := (s_cs s)(t := insert a (s_cs s t))\<rparr>)"
proof -
  have inv: "msys_inv A s" by (rule mreach_inv [OF assms(1)])
  note at = msys_inv_at [OF inv assms(3)]
  have dep: "lockdep (s_mx s a)" using inv assms(3) by (simp add: msys_inv_def objects_ok_def)
  have same: "mu u = s_mx s a" if "base_will_lock t bt (at a s) = Ret () u" for u
    using base_will_lock_correct [of "at a s" t bt] at(2-4) that
    by (auto simp: key_def split: if_splits)
  have dep': "lockdep (mu v)"
    if "base_will_lock t bt (at a s) = Ret () u" "try_lock_impl t u = Ret b v" for u b v
    using same [OF that(1)] try_lock_impl_cases [OF _ that(2)] at(5) dep by (auto simp: set_pm_def)
  obtain u v x where run: "base_will_lock t bt (at a s) = Ret () u"
    "try_lock_impl t u = Ret True v" "base_locked t bt v = Ret () x" "post_lock t x = Ret () w"
    using mutex_lock_Ret_split [OF assms(4)] dep dep' same at(5) by auto
  let ?s1 = "goto t (Trying a) a u s" and ?s2 = "goto t (Acquired a) a v s"
  let ?s3 = "goto t (Noted a) a x s"
  have 1: "mreach A ?s1"
    by (rule mreach.step [OF assms(1) mstep.announce]) (use assms(2,3) run in simp_all)
  have 2: "mreach A ?s2"
    using mreach.step [OF 1 mstep.try_ok [of ?s1 t a v]] run by simp
  have 3: "mreach A ?s3"
    using mreach.step [OF 2 mstep.note_lock [of ?s2 t a bt x]] run by simp
  show ?thesis
    using mreach.step [OF 3 mstep.post [of ?s3 t a w]] run by simp
qed

section \<open>A concrete system\<close>

text \<open>Two mutexes; thread 7 takes the first, thread 8 then waits for it.\<close>

definition sys0 :: msys where
  "sys0 = \<lparr>s_ld = ld_two,
     s_mx = (\<lambda>a. (new_mutex (if a = 0 then ''mutex0'' else ''mutex1'') True)\<lparr>m_id := int a\<rparr>),
     s_pc = (\<lambda>_. Idle), s_cs = (\<lambda>_. {})\<rparr>"

lemma sys0_reach: "mreach {0, 1} sys0"
  by (rule mreach.start)
    (simp add: msys_start_def sys0_def ld_two_inv key_def new_mutex_def inj_on_def)

lemma sys0_lock:
  "\<exists>w. mutex_lock 7 bt_demo (at 0 sys0) = Ret () w \<and> owner w = Some 7 \<and> held_locks (ld w) 8 = []"
proof -
  have eq: "at 0 sys0 = mutex_demo" by (simp add: at_def sys0_def mutex_demo_def)
  have "\<not> will_lock_refused ld_two 0 {}" by (simp add: will_lock_refused_def)
  then obtain l where l: "base_will_lock 7 bt_demo mutex_demo = Ret () (mutex_demo\<lparr>ld := l\<rparr>)"
    "lockdep_inv l" "only_tree_changed ld_two l"
    using base_will_lock_correct [of mutex_demo 7 bt_demo] ld_two_inv
    by (auto simp: mutex_demo_def)
  have inv: "dep_inv (mutex_demo\<lparr>ld := l\<rparr>)"
    using dep_inv_announced [OF mutex_demo_inv l(2)] l(3) by (simp add: mutex_demo_def)
  have free: "owner (mutex_demo\<lparr>ld := l\<rparr>) = None"
    by (simp add: owner_def mutex_demo_def new_mutex_def pthread_mutex_init_def)
  have held: "held_locks l t = []" for t
    using only_tree_changed_frame(2) [OF l(3)] by simp
  have dep: "lockdep (mu mutex_demo)" by (simp add: mutex_demo_def new_mutex_def)
  let ?w = "mutex_demo\<lparr>ld := set_held 7 (smap_put 0 bt_demo []) l,
    mu := (mu mutex_demo)\<lparr>pm := pm_take 7 (pm (mu mutex_demo)), locked_by := Some 7, locked_count := 1\<rparr>\<rparr>"
  have "mutex_try_lock 7 bt_demo (mutex_demo\<lparr>ld := l\<rparr>) = Ret True ?w"
    using free held
    by (simp add: mutex_try_lock_def try_lock_impl_def try_lock_impl_result_def owner_def set_pm_def
        pthread_mutex_trylock_def when_lockdep_def base_locked_eq post_lock_def assert_that_def
        mutex_demo_def new_mutex_def)
  then have "mutex_lock 7 bt_demo mutex_demo = Ret () ?w"
    using l(1) dep by (simp add: mutex_lock_def when_lockdep_def)
  then show ?thesis unfolding eq using held by (simp add: owner_def pm_take_def)
qed

definition sys1 :: msys where
  "sys1 = (case mutex_lock 7 bt_demo (at 0 sys0) of
     Ret _ w \<Rightarrow> (goto 7 Idle 0 w sys0)\<lparr>s_cs := (\<lambda>_. {})(7 := {0})\<rparr>
   | _ \<Rightarrow> sys0)"

lemma sys1_facts:
  "s_cs sys1 7 = {0}" "s_pc sys1 8 = Idle" "held_locks (s_ld sys1) 8 = []" "owner_of sys1 0 = Some 7"
proof -
  obtain w where w: "mutex_lock 7 bt_demo (at 0 sys0) = Ret () w" "owner w = Some 7"
    "held_locks (ld w) 8 = []"
    using sys0_lock by blast
  then show "s_cs sys1 7 = {0}" "s_pc sys1 8 = Idle" "held_locks (s_ld sys1) 8 = []"
    "owner_of sys1 0 = Some 7"
    by (simp_all add: sys1_def owner_of_def owner_def) (simp add: sys0_def)
qed

lemma sys1_eq:
  assumes "mutex_lock 7 bt_demo (at 0 sys0) = Ret () w"
  shows "sys1 = (goto 7 Idle 0 w sys0)\<lparr>s_cs := (s_cs sys0)(7 := insert 0 (s_cs sys0 7))\<rparr>"
  using assms by (simp add: sys1_def) (simp add: sys0_def)

lemma sys1_reach: "mreach {0, 1} sys1"
proof -
  obtain w where w: "mutex_lock 7 bt_demo (at 0 sys0) = Ret () w" using sys0_lock by blast
  have "s_pc sys0 7 = Idle" "0 \<in> {0, 1 :: nat}" by (simp_all add: sys0_def)
  from lock_run [OF sys0_reach this w] show ?thesis by (simp only: sys1_eq [OF w])
qed

lemma sys2_reach:
  "\<exists>s. mreach {0, 1} s \<and> s_pc s 8 = Blocked 0 \<and> owner_of s 0 = Some 7"
proof -
  note at = msys_inv_at [OF mreach_inv [OF sys1_reach], of 0]
  have "\<not> will_lock_refused (s_ld sys1) (key sys1 0) {}" by (simp add: will_lock_refused_def)
  then obtain l where l: "base_will_lock 8 bt_demo (at 0 sys1) = Ret () ((at 0 sys1)\<lparr>ld := l\<rparr>)"
    using base_will_lock_correct [of "at 0 sys1" 8 bt_demo] at(2-4) sys1_facts
    by (auto simp: key_def)
  let ?u = "(at 0 sys1)\<lparr>ld := l\<rparr>"
  let ?s = "goto 8 (Trying 0) 0 ?u sys1"
  have r1: "mreach {0, 1} ?s"
    by (rule mreach.step [OF sys1_reach mstep.announce]) (use sys1_facts l in simp_all)
  have busy: "try_lock_impl 8 ?u = Ret False ?u"
    using sys1_facts(4) by (simp add: try_lock_impl_def pthread_mutex_trylock_def owner_of_def
        try_lock_impl_result_def set_pm_def)
  have "mreach {0, 1} (goto 8 (Blocked 0) 0 ?u sys1)"
    using mreach.step [OF r1 mstep.try_busy [of ?s 8 0 ?u]] busy by simp
  moreover have "owner_of (goto 8 (Blocked 0) 0 ?u sys1) 0 = Some 7"
    using sys1_facts(4) by (simp add: owner_of_def)
  ultimately show ?thesis by (metis fun_upd_same goto_simps(3))
qed

section \<open>Mutual exclusion, assertions, deadlock\<close>

text \<open>
  the interleaved system contains the code's calls. From a reachable state, an
  uninterrupted \<^verbatim>\<open>lock()\<close> that returns leads, through the steps of the system, to the
  reachable state with exactly the mutex and checker the call leaves behind, and the thread
  holding the mutex.
\<close>
theorem mutex_lock_is_run:
  assumes "mreach A s" "s_pc s t = Idle" "a \<in> A" "mutex_lock t bt (at a s) = Ret () w"
  shows "mreach A ((goto t Idle a w s)\<lparr>s_cs := (s_cs s)(t := insert a (s_cs s t))\<rparr>)"
  by (rule lock_run [OF assms])

theorem mutex_lock_is_run_witness: "mreach {0, 1} sys1"
proof -
  obtain w where w: "mutex_lock 7 bt_demo (at 0 sys0) = Ret () w" using sys0_lock by blast
  have "s_pc sys0 7 = Idle" "0 \<in> {0, 1 :: nat}" by (simp_all add: sys0_def)
  from mutex_lock_is_run [OF sys0_reach this w] show ?thesis by (simp only: sys1_eq [OF w])
qed

text \<open>
  C3: mutual exclusion under every interleaving. If the lock calls of two threads on the
  same mutex have returned and neither has called unlock, they are the same thread; and
  then \<^verbatim>\<open>is_locked_by_me()\<close> holds for that thread and for no other.
\<close>
theorem mutual_exclusion:
  assumes "mreach A s" "a \<in> s_cs s t" "a \<in> s_cs s u"
  shows "t = u \<and> is_locked_by_me t (s_mx s a) \<and> (\<forall>v. is_locked_by_me v (s_mx s a) \<longrightarrow> v = t)"
proof -
  have inv: "msys_inv A s" by (rule mreach_inv [OF assms(1)])
  then have "a \<in> A" using assms(2) by (auto simp: msys_inv_def objects_ok_def)
  note own = msys_inv_at(1) [OF inv this]
  have "pm_owner (pm (s_mx s a)) = Some t" "pm_owner (pm (s_mx s a)) = Some u"
    "s_pc s t \<notin> inside a"
    using own assms(2,3) by (auto simp: own1_def)
  then show ?thesis using own by (auto simp: own1_def is_locked_by_me_def)
qed

theorem mutual_exclusion_witness:
  "is_locked_by_me 7 (s_mx sys1 0) \<and> \<not> is_locked_by_me 8 (s_mx sys1 0)"
proof -
  have "0 \<in> s_cs sys1 7" "(8 :: tid) \<noteq> 7" by (simp_all add: sys1_facts)
  then show ?thesis using mutual_exclusion [OF sys1_reach, of 0 7 7] by blast
qed

lemma unregister_returns:
  assumes "lockdep_inv l" "k \<in> registered l"
  shows "\<exists>l'. lockdep_unregister (int k) l = Ret () l'"
proof -
  obtain r where "lock_ref l k = Some r" using assms unfolding lockdep_inv_def refs_inv_def by blast
  moreover have "k < MAX_LOCKS" using registered_bound [of l] assms by (auto simp: lockdep_inv_def)
  ultimately show ?thesis by (simp add: lockdep_unregister_def Let_def)
qed

text \<open>A waiting thread does not own what it waits for: the identifier would follow itself.\<close>

lemma blocked_not_owner:
  assumes "msys_inv A s" "s_pc s t = Blocked a"
  shows "owner_of s a \<noteq> Some t"
proof
  assume own: "owner_of s a = Some t"
  have "a \<in> A" by (rule msys_inv_target [OF assms(1), of t]) (simp add: assms(2))
  then have "key s a \<in> held_ids s t" using msys_inv_at(6) [OF assms(1), of a t] own assms(2) by simp
  then have "(key s a, key s a) \<in> follows (s_ld s)" using assms unfolding msys_inv_def order_ok_def by blast
  from r_into_trancl [OF this] show False using assms(1)
    by (auto simp: msys_inv_def objects_ok_def lockdep_inv_def tree_inv_def acyclic_def)
qed

text \<open>
  C19: no assertion of the mutex fails under any interleaving of threads that unlock only what they
  have locked. A thread that waits in \<^verbatim>\<open>lock_impl()\<close> gets the library's mutex when it is free and
  goes on waiting otherwise, and neither its exception nor its assertion is reached;
  \<^verbatim>\<open>try_lock_impl()\<close> never throws and succeeds exactly on a free mutex; a thread that has taken the library's mutex finds the counter at 0 in \<^verbatim>\<open>_post_lock()\<close>, a
  thread that unlocks what it has locked finds it at 1 in \<^verbatim>\<open>_pre_unlock()\<close>, and the library
  accepts the unlock; and the destructor of a mutex that nobody has locked, run in any such state,
  passes both of its assertions and returns. The two assertions of the constructor
  are on results of \<^verbatim>\<open>pthread_mutexattr_settype\<close> and \<^verbatim>\<open>pthread_mutex_init\<close>, which are taken to succeed.
\<close>
theorem mutex_assertions_hold:
  assumes "mreach A s"
  shows "(s_pc s t = Blocked a \<longrightarrow>
      (if owner_of s a = None then \<exists>w. lock_impl t (at a s) = Ret () w else lock_impl t (at a s) = Block (at a s))) \<and>
    (a \<in> A \<longrightarrow> (\<exists>w. try_lock_impl t (at a s) = Ret (owner_of s a = None) w)) \<and>
    (s_pc s t = Noted a \<longrightarrow> (\<exists>w. post_lock t (at a s) = Ret () w)) \<and>
    (a \<in> s_cs s t \<longrightarrow> (\<exists>w. pre_unlock t (at a s) = Ret () w)) \<and>
    (s_pc s t = Unnoted a \<longrightarrow> (\<exists>w. unlock_impl t (at a s) = Ret () w)) \<and>
    (a \<in> A \<and> owner_of s a = None \<longrightarrow> (\<exists>w. mutex_dtor (at a s) = Ret () w))"
proof -
  have inv: "msys_inv A s" by (rule mreach_inv [OF assms])
  have in_A: "a \<in> A" if "target (s_pc s t) = Some a \<or> a \<in> s_cs s t"
    using inv that by (auto simp: msys_inv_def objects_ok_def)
  show ?thesis
  proof (intro conjI impI)
    assume pc: "s_pc s t = Blocked a"
    show "if owner_of s a = None then \<exists>w. lock_impl t (at a s) = Ret () w else lock_impl t (at a s) = Block (at a s)"
      using blocked_not_owner [OF inv pc]
      by (auto simp: owner_of_def lock_impl_def lock_impl_result_def pthread_mutex_lock_def assert_that_def)
  next
    assume "a \<in> A"
    then show "\<exists>w. try_lock_impl t (at a s) = Ret (owner_of s a = None) w"
      using msys_inv_at(5) [OF inv]
      by (cases "pm_owner (pm (s_mx s a))")
        (simp_all add: owner_of_def try_lock_impl_def try_lock_impl_result_def pthread_mutex_trylock_def)
  next
    assume pc: "s_pc s t = Noted a"
    then show "\<exists>w. post_lock t (at a s) = Ret () w"
      using msys_inv_at(1) [OF inv in_A]
      by (auto simp: own1_def inside_def post_lock_def assert_that_def split: option.splits)
  next
    assume "a \<in> s_cs s t"
    then show "\<exists>w. pre_unlock t (at a s) = Ret () w"
      using msys_inv_at(1) [OF inv in_A]
      by (auto simp: own1_def pre_unlock_def assert_that_def Let_def split: option.splits)
  next
    assume "s_pc s t = Unnoted a"
    then show "\<exists>w. unlock_impl t (at a s) = Ret () w"
      using msys_inv_at(1) [OF inv in_A]
      by (auto simp: own1_def inside_def unlock_impl_def pthread_mutex_unlock_def assert_that_def)
  next
    assume a: "a \<in> A \<and> owner_of s a = None"
    note at = msys_inv_at [OF inv conjunct1 [OF a]]
    obtain l where "lockdep_unregister (m_id (s_mx s a)) (s_ld s) = Ret () l"
      using unregister_returns [OF at(2,4)] at(3) by (auto simp: key_def)
    moreover have "locked_count (s_mx s a) = 0" using at(1) a by (simp add: own1_def owner_of_def)
    ultimately show "\<exists>w. mutex_dtor (at a s) = Ret () w"
      using a by (simp add: mutex_dtor_def base_dtor_def base_unregister_def call_lockdep_def
          pthread_mutex_destroy_def owner_of_def assert_that_def)
  qed
qed

text \<open>Thread 7 holds a mutex and may unlock it; thread 8 waits for it.\<close>

theorem mutex_assertions_hold_witness:
  "(\<exists>w. pre_unlock 7 (at 0 sys1) = Ret () w) \<and>
    (\<exists>s. mreach {0, 1} s \<and> s_pc s 8 = Blocked 0 \<and> lock_impl 8 (at 0 s) = Block (at 0 s))"
proof -
  obtain s where s: "mreach {0, 1} s" "s_pc s 8 = Blocked 0" "owner_of s 0 = Some 7" using sys2_reach by blast
  then have "lock_impl 8 (at 0 s) = Block (at 0 s)" using mutex_assertions_hold [OF s(1), of 8 0] by simp
  then show ?thesis using mutex_assertions_hold [OF sys1_reach, of 7 0] sys1_facts s by auto
qed

text \<open>The waits-for relation: a blocked thread waits for the mutex's present owner.\<close>

definition waits_for :: "msys \<Rightarrow> (tid \<times> tid) set" where
  "waits_for s = {(t, u). \<exists>a. s_pc s t = Blocked a \<and> owner_of s a = Some u}"

definition waited :: "msys \<Rightarrow> tid \<Rightarrow> nat" where
  "waited s t = (case s_pc s t of Blocked a \<Rightarrow> key s a | _ \<Rightarrow> 0)"

lemma waits_for_follows:
  assumes inv: "msys_inv A s" and tu: "(t, u) \<in> waits_for s" and uv: "(u, v) \<in> waits_for s"
  shows "(waited s t, waited s u) \<in> follows (s_ld s)"
proof -
  obtain a where a: "s_pc s t = Blocked a" "owner_of s a = Some u" using tu by (auto simp: waits_for_def)
  obtain b where b: "s_pc s u = Blocked b" using uv by (auto simp: waits_for_def)
  have "a \<in> A" by (rule msys_inv_target [OF inv, of t]) (simp add: a)
  then have "key s a \<in> held_ids s u"
    using msys_inv_at(6) [OF inv, of a u] a b by simp
  then have "(key s a, key s b) \<in> follows (s_ld s)"
    using inv b by (simp add: msys_inv_def order_ok_def)
  then show ?thesis using a b by (simp add: waited_def)
qed

lemma waits_for_chain:
  assumes "msys_inv A s" "(t, u) \<in> (waits_for s)\<^sup>+" "(u, v) \<in> waits_for s"
  shows "(waited s t, waited s u) \<in> (follows (s_ld s))\<^sup>+"
  using assms(2,3)
proof (induction arbitrary: v rule: trancl_induct)
  case (base u)
  then show ?case using waits_for_follows [OF assms(1)] by blast
next
  case (step u w)
  then show ?case using waits_for_follows [OF assms(1) step.hyps(2) step.prems] step.IH
    by (meson trancl_into_trancl)
qed

text \<open>
  C1: freedom from deadlock. In every reachable state of any number of threads on checked
  mutexes, the relation \<open>t\<close> waits for a mutex owned by \<open>u\<close> has no cycle: what would become
  a circular wait has been stopped by the checker before.
\<close>
theorem no_circular_wait:
  assumes "mreach A s"
  shows "acyclic (waits_for s)"
  unfolding acyclic_def
proof (intro allI notI)
  fix t assume cycle: "(t, t) \<in> (waits_for s)\<^sup>+"
  have inv: "msys_inv A s" by (rule mreach_inv [OF assms])
  obtain u where "(t, u) \<in> waits_for s" using cycle by (meson converse_tranclE)
  then have "(waited s t, waited s t) \<in> (follows (s_ld s))\<^sup>+"
    using waits_for_chain [OF inv cycle] by blast
  then show False
    using inv by (simp add: msys_inv_def objects_ok_def lockdep_inv_def tree_inv_def acyclic_def)
qed

theorem no_circular_wait_witness:
  "\<exists>s. mreach {0, 1} s \<and> (8, 7) \<in> waits_for s \<and> acyclic (waits_for s)"
proof -
  obtain s where s: "mreach {0, 1} s" "s_pc s 8 = Blocked 0" "owner_of s 0 = Some 7"
    using sys2_reach by blast
  from no_circular_wait [OF s(1)] s show ?thesis by (auto simp: waits_for_def)
qed

end
