(* ===== verification/Mutex_Progress.thy ===== *)
theory Mutex_Progress
  imports Mutex_System
begin

text \<open>
  Progress of the interleaved mutexes: whenever a thread waits for a mutex, some thread on
  whose release it depends can take its next action. The chain of owners from a waiting thread
  ends because it climbs along the recorded lock order, which is finite and without cycles.
\<close>

section \<open>Threads that are not waiting can go on\<close>

text \<open>Thread \<open>u\<close> takes a step: its program point changes, that of no other thread does.\<close>

definition can_go :: "nat set \<Rightarrow> msys \<Rightarrow> tid \<Rightarrow> bool" where
  "can_go A s u \<longleftrightarrow> (\<exists>s'. mstep A s s' \<and> s_pc s' u \<noteq> s_pc s u \<and> (\<forall>v. v \<noteq> u \<longrightarrow> s_pc s' v = s_pc s v))"

lemma can_goI:
  assumes "mstep A s s'" "s_pc s' = (s_pc s)(u := p)" "p \<noteq> s_pc s u"
  shows "can_go A s u"
  unfolding can_go_def using assms by (intro exI [of _ s']) simp

lemma free_lock_impl:
  assumes "pm_owner (pm (mu s)) = None"
  shows "\<exists>w. lock_impl t s = Ret () w"
  using assms
  by (simp add: lock_impl_def pthread_mutex_lock_def lock_impl_result_def assert_that_def set_pm_def)

lemma try_lock_impl_total:
  assumes "pm_kind (pm (mu s)) = ERRORCHECK"
  shows "\<exists>b w. try_lock_impl t s = Ret b w"
  using assms
  by (cases "pm_owner (pm (mu s))")
    (auto simp: try_lock_impl_def pthread_mutex_trylock_def try_lock_impl_result_def)

lemma owner_can_go:
  assumes inv: "msys_inv A s" and a: "a \<in> A" and own: "owner_of s a = Some u" and idle: "s_pc s u = Idle"
  shows "can_go A s u"
proof -
  note at = msys_inv_at [OF inv a]
  have cs: "a \<in> s_cs s u" and "locked_count (s_mx s a) = 1"
    using at(1) own idle by (auto simp: own1_def owner_of_def inside_def)
  then obtain w where "pre_unlock u (at a s) = Ret () w"
    by (simp add: pre_unlock_def assert_that_def Let_def)
  from mstep.unlock [OF idle cs this] show ?thesis by (rule can_goI [where p = "Unlocking a"]) (simp_all add: idle)
qed

lemma active_can_go:
  assumes inv: "msys_inv A s" and pc: "target (s_pc s u) = Some a" "s_pc s u \<noteq> Blocked a"
  shows "can_go A s u"
proof -
  have a: "a \<in> A" by (rule msys_inv_target [OF inv pc(1)])
  note at = msys_inv_at [OF inv a]
  consider (trying) "s_pc s u = Trying a" | (acquired) "s_pc s u = Acquired a" | (noted) "s_pc s u = Noted a"
    | (unlocking) "s_pc s u = Unlocking a" | (unnoted) "s_pc s u = Unnoted a"
    using pc by (cases "s_pc s u") auto
  then show ?thesis
  proof cases
    case trying
    obtain b w where w: "try_lock_impl u (at a s) = Ret b w" using try_lock_impl_total at(5) by fastforce
    show ?thesis
    proof (cases b)
      case True
      then have "try_lock_impl u (at a s) = Ret True w" using w by simp
      from mstep.try_ok [OF trying this] show ?thesis
        by (rule can_goI [where p = "Acquired a"]) (simp_all add: trying)
    next
      case False
      then have "try_lock_impl u (at a s) = Ret False w" using w by simp
      from mstep.try_busy [OF trying this] show ?thesis
        by (rule can_goI [where p = "Blocked a"]) (simp_all add: trying)
    qed
  next
    case acquired
    obtain w where "base_locked u bt_demo (at a s) = Ret () w"
      using base_locked_eq [of "at a s" u bt_demo] at(3) by simp
    from mstep.note_lock [OF acquired this] show ?thesis by (rule can_goI [where p = "Noted a"]) (simp_all add: acquired)
  next
    case noted
    obtain w where "post_lock u (at a s) = Ret () w"
      using at(1) noted by (auto simp: own1_def inside_def post_lock_def assert_that_def split: option.splits)
    from mstep.post [OF noted this] show ?thesis by (rule can_goI [where p = "Idle"]) (simp_all add: noted)
  next
    case unlocking
    obtain w where "base_will_unlock u (at a s) = Ret () w"
      using base_will_unlock_eq [of "at a s" u] at(3) by simp
    from mstep.unnote [OF unlocking this] show ?thesis by (rule can_goI [where p = "Unnoted a"]) (simp_all add: unlocking)
  next
    case unnoted
    obtain w where "unlock_impl u (at a s) = Ret () w"
      using at(1) unnoted
      by (auto simp: own1_def inside_def unlock_impl_def pthread_mutex_unlock_def assert_that_def)
    from mstep.release [OF unnoted this] show ?thesis by (rule can_goI [where p = "Idle"]) (simp_all add: unnoted)
  qed
qed

section \<open>The chain of owners ends\<close>

lemma follows_wf:
  assumes "lockdep_inv s"
  shows "wf ((follows s)\<inverse>)"
proof -
  have "finite (follows s)"
    using follows_bounds(1) [of s] assms by (auto simp: lockdep_inv_def intro: finite_subset)
  moreover have "acyclic (follows s)" using assms by (simp add: lockdep_inv_def tree_inv_def)
  ultimately show ?thesis by (rule finite_acyclic_wf_converse)
qed

lemma blocked_chain:
  assumes inv: "msys_inv A s" and "s_pc s t = Blocked a"
  shows "\<exists>u. (t, u) \<in> (waits_for s)\<^sup>* \<and> can_go A s u"
proof -
  have "wf ((follows (s_ld s))\<inverse>)" by (rule follows_wf) (use inv in \<open>simp add: msys_inv_def objects_ok_def\<close>)
  then show ?thesis using assms(2)
  proof (induction "key s a" arbitrary: t a rule: wf_induct_rule)
    case (less a t)
    have a: "a \<in> A" by (rule msys_inv_target [OF inv, of t]) (simp add: less.prems)
    show ?case
    proof (cases "owner_of s a")
      case None
      then obtain w where "lock_impl t (at a s) = Ret () w" using free_lock_impl by (fastforce simp: owner_of_def)
      from mstep.wake [OF less.prems this, of A] have "can_go A s t" by (rule can_goI [where p = "Acquired a"]) (simp_all add: less.prems)
      then show ?thesis by blast
    next
      case (Some v)
      then have tv: "(t, v) \<in> waits_for s" using less.prems by (auto simp: waits_for_def)
      show ?thesis
      proof (cases "s_pc s v")
        case Idle
        then show ?thesis using owner_can_go [OF inv a Some] tv by blast
      next
        case (Blocked b)
        have "key s a \<in> held_ids s v" using msys_inv_at(6) [OF inv a, of v] Some Blocked by simp
        then have "(key s a, key s b) \<in> follows (s_ld s)"
          using inv Blocked by (simp add: msys_inv_def order_ok_def)
        then obtain u where "(v, u) \<in> (waits_for s)\<^sup>*" "can_go A s u" using less.hyps Blocked by auto
        then show ?thesis using tv by (meson converse_rtrancl_into_rtrancl)
      qed (use active_can_go [OF inv, of v] tv in auto)
    qed
  qed
qed

text \<open>
  C11: A waiting thread is never stuck for good. In every reachable state of any number of threads
  on checked mutexes, follow from a thread that is blocked in \<^verbatim>\<open>lock()\<close> the owners of the mutexes
  waited for: at the end is a thread that can take its next action at once. So the system as a
  whole never stands still while some thread waits.
\<close>
theorem mutex_progress:
  assumes "mreach A s" "s_pc s t = Blocked a"
  shows "\<exists>u s'. (t, u) \<in> (waits_for s)\<^sup>* \<and> mstep A s s' \<and> s_pc s' u \<noteq> s_pc s u \<and>
    (\<forall>v. v \<noteq> u \<longrightarrow> s_pc s' v = s_pc s v)"
  using blocked_chain [OF mreach_inv [OF assms(1)] assms(2)] by (auto simp: can_go_def)

theorem mutex_progress_witness:
  "\<exists>s u s'. mreach {0, 1} s \<and> s_pc s 8 = Blocked 0 \<and> (8, u) \<in> (waits_for s)\<^sup>* \<and> mstep {0, 1} s s'"
proof -
  obtain s where s: "mreach {0, 1} s" "s_pc s 8 = Blocked 0" using sys2_reach by blast
  from mutex_progress [OF this] s show ?thesis by blast
qed

end
