(* ===== verification/Recursive_Mutex.thy ===== *)
theory Recursive_Mutex
  imports Pthread
begin

text \<open>
  \<^verbatim>\<open>synchronization/mutex_recursive.h\<close>: the recursive mutex with its 32-bit atomic counter.
  The counter is a machine word: \<^verbatim>\<open>fetch_add\<close> wraps, and the assertion in
  \<^verbatim>\<open>_pre_unlock()\<close> reads it as a signed number.
\<close>

section \<open>Operations\<close>

record mutex_recursive =
  rm :: pmutex
  lock_count :: "32 word"

definition recursive_ctor :: mutex_recursive where
  "recursive_ctor = \<lparr>rm = pthread_mutex_init RECURSIVE, lock_count = 0\<rparr>"

text \<open>The destructor ignores the result of \<^verbatim>\<open>pthread_mutex_destroy\<close>.\<close>

definition recursive_dtor :: "mutex_recursive \<Rightarrow> (unit, mutex_recursive) outcome" where
  "recursive_dtor s = (let r = pthread_mutex_destroy (rm s) in Ret () s)"

definition recursive_post_lock :: "mutex_recursive \<Rightarrow> (unit, mutex_recursive) outcome" where
  "recursive_post_lock s = Ret () (s\<lparr>lock_count := lock_count s + 1\<rparr>)"

definition recursive_pre_unlock :: "mutex_recursive \<Rightarrow> (unit, mutex_recursive) outcome" where
  "recursive_pre_unlock s =
     bind (assert_that (0 < sint (lock_count s)) s) (\<lambda>_ s.
     Ret () (s\<lparr>lock_count := lock_count s - 1\<rparr>))"

definition recursive_try_lock :: "tid \<Rightarrow> mutex_recursive \<Rightarrow> (bool, mutex_recursive) outcome" where
  "recursive_try_lock t s =
     (case pthread_mutex_trylock t (rm s) of
        (r, p) \<Rightarrow>
          if r = 0 then bind (recursive_post_lock (s\<lparr>rm := p\<rparr>)) (\<lambda>_ s. Ret True s)
          else if r = EBUSY then Ret False s
          else Throw (System_error r) s)"

definition recursive_lock :: "tid \<Rightarrow> mutex_recursive \<Rightarrow> (unit, mutex_recursive) outcome" where
  "recursive_lock t s =
     bind (recursive_try_lock t s) (\<lambda>locked s.
     if locked then Ret () s
     else
       (case pthread_mutex_lock t (rm s) of
          None \<Rightarrow> Block s
        | Some (r, p) \<Rightarrow>
            if r = EBUSY \<or> r = EPERM \<or> r = EDEADLK then Throw (System_error r) s
            else recursive_post_lock (s\<lparr>rm := p\<rparr>)))"

definition recursive_unlock :: "tid \<Rightarrow> mutex_recursive \<Rightarrow> (unit, mutex_recursive) outcome" where
  "recursive_unlock t s =
     bind (recursive_pre_unlock s) (\<lambda>_ s.
     case pthread_mutex_unlock t (rm s) of
       (r, p) \<Rightarrow> bind (assert_that (r = 0) (s\<lparr>rm := p\<rparr>)) (\<lambda>_ s. Ret () s))"

section \<open>Invariant: the counter is the depth, at its width\<close>

definition recursive_inv :: "mutex_recursive \<Rightarrow> bool" where
  "recursive_inv s \<longleftrightarrow> pm_kind (rm s) = RECURSIVE \<and> (pm_owner (rm s) = None \<longleftrightarrow> pm_count (rm s) = 0) \<and>
     lock_count s = word_of_nat (pm_count (rm s))"

definition depth :: "tid \<Rightarrow> mutex_recursive \<Rightarrow> nat" where
  "depth t s = (if pm_owner (rm s) = Some t then pm_count (rm s) else 0)"

lemma recursive_ctor_inv: "recursive_inv recursive_ctor"
  by (simp add: recursive_inv_def recursive_ctor_def pthread_mutex_init_def)

definition held_at :: "tid \<Rightarrow> nat \<Rightarrow> mutex_recursive" where
  "held_at t n =
     \<lparr>rm = \<lparr>pm_kind = RECURSIVE, pm_owner = (if n = 0 then None else Some t), pm_count = n\<rparr>,
      lock_count = word_of_nat n\<rparr>"

lemma held_at_0: "held_at t 0 = recursive_ctor"
  by (simp add: held_at_def recursive_ctor_def pthread_mutex_init_def)

lemma held_at_iff:
  "recursive_inv s \<and> (pm_owner (rm s) = None \<or> pm_owner (rm s) = Some t) \<longleftrightarrow>
     s = held_at t (pm_count (rm s))"
  by (cases s; cases "rm s") (auto simp: recursive_inv_def held_at_def)

lemmas recursive_defs =
  recursive_lock_def recursive_try_lock_def recursive_post_lock_def recursive_unlock_def
  recursive_pre_unlock_def pthread_mutex_trylock_def pthread_mutex_lock_def
  pthread_mutex_unlock_def pm_take_def pm_again_def assert_that_def

lemma lock_held_at:
  assumes "n < max_recursion"
  shows "recursive_lock t (held_at t n) = Ret () (held_at t (Suc n))"
  using assms by (simp add: recursive_defs held_at_def add.commute)

lemma sint_word_of_nat_pos:
  "n < 2 ^ 31 \<Longrightarrow> sint (word_of_nat n :: 32 word) = int n"
  by (simp add: sint_uint unsigned_of_nat take_bit_nat_eq_self signed_take_bit_int_eq_self)

lemma unlock_held_at:
  assumes "n < 2 ^ 31 - 1"
  shows "recursive_unlock t (held_at t (Suc n)) = Ret () (held_at t n)"
proof -
  have "sint (word_of_nat (Suc n) :: 32 word) = int (Suc n)"
    by (rule sint_word_of_nat_pos) (use assms in simp)
  moreover have "(word_of_nat (Suc n) :: 32 word) - 1 = word_of_nat n" by simp
  ultimately show ?thesis
    by (simp add: recursive_defs held_at_def del: of_nat_Suc)
qed

fun repeat :: "nat \<Rightarrow> ('s \<Rightarrow> (unit, 's) outcome) \<Rightarrow> 's \<Rightarrow> (unit, 's) outcome" where
  "repeat 0 f s = Ret () s"
| "repeat (Suc n) f s = bind (f s) (\<lambda>_ s. repeat n f s)"

lemma repeat_lock:
  assumes "m + n \<le> max_recursion"
  shows "repeat n (recursive_lock t) (held_at t m) = Ret () (held_at t (m + n))"
  using assms by (induction n arbitrary: m) (auto simp: lock_held_at)

lemma repeat_unlock:
  assumes "n \<le> m" "m < 2 ^ 31"
  shows "repeat n (recursive_unlock t) (held_at t m) = Ret () (held_at t (m - n))"
  using assms
proof (induction n arbitrary: m)
  case (Suc n)
  then obtain k where k: "m = Suc k" by (cases m) auto
  then show ?case using Suc unlock_held_at [of k t] by simp
qed simp

text \<open>
  C38: nested locking. A thread that takes the recursive mutex \<open>n\<close> times and releases it
  \<open>n\<close> times, for any \<open>n\<close> below \<open>2\<^sup>3\<^sup>1\<close>, leaves it as it found it: free, with the counter at 0,
  without waiting, throwing or failing an assertion.
\<close>
theorem recursive_nesting:
  assumes "n < 2 ^ 31"
  shows "repeat n (recursive_lock t) recursive_ctor = Ret () (held_at t n) \<and>
    repeat n (recursive_unlock t) (held_at t n) = Ret () recursive_ctor"
  using repeat_lock [of 0 n t] repeat_unlock [of n n t] assms
  by (simp add: held_at_0 max_recursion_def)

theorem recursive_nesting_witness:
  "repeat 2 (recursive_unlock 1) (held_at 1 2) = Ret () recursive_ctor"
  using recursive_nesting [of 2 1] by simp

text \<open>
  the counter's width. At depth \<open>2\<^sup>3\<^sup>1\<close> the mutex is still properly held, but the signed
  reading of the wrapped counter is negative and the next unlock fails its assertion.
\<close>
theorem recursive_counter_wraps:
  "repeat (2 ^ 31) (recursive_lock t) recursive_ctor = Ret () (held_at t (2 ^ 31)) \<and>
   recursive_unlock t (held_at t (2 ^ 31)) = Abort"
proof -
  have "repeat (2 ^ 31) (recursive_lock t) (held_at t 0) = Ret () (held_at t (0 + 2 ^ 31))"
    by (rule repeat_lock) (simp add: max_recursion_def)
  moreover have "recursive_unlock t (held_at t (2 ^ 31)) = Abort"
    by (simp add: recursive_defs held_at_def)
  ultimately show ?thesis by (simp add: held_at_0 del: of_nat_power)
qed

text \<open>
  exclusion of other threads. While one thread holds the recursive mutex, another
  thread's \<^verbatim>\<open>try_lock()\<close> returns false and its \<^verbatim>\<open>lock()\<close> waits, both without any effect,
  and its \<^verbatim>\<open>unlock()\<close> does not return.
\<close>
theorem recursive_excludes_others:
  assumes "0 < n" "u \<noteq> t"
  shows "recursive_try_lock u (held_at t n) = Ret False (held_at t n) \<and>
    recursive_lock u (held_at t n) = Block (held_at t n) \<and>
    recursive_unlock u (held_at t n) = Abort"
  using assms by (auto simp: recursive_defs held_at_def)

theorem recursive_excludes_others_witness:
  "recursive_lock 2 (held_at 1 3) = Block (held_at 1 3)"
  using recursive_excludes_others [of 3 2 1] by simp

end
