(* ===== verification/Condvar.thy ===== *)
theory Condvar
  imports Mutex "HOL-Library.Signed_Division"
begin

text \<open>
  \<^verbatim>\<open>synchronization/condition_variable.h\<close> and \<^verbatim>\<open>condition_variable.cc\<close>, with
  \<^verbatim>\<open>to_timespec\<close> of \<^verbatim>\<open>synchronization/utils.h\<close>. A wait is cut where
  \<^verbatim>\<open>pthread_cond_wait\<close> sleeps: \<open>cv_wait\<close> runs up to there and ends in \<open>Block\<close>, and
  \<open>cv_wait_resume\<close> runs from the wake-up on. The second half of the theory interleaves threads
  that use one condition variable with its mutex.
\<close>

section \<open>\<^verbatim>\<open>to_timespec\<close>\<close>

text \<open>A time point of the steady clock is a signed number of nanoseconds; the casts truncate.\<close>

record timespec =
  tv_sec :: int
  tv_nsec :: int

definition to_timespec :: "int \<Rightarrow> timespec" where
  "to_timespec epoch =
     (let seconds = epoch sdiv 1000000000;
          nanoseconds = epoch - seconds * 1000000000
      in \<lparr>tv_sec = seconds, tv_nsec = nanoseconds\<rparr>)"

definition timespec_valid :: "timespec \<Rightarrow> bool" where
  "timespec_valid ts \<longleftrightarrow> 0 \<le> tv_nsec ts \<and> tv_nsec ts < 1000000000"

section \<open>The object and its world\<close>

text \<open>
  \<open>waiter_mutex\<close> is the address of a mutex or null; \<open>cond_waiters\<close> are the threads asleep in
  the library's condition variable. The world holds the mutexes by address and the checker.
\<close>

record condvar =
  waiter_mutex :: "nat option"
  cond_waiters :: "tid list"

record cvworld =
  cv_ld :: lockdep_state
  cv_mx :: "nat \<Rightarrow> mutex_debug"
  cv :: condvar

datatype cv_status = No_timeout | Timeout

text \<open>The constructor; \<open>r\<close> is what \<^verbatim>\<open>pthread_cond_init\<close> returns.\<close>

definition new_condvar :: condvar where
  "new_condvar = \<lparr>waiter_mutex = None, cond_waiters = []\<rparr>"

definition condvar_ctor :: "errno \<Rightarrow> (unit, condvar) outcome" where
  "condvar_ctor r = (if r \<noteq> 0 then Throw (System_error r) new_condvar else Ret () new_condvar)"

text \<open>The destructor; destroying a condition variable in which a thread sleeps is undefined.\<close>

definition condvar_dtor :: "condvar \<Rightarrow> (unit, condvar) outcome" where
  "condvar_dtor c = (if cond_waiters c \<noteq> [] then Undef else Ret () c)"

definition mutex_at :: "nat \<Rightarrow> cvworld \<Rightarrow> mstate" where
  "mutex_at a s = \<lparr>ld = cv_ld s, mu = cv_mx s a\<rparr>"

definition put_mutex :: "nat \<Rightarrow> cvworld \<Rightarrow> mstate \<Rightarrow> cvworld" where
  "put_mutex a s w = s\<lparr>cv_ld := ld w, cv_mx := (cv_mx s)(a := mu w)\<rparr>"

text \<open>A method call on the mutex at an address.\<close>

definition on_mutex ::
  "nat \<Rightarrow> (mstate \<Rightarrow> ('a, mstate) outcome) \<Rightarrow> cvworld \<Rightarrow> ('a, cvworld) outcome" where
  "on_mutex a f s = lift_state (put_mutex a s) (f (mutex_at a s))"

definition set_waiters :: "tid list \<Rightarrow> cvworld \<Rightarrow> cvworld" where
  "set_waiters ws s = s\<lparr>cv := (cv s)\<lparr>cond_waiters := ws\<rparr>\<rparr>"

section \<open>Waiting\<close>

text \<open>The common prologue of \<^verbatim>\<open>wait\<close> and \<^verbatim>\<open>_wait_until\<close>.\<close>

definition cv_claim :: "tid \<Rightarrow> nat \<Rightarrow> cvworld \<Rightarrow> (unit, cvworld) outcome" where
  "cv_claim t a s =
     bind (assert_that (waiter_mutex (cv s) = None \<or> waiter_mutex (cv s) = Some a) s) (\<lambda>_ s.
     bind (Ret () (s\<lparr>cv := (cv s)\<lparr>waiter_mutex := Some a\<rparr>\<rparr>)) (\<lambda>_ s.
     bind (assert_that (is_locked (cv_mx s a)) s) (\<lambda>_ s.
     on_mutex a (pre_unlock t) s)))"

text \<open>
  The first half of \<^verbatim>\<open>pthread_cond_wait\<close> as POSIX documents it: an error is returned before
  the mutex is touched; otherwise releasing it and going to sleep is one action.
\<close>

definition cond_sleep :: "tid \<Rightarrow> nat \<Rightarrow> cvworld \<Rightarrow> errno \<times> cvworld" where
  "cond_sleep t a s =
     (case pthread_mutex_unlock t (pm (cv_mx s a)) of
        (r, p) \<Rightarrow>
          if r \<noteq> 0 then (r, s)
          else (0, set_waiters (cond_waiters (cv s) @ [t]) (put_mutex a s (set_pm p (mutex_at a s)))))"

definition cv_wait :: "tid \<Rightarrow> nat \<Rightarrow> cvworld \<Rightarrow> (unit, cvworld) outcome" where
  "cv_wait t a s =
     bind (cv_claim t a s) (\<lambda>_ s.
     case cond_sleep t a s of
       (r, s') \<Rightarrow> if r \<noteq> 0 then Throw (System_error r) s' else Block s')"

text \<open>
  The second half: the mutex is taken again (waiting for it if need be), then the source goes
  on with the return code \<open>r\<close>.
\<close>

definition cond_relock :: "tid \<Rightarrow> cvworld \<Rightarrow> (nat, cvworld) outcome" where
  "cond_relock t s =
     (case waiter_mutex (cv s) of
        None \<Rightarrow> Undef
      | Some a \<Rightarrow>
          (case pthread_mutex_lock t (pm (cv_mx s a)) of
             None \<Rightarrow> Block s
           | Some (r, p) \<Rightarrow> Ret a (put_mutex a s (set_pm p (mutex_at a s)))))"

definition cv_wait_resume :: "errno \<Rightarrow> tid \<Rightarrow> cvworld \<Rightarrow> (unit, cvworld) outcome" where
  "cv_wait_resume r t s =
     bind (cond_relock t s) (\<lambda>a s.
     if r \<noteq> 0 then Throw (System_error r) s else on_mutex a (post_lock t) s)"

text \<open>\<^verbatim>\<open>_wait_until\<close>: the code after \<^verbatim>\<open>pthread_cond_timedwait\<close> has returned \<open>r\<close>.\<close>

definition wait_until_result :: "errno \<Rightarrow> tid \<Rightarrow> nat \<Rightarrow> cvworld \<Rightarrow> (cv_status, cvworld) outcome" where
  "wait_until_result r t a s =
     bind (on_mutex a (post_lock t) s) (\<lambda>_ s.
     if r = 0 then Ret No_timeout s
     else if r = ETIMEDOUT then Ret Timeout s
     else Throw (System_error r) s)"

definition cv_wait_until :: "tid \<Rightarrow> nat \<Rightarrow> int \<Rightarrow> cvworld \<Rightarrow> (cv_status, cvworld) outcome" where
  "cv_wait_until t a abs_time s =
     bind (cv_claim t a s) (\<lambda>_ s.
     if \<not> timespec_valid (to_timespec abs_time) then wait_until_result EINVAL t a s
     else
       (case cond_sleep t a s of
          (r, s') \<Rightarrow> if r \<noteq> 0 then wait_until_result r t a s' else Block s'))"

definition cv_wait_until_resume :: "errno \<Rightarrow> tid \<Rightarrow> cvworld \<Rightarrow> (cv_status, cvworld) outcome" where
  "cv_wait_until_resume r t s =
     bind (cond_relock t s) (\<lambda>a s. wait_until_result r t a s)"

definition wait_until :: "tid \<Rightarrow> nat \<Rightarrow> int \<Rightarrow> cvworld \<Rightarrow> (cv_status, cvworld) outcome" where
  "wait_until t a when s = cv_wait_until t a when s"

text \<open>
  \<^verbatim>\<open>wait_for\<close> adds the duration to the clock's value \<open>now\<close>, in 64-bit signed nanoseconds.
\<close>

definition int64 :: "int \<Rightarrow> bool" where
  "int64 x \<longleftrightarrow> - (2 ^ 63) \<le> x \<and> x < 2 ^ 63"

definition cv_wait_for :: "int \<Rightarrow> tid \<Rightarrow> nat \<Rightarrow> int \<Rightarrow> cvworld \<Rightarrow> (cv_status, cvworld) outcome" where
  "cv_wait_for now t a awhile s =
     (if int64 (now + awhile) then cv_wait_until t a (now + awhile) s else Undef)"

section \<open>Notification\<close>

text \<open>
  \<open>woken\<close> are the sleeping threads that \<^verbatim>\<open>pthread_cond_signal\<close> unblocks: at least one when
  there are any.
\<close>

definition cv_may_notify :: "cvworld \<Rightarrow> bool" where
  "cv_may_notify s \<longleftrightarrow>
     (case waiter_mutex (cv s) of None \<Rightarrow> True | Some a \<Rightarrow> is_locked (cv_mx s a))"

definition notify_one :: "errno \<Rightarrow> tid list \<Rightarrow> cvworld \<Rightarrow> (unit, cvworld) outcome" where
  "notify_one r woken s =
     bind (assert_that (cv_may_notify s) s) (\<lambda>_ s.
     if r \<noteq> 0 then Throw (System_error r) s
     else Ret () (set_waiters (filter (\<lambda>t. t \<notin> set woken) (cond_waiters (cv s))) s))"

definition notify_all :: "errno \<Rightarrow> cvworld \<Rightarrow> (unit, cvworld) outcome" where
  "notify_all r s =
     bind (assert_that (cv_may_notify s) s) (\<lambda>_ s.
     if r \<noteq> 0 then Throw (System_error r) s else Ret () (set_waiters [] s))"

section \<open>Time points\<close>

lemma sdiv_nonneg: "0 \<le> (x :: int) \<Longrightarrow> 0 < y \<Longrightarrow> x sdiv y = x div y"
  by (simp add: signed_divide_int_def sgn_if)

text \<open>
  a time point at or after the epoch becomes a valid \<^verbatim>\<open>timespec\<close> that denotes the same
  number of nanoseconds, and a later time point one that is later in the order of seconds and
  nanoseconds. For a time point before the epoch the sum is still right, but the nanoseconds
  are not positive.
\<close>
theorem to_timespec_exact:
  "tv_sec (to_timespec x) * 1000000000 + tv_nsec (to_timespec x) = x \<and>
   (0 \<le> x \<longrightarrow> timespec_valid (to_timespec x)) \<and>
   (x \<le> 0 \<longrightarrow> tv_nsec (to_timespec x) \<le> 0 \<and> - 1000000000 < tv_nsec (to_timespec x)) \<and>
   (0 \<le> x \<and> x < y \<longrightarrow> tv_sec (to_timespec x) < tv_sec (to_timespec y) \<or>
      tv_sec (to_timespec x) = tv_sec (to_timespec y) \<and>
      tv_nsec (to_timespec x) < tv_nsec (to_timespec y))"
proof (intro conjI impI)
  show "tv_sec (to_timespec x) * 1000000000 + tv_nsec (to_timespec x) = x"
    by (simp add: to_timespec_def Let_def)
  show "timespec_valid (to_timespec x)" if "0 \<le> x"
    using that by (simp add: to_timespec_def Let_def timespec_valid_def sdiv_nonneg
        minus_div_mult_eq_mod)
  have neg: "x sdiv 1000000000 = - (- x div 1000000000)" if "x \<le> 0"
    using that by (cases "x = 0") (simp_all add: signed_divide_int_def sgn_if)
  have split: "- x = (- x div 1000000000) * 1000000000 + - x mod 1000000000" by simp
  have "0 \<le> - x mod 1000000000" "- x mod 1000000000 < 1000000000" by simp_all
  then show "tv_nsec (to_timespec x) \<le> 0" "- 1000000000 < tv_nsec (to_timespec x)" if "x \<le> 0"
    using that neg split by (simp_all add: to_timespec_def Let_def)
  assume xy: "0 \<le> x \<and> x < y"
  have "x div 1000000000 \<le> y div 1000000000" using xy by (simp add: zdiv_mono1)
  then show "tv_sec (to_timespec x) < tv_sec (to_timespec y) \<or>
      tv_sec (to_timespec x) = tv_sec (to_timespec y) \<and>
      tv_nsec (to_timespec x) < tv_nsec (to_timespec y)"
    using xy by (auto simp: to_timespec_def Let_def sdiv_nonneg)
qed

theorem to_timespec_exact_witness:
  "timespec_valid (to_timespec 1500000000) \<and> tv_nsec (to_timespec (- 1500000000)) \<le> 0"
  using to_timespec_exact [of 1500000000 0] to_timespec_exact [of "- 1500000000" 0] by simp

section \<open>One wait, with and without the checker\<close>

lemma mutex_at_simps [simp]:
  "ld (mutex_at a s) = cv_ld s"
  "mu (mutex_at a s) = cv_mx s a"
  "mutex_at a (put_mutex a s w) = w"
  "b \<noteq> a \<Longrightarrow> mu (mutex_at b (put_mutex a s w)) = mu (mutex_at b s)"
  "mutex_at a (set_waiters ws s) = mutex_at a s"
  "mutex_at a (s\<lparr>cv := c\<rparr>) = mutex_at a s"
  by (simp_all add: mutex_at_def put_mutex_def set_waiters_def)

lemma cv_simps [simp]:
  "cv (put_mutex a s w) = cv s"
  "cv (set_waiters ws s) = (cv s)\<lparr>cond_waiters := ws\<rparr>"
  "cv_ld (set_waiters ws s) = cv_ld s"
  "cv_mx (set_waiters ws s) = cv_mx s"
  "cv_ld (put_mutex a s w) = ld w"
  "cv_mx (put_mutex a s w) = (cv_mx s)(a := mu w)"
  by (simp_all add: put_mutex_def set_waiters_def)

definition waits_on :: "nat \<Rightarrow> cvworld \<Rightarrow> bool" where
  "waits_on a s \<longleftrightarrow> waiter_mutex (cv s) = None \<or> waiter_mutex (cv s) = Some a"

text \<open>The mutex as the sleeping owner leaves it.\<close>

definition freed :: "tid \<Rightarrow> mutex_debug \<Rightarrow> mutex_debug" where
  "freed t m = m\<lparr>locked_by := Some t, locked_count := 0,
     pm := (pm m)\<lparr>pm_owner := None, pm_count := 0\<rparr>\<rparr>"

definition taken :: "tid \<Rightarrow> mutex_debug \<Rightarrow> mutex_debug" where
  "taken t m = m\<lparr>pm := pm_take t (pm m), locked_by := Some t, locked_count := 1\<rparr>"

definition asleep :: "tid \<Rightarrow> nat \<Rightarrow> cvworld \<Rightarrow> cvworld" where
  "asleep t a s =
     s\<lparr>cv_mx := (cv_mx s)(a := freed t (cv_mx s a)),
       cv := \<lparr>waiter_mutex = Some a, cond_waiters = cond_waiters (cv s) @ [t]\<rparr>\<rparr>"

lemma freed_inv: "mutex_inv m \<Longrightarrow> mutex_inv (freed t m)"
  by (simp add: mutex_inv_def freed_def)

lemma taken_inv: "mutex_inv m \<Longrightarrow> mutex_inv (taken t m)"
  by (simp add: mutex_inv_def taken_def pm_take_def)

lemma cv_claim_owner:
  assumes "mutex_inv (cv_mx s a)" "pm_owner (pm (cv_mx s a)) = Some t" "waits_on a s"
  shows "cv_claim t a s = Ret () (s\<lparr>cv_mx := (cv_mx s)
      (a := (cv_mx s a)\<lparr>locked_by := Some t, locked_count := 0\<rparr>),
    cv := (cv s)\<lparr>waiter_mutex := Some a\<rparr>\<rparr>)"
  using assms
  by (simp add: cv_claim_def assert_that_def is_locked_def on_mutex_def pre_unlock_def
      mutex_inv_def waits_on_def put_mutex_def mutex_at_def)

lemma cv_wait_owner:
  assumes "mutex_inv (cv_mx s a)" "pm_owner (pm (cv_mx s a)) = Some t" "waits_on a s"
  shows "cv_wait t a s = Block (asleep t a s)"
    and "0 \<le> when \<Longrightarrow> cv_wait_until t a when s = Block (asleep t a s)"
proof -
  have c: "pm_count (pm (cv_mx s a)) = 1" using assms(1,2) by (simp add: mutex_inv_def)
  show "cv_wait t a s = Block (asleep t a s)"
    using assms(2) c unfolding cv_wait_def cv_claim_owner [OF assms]
    by (simp add: cond_sleep_def pthread_mutex_unlock_def asleep_def freed_def set_waiters_def
        put_mutex_def mutex_at_def set_pm_def)
  assume "0 \<le> when"
  then have "timespec_valid (to_timespec when)"
    by (simp add: to_timespec_def Let_def timespec_valid_def sdiv_nonneg minus_div_mult_eq_mod)
  then show "cv_wait_until t a when s = Block (asleep t a s)"
    using assms(2) c unfolding cv_wait_until_def cv_claim_owner [OF assms]
    by (simp add: cond_sleep_def pthread_mutex_unlock_def asleep_def freed_def set_waiters_def
        put_mutex_def mutex_at_def set_pm_def)
qed

lemma cond_relock_free:
  assumes "waiter_mutex (cv s) = Some a" "pm_owner (pm (cv_mx s a)) = None"
  shows "cond_relock t s = Ret a (s\<lparr>cv_mx := (cv_mx s)
      (a := (cv_mx s a)\<lparr>pm := pm_take t (pm (cv_mx s a))\<rparr>)\<rparr>)"
  using assms by (simp add: cond_relock_def pthread_mutex_lock_def put_mutex_def set_pm_def mutex_at_def)

lemma resume_free:
  assumes "waiter_mutex (cv s) = Some a" "mutex_inv (cv_mx s a)" "pm_owner (pm (cv_mx s a)) = None"
  shows "cv_wait_resume 0 t s = Ret () (s\<lparr>cv_mx := (cv_mx s)(a := taken t (cv_mx s a))\<rparr>)"
    and "cv_wait_until_resume 0 t s = Ret No_timeout (s\<lparr>cv_mx := (cv_mx s)(a := taken t (cv_mx s a))\<rparr>)"
    and "cv_wait_until_resume ETIMEDOUT t s =
      Ret Timeout (s\<lparr>cv_mx := (cv_mx s)(a := taken t (cv_mx s a))\<rparr>)"
  using assms(2,3) unfolding cv_wait_resume_def cv_wait_until_resume_def cond_relock_free [OF assms(1,3)]
  by (simp_all add: on_mutex_def post_lock_def assert_that_def mutex_inv_def taken_def
      put_mutex_def mutex_at_def wait_until_result_def)

lemma resume_busy:
  assumes "waiter_mutex (cv s) = Some a" "pm_owner (pm (cv_mx s a)) = Some u" "u \<noteq> t"
  shows "cv_wait_resume r t s = Block s" "cv_wait_until_resume r t s = Block s"
  using assms
  by (simp_all add: cv_wait_resume_def cv_wait_until_resume_def cond_relock_def pthread_mutex_lock_def)

text \<open>
  one wait with the checker on. The owner of the mutex goes to sleep: the mutex becomes
  free and the thread is queued, and the checker is not told, so it still lists the mutex
  among the thread's held locks. When the thread is woken and the mutex is free, it owns the
  mutex again and the object's invariant with the checker holds. The re-acquisition is not
  announced either: the checker's state is the same before and after.
\<close>
theorem cv_wait_round:
  assumes "dep_inv (mutex_at a s)" "owner (mutex_at a s) = Some t" "waits_on a s"
  shows "cv_wait t a s = Block (asleep t a s) \<and>
    owner (mutex_at a (asleep t a s)) = None \<and> t \<in> set (cond_waiters (cv (asleep t a s))) \<and>
    nat (m_id (cv_mx s a)) \<in> smap_keys (held_locks (cv_ld (asleep t a s)) t) \<and>
    (let w = set_waiters (filter (\<lambda>u. u \<noteq> t) (cond_waiters (cv (asleep t a s)))) (asleep t a s)
     in \<exists>w'. cv_wait_resume 0 t w = Ret () w' \<and> dep_inv (mutex_at a w') \<and>
          owner (mutex_at a w') = Some t \<and> cv_ld w' = cv_ld s)"
proof -
  have m: "mutex_inv (cv_mx s a)" "pm_owner (pm (cv_mx s a)) = Some t"
    using assms(1,2) by (auto simp: dep_inv_def owner_def)
  let ?w = "set_waiters (filter (\<lambda>u. u \<noteq> t) (cond_waiters (cv (asleep t a s)))) (asleep t a s)"
  have w: "waiter_mutex (cv ?w) = Some a" "mutex_inv (cv_mx ?w a)" "pm_owner (pm (cv_mx ?w a)) = None"
    using m by (simp_all add: asleep_def freed_inv) (simp add: freed_def)
  let ?w' = "?w\<lparr>cv_mx := (cv_mx ?w)(a := taken t (cv_mx ?w a))\<rparr>"
  have "dep_inv (mutex_at a ?w')"
    using assms(1,2) taken_inv [OF w(2), of t]
    by (auto simp: dep_inv_def owner_def asleep_def freed_def taken_def pm_take_def)
  moreover have "owner (mutex_at a ?w') = Some t" "cv_ld ?w' = cv_ld s"
    by (simp_all add: owner_def taken_def pm_take_def asleep_def)
  moreover have "nat (m_id (cv_mx s a)) \<in> smap_keys (held_locks (cv_ld s) t)"
    using assms(1,2) by (simp add: dep_inv_def)
  ultimately show ?thesis
    using cv_wait_owner(1) [OF m assms(3)] resume_free(1) [OF w]
    by (auto simp: Let_def owner_def asleep_def freed_def)
qed

definition cv_demo :: "mstate \<Rightarrow> cvworld" where
  "cv_demo w = \<lparr>cv_ld = ld w, cv_mx = (\<lambda>_. mu w), cv = new_condvar\<rparr>"

lemma cv_demo_simps [simp]:
  "mutex_at a (cv_demo w) = w" "waits_on a (cv_demo w)" "cv_mx (cv_demo w) a = mu w"
  by (simp_all add: cv_demo_def mutex_at_def waits_on_def new_condvar_def)

theorem cv_wait_round_witness:
  "\<exists>w. mutex_try_lock 7 bt_demo mutex_demo = Ret True w \<and>
     cv_wait 7 0 (cv_demo w) = Block (asleep 7 0 (cv_demo w)) \<and>
     owner (mutex_at 0 (asleep 7 0 (cv_demo w))) = None"
proof -
  have "owner mutex_demo = None"
    by (simp add: owner_def mutex_demo_def new_mutex_def pthread_mutex_init_def)
  then obtain w where w: "mutex_try_lock 7 bt_demo mutex_demo = Ret True w" "dep_inv w" "owner w = Some 7"
    using acquire_dep [OF mutex_demo_inv, of 7 bt_demo] by blast
  then show ?thesis using cv_wait_round [of 0 "cv_demo w" 7] by simp
qed

section \<open>Calls without the mutex\<close>

text \<open>
  a notification without the mutex. Once any thread has waited on the condition variable,
  \<^verbatim>\<open>notify_one()\<close> and \<^verbatim>\<open>notify_all()\<close> end the process whenever nobody holds the mutex; with
  the mutex held by some thread they return, and \<^verbatim>\<open>notify_all()\<close> leaves nobody asleep.
\<close>
theorem notify_needs_mutex:
  assumes "waiter_mutex (cv s) = Some a" "mutex_inv (cv_mx s a)"
  shows "if owner (mutex_at a s) = None
    then notify_one 0 woken s = Abort \<and> notify_all 0 s = Abort
    else (\<exists>s'. notify_one 0 woken s = Ret () s' \<and>
        set (cond_waiters (cv s')) = set (cond_waiters (cv s)) - set woken) \<and>
      (\<exists>s'. notify_all 0 s = Ret () s' \<and> cond_waiters (cv s') = [])"
  using assms mutex_inv_is_locked(1) [OF assms(2)]
  by (auto simp: notify_one_def notify_all_def cv_may_notify_def assert_that_def owner_def)

theorem notify_needs_mutex_witness:
  "notify_all 0 \<lparr>cv_ld = lockdep_init, cv_mx = (\<lambda>_. new_mutex ''m'' False),
     cv = \<lparr>waiter_mutex = Some 0, cond_waiters = []\<rparr>\<rparr> = Abort"
proof -
  let ?s = "\<lparr>cv_ld = lockdep_init, cv_mx = (\<lambda>_. new_mutex ''m'' False),
     cv = \<lparr>waiter_mutex = Some 0, cond_waiters = []\<rparr>\<rparr>"
  have "waiter_mutex (cv ?s) = Some 0" "mutex_inv (cv_mx ?s 0)"
    by (simp_all add: mutex_inv_def new_mutex_def pthread_mutex_init_def)
  from notify_needs_mutex [OF this] show ?thesis
    by (simp add: owner_def new_mutex_def pthread_mutex_init_def)
qed

text \<open>
  waiting on a mutex that another thread holds. The assertion only asks whether the mutex
  is locked, so \<^verbatim>\<open>wait()\<close> passes it, decrements the counter, and then throws \<^verbatim>\<open>EPERM\<close>; the
  counter stays at 0, and the rightful owner's next \<^verbatim>\<open>unlock()\<close> ends the process.
\<close>
theorem wait_foreign_mutex:
  assumes "mutex_inv (cv_mx s a)" "owner (mutex_at a s) = Some u" "u \<noteq> t" "waits_on a s"
  shows "\<exists>s'. cv_wait t a s = Throw (System_error EPERM) s' \<and> owner (mutex_at a s') = Some u \<and>
    on_mutex a (mutex_unlock u) s' = Abort"
  using assms
  by (simp add: cv_wait_def cv_claim_def assert_that_def is_locked_def on_mutex_def pre_unlock_def
      mutex_inv_def waits_on_def put_mutex_def mutex_at_def cond_sleep_def pthread_mutex_unlock_def
      owner_def mutex_unlock_def)

theorem wait_foreign_mutex_witness:
  "\<exists>s'. cv_wait 8 0 (cv_demo \<lparr>ld = lockdep_init, mu = taken 7 (new_mutex ''m'' False)\<rparr>) =
     Throw (System_error EPERM) s' \<and> on_mutex 0 (mutex_unlock 7) s' = Abort"
proof -
  let ?s = "cv_demo \<lparr>ld = lockdep_init, mu = taken 7 (new_mutex ''m'' False)\<rparr>"
  have "mutex_inv (new_mutex ''m'' False)"
    by (simp add: mutex_inv_def new_mutex_def pthread_mutex_init_def)
  then have "mutex_inv (cv_mx ?s 0)" "owner (mutex_at 0 ?s) = Some 7" "7 \<noteq> (8 :: tid)" "waits_on 0 ?s"
    by (simp_all add: taken_inv) (simp add: owner_def taken_def pm_take_def)
  from wait_foreign_mutex [OF this] show ?thesis by blast
qed

end
