(* ===== verification/Condvar_System.thy ===== *)
theory Condvar_System
  imports Condvar
begin

text \<open>
  Threads that share data under one \<^verbatim>\<open>BlueMutex\<close> (checker off) and one condition variable,
  with all forms of waiting of \<^verbatim>\<open>condition_variable.h\<close>, the loops with a predicate included.
  A step is one call of the mutex or the condition variable, one evaluation of a predicate or
  one change of the data by a thread inside; a sleeping thread may also wake up on its own
  (a spurious wake-up or an expired time). Shown for every reachable state: at most one thread
  is inside, no \<^verbatim>\<open>ASSERT\<close> fails, a predicate wait that returned true returned with the
  predicate holding, and a notification reaches every sleeping thread.
\<close>

section \<open>The loops with a predicate\<close>

text \<open>
  One turn of \<^verbatim>\<open>while (!pred()) wait(lock);\<close> and of the loop of \<^verbatim>\<open>wait_for\<close>: \<open>Some b\<close> when the
  call returns (with \<open>b\<close>), \<open>None\<close> when it goes round again. \<open>p\<close> is the value of the
  predicate at this point.
\<close>

definition wait_pred_turn :: "bool \<Rightarrow> tid \<Rightarrow> nat \<Rightarrow> cvworld \<Rightarrow> (bool option, cvworld) outcome" where
  "wait_pred_turn p t a s =
     (if p then Ret (Some True) s else bind (cv_wait t a s) (\<lambda>_ s. Ret None s))"

text \<open>What \<^verbatim>\<open>wait_for\<close> does once \<^verbatim>\<open>_wait_until\<close> has returned.\<close>

definition wait_for_after :: "cv_status \<Rightarrow> bool \<Rightarrow> bool option" where
  "wait_for_after st p = (if st = Timeout then Some p else None)"

definition wait_for_turn :: "bool \<Rightarrow> int \<Rightarrow> tid \<Rightarrow> nat \<Rightarrow> cvworld \<Rightarrow> (bool option, cvworld) outcome" where
  "wait_for_turn p when t a s =
     (if p then Ret (Some True) s
      else bind (cv_wait_until t a when s) (\<lambda>st s. Ret (wait_for_after st p) s))"

section \<open>Program points and steps\<close>

datatype wait_kind = Plain | Until int | Pred | For_pred int

datatype cvpoint =
    Out
  | In
  | Checking wait_kind
  | Asleep wait_kind
  | Done bool

record 'd monitor =
  mo_w :: cvworld
  mo_data :: 'd
  mo_pc :: "tid \<Rightarrow> cvpoint"

definition mo_goto :: "tid \<Rightarrow> cvpoint \<Rightarrow> cvworld \<Rightarrow> 'd monitor \<Rightarrow> 'd monitor" where
  "mo_goto t p w s = s\<lparr>mo_w := w, mo_pc := (mo_pc s)(t := p)\<rparr>"

definition mo_waiters :: "'d monitor \<Rightarrow> tid list" where
  "mo_waiters s = cond_waiters (cv (mo_w s))"

text \<open>
  \<open>pr t\<close> is the predicate thread \<open>t\<close> waits with. Deadlines are at or after the epoch of the
  clock.
\<close>

inductive cvstep :: "nat \<Rightarrow> (tid \<Rightarrow> 'd \<Rightarrow> bool) \<Rightarrow> 'd monitor \<Rightarrow> 'd monitor \<Rightarrow> bool" for a pr where
  lock: "mo_pc s t = Out \<Longrightarrow> on_mutex a (mutex_lock t bt) (mo_w s) = Ret () w \<Longrightarrow>
     cvstep a pr s (mo_goto t In w s)"
| unlock: "mo_pc s t = In \<Longrightarrow> on_mutex a (mutex_unlock t) (mo_w s) = Ret () w \<Longrightarrow>
     cvstep a pr s (mo_goto t Out w s)"
| change: "mo_pc s t = In \<Longrightarrow> cvstep a pr s (s\<lparr>mo_data := d\<rparr>)"
| wait: "mo_pc s t = In \<Longrightarrow> cv_wait t a (mo_w s) = Block w \<Longrightarrow>
     cvstep a pr s (mo_goto t (Asleep Plain) w s)"
| wait_until: "mo_pc s t = In \<Longrightarrow> 0 \<le> when \<Longrightarrow> wait_until t a when (mo_w s) = Block w \<Longrightarrow>
     cvstep a pr s (mo_goto t (Asleep (Until when)) w s)"
| call_pred: "mo_pc s t = In \<Longrightarrow> cvstep a pr s (mo_goto t (Checking Pred) (mo_w s) s)"
| call_for: "mo_pc s t = In \<Longrightarrow> 0 \<le> when \<Longrightarrow>
     cvstep a pr s (mo_goto t (Checking (For_pred when)) (mo_w s) s)"
| check_pred: "mo_pc s t = Checking Pred \<Longrightarrow>
     wait_pred_turn (pr t (mo_data s)) t a (mo_w s) = Ret (Some b) w \<Longrightarrow>
     cvstep a pr s (mo_goto t (Done b) w s)"
| check_for: "mo_pc s t = Checking (For_pred when) \<Longrightarrow>
     wait_for_turn (pr t (mo_data s)) when t a (mo_w s) = Ret (Some b) w \<Longrightarrow>
     cvstep a pr s (mo_goto t (Done b) w s)"
| sleep_pred: "mo_pc s t = Checking Pred \<Longrightarrow>
     wait_pred_turn (pr t (mo_data s)) t a (mo_w s) = Block w \<Longrightarrow>
     cvstep a pr s (mo_goto t (Asleep Pred) w s)"
| sleep_for: "mo_pc s t = Checking (For_pred when) \<Longrightarrow>
     wait_for_turn (pr t (mo_data s)) when t a (mo_w s) = Block w \<Longrightarrow>
     cvstep a pr s (mo_goto t (Asleep (For_pred when)) w s)"
| wake_up: "mo_pc s t = Asleep k \<Longrightarrow>
     cvstep a pr s (s\<lparr>mo_w := set_waiters (filter (\<lambda>u. u \<noteq> t) (mo_waiters s)) (mo_w s)\<rparr>)"
| resume: "mo_pc s t = Asleep k \<Longrightarrow> k = Plain \<or> k = Pred \<Longrightarrow> t \<notin> set (mo_waiters s) \<Longrightarrow>
     cv_wait_resume 0 t (mo_w s) = Ret () w \<Longrightarrow>
     cvstep a pr s (mo_goto t (if k = Plain then In else Checking k) w s)"
| resume_until: "mo_pc s t = Asleep (Until when) \<Longrightarrow> t \<notin> set (mo_waiters s) \<Longrightarrow>
     r = 0 \<or> r = ETIMEDOUT \<Longrightarrow> cv_wait_until_resume r t (mo_w s) = Ret st w \<Longrightarrow>
     cvstep a pr s (mo_goto t In w s)"
| resume_for: "mo_pc s t = Asleep (For_pred when) \<Longrightarrow> t \<notin> set (mo_waiters s) \<Longrightarrow>
     r = 0 \<or> r = ETIMEDOUT \<Longrightarrow> cv_wait_until_resume r t (mo_w s) = Ret st w \<Longrightarrow>
     cvstep a pr s (mo_goto t (case wait_for_after st (pr t (mo_data s)) of
        None \<Rightarrow> Checking (For_pred when) | Some b \<Rightarrow> Done b) w s)"
| notify_one: "mo_pc s t = In \<Longrightarrow> set woken \<subseteq> set (mo_waiters s) \<Longrightarrow>
     mo_waiters s = [] \<or> woken \<noteq> [] \<Longrightarrow> notify_one 0 woken (mo_w s) = Ret () w \<Longrightarrow>
     cvstep a pr s (s\<lparr>mo_w := w\<rparr>)"
| notify_all: "mo_pc s t = In \<Longrightarrow> notify_all 0 (mo_w s) = Ret () w \<Longrightarrow>
     cvstep a pr s (s\<lparr>mo_w := w\<rparr>)"
| return: "mo_pc s t = Done b \<Longrightarrow> cvstep a pr s (mo_goto t In (mo_w s) s)"

definition mo_start :: "nat \<Rightarrow> 'd monitor \<Rightarrow> bool" where
  "mo_start a s \<longleftrightarrow> (\<forall>t. mo_pc s t = Out) \<and> cv (mo_w s) = new_condvar \<and>
     (\<exists>name. cv_mx (mo_w s) a = new_mutex name False)"

inductive mo_reach :: "nat \<Rightarrow> (tid \<Rightarrow> 'd \<Rightarrow> bool) \<Rightarrow> 'd monitor \<Rightarrow> bool" for a pr where
  start: "mo_start a s \<Longrightarrow> mo_reach a pr s"
| step: "mo_reach a pr s \<Longrightarrow> cvstep a pr s s' \<Longrightarrow> mo_reach a pr s'"

section \<open>The invariant\<close>

fun holds_mutex :: "cvpoint \<Rightarrow> bool" where
  "holds_mutex Out = False"
| "holds_mutex In = True"
| "holds_mutex (Checking k) = True"
| "holds_mutex (Asleep k) = False"
| "holds_mutex (Done b) = True"

fun sleeping :: "cvpoint \<Rightarrow> bool" where
  "sleeping (Asleep k) = True"
| "sleeping _ = False"

fun point_ok :: "cvpoint \<Rightarrow> bool \<Rightarrow> bool" where
  "point_ok (Done b) p = (b = p)"
| "point_ok (Checking k) p = (case k of Plain \<Rightarrow> False | Until _ \<Rightarrow> False | Pred \<Rightarrow> True | For_pred d \<Rightarrow> 0 \<le> d)"
| "point_ok (Asleep k) p = (case k of For_pred d \<Rightarrow> 0 \<le> d | Until d \<Rightarrow> 0 \<le> d | _ \<Rightarrow> True)"
| "point_ok _ p = True"

definition mo_owner :: "nat \<Rightarrow> 'd monitor \<Rightarrow> tid option" where
  "mo_owner a s = owner (mutex_at a (mo_w s))"

definition mo_inv :: "nat \<Rightarrow> (tid \<Rightarrow> 'd \<Rightarrow> bool) \<Rightarrow> 'd monitor \<Rightarrow> bool" where
  "mo_inv a pr s \<longleftrightarrow> plain_inv (mutex_at a (mo_w s)) \<and> waits_on a (mo_w s) \<and>
     (\<forall>t. holds_mutex (mo_pc s t) \<longleftrightarrow> mo_owner a s = Some t) \<and>
     (\<forall>t. t \<in> set (mo_waiters s) \<longrightarrow> sleeping (mo_pc s t)) \<and>
     (\<forall>t. sleeping (mo_pc s t) \<longrightarrow> waiter_mutex (cv (mo_w s)) = Some a) \<and>
     (\<forall>t. point_ok (mo_pc s t) (pr t (mo_data s)))"

lemma mo_inv_goto:
  assumes "mo_inv a pr s" "plain_inv (mutex_at a w)" "waits_on a w"
    and "holds_mutex p \<Longrightarrow> owner (mutex_at a w) = Some t \<and> (mo_owner a s = None \<or> mo_owner a s = Some t)"
    and "\<not> holds_mutex p \<Longrightarrow> mo_owner a s = Some t \<and> owner (mutex_at a w) = None"
    and "set (cond_waiters (cv w)) \<subseteq> set (mo_waiters s) \<union> {t}"
    and "t \<in> set (cond_waiters (cv w)) \<Longrightarrow> sleeping p"
    and "sleeping p \<or> waiter_mutex (cv (mo_w s)) = Some a \<Longrightarrow> waiter_mutex (cv w) = Some a"
    and "point_ok p (pr t (mo_data s))"
  shows "mo_inv a pr (mo_goto t p w s)"
proof -
  have hold: "holds_mutex (if u = t then p else mo_pc s u) \<longleftrightarrow> owner (mutex_at a w) = Some u" for u
    using assms(1,4,5) by (cases "u = t"; cases "holds_mutex p") (auto simp: mo_inv_def)
  have wait: "u \<in> set (cond_waiters (cv w)) \<Longrightarrow> sleeping (if u = t then p else mo_pc s u)" for u
    using assms(1,6,7) by (auto simp: mo_inv_def)
  have sleep: "sleeping (if u = t then p else mo_pc s u) \<Longrightarrow> waiter_mutex (cv w) = Some a" for u
    using assms(1,8) by (auto simp: mo_inv_def split: if_splits)
  show ?thesis
    using assms(1,2,3,9) hold wait sleep
    by (simp add: mo_inv_def mo_goto_def mo_owner_def mo_waiters_def fun_upd_def)
qed

lemma mo_inv_plain:
  assumes "mo_inv a pr s"
  shows "mutex_inv (cv_mx (mo_w s) a)" "waits_on a (mo_w s)" "plain_inv (mutex_at a (mo_w s))"
    "holds_mutex (mo_pc s t) \<Longrightarrow> pm_owner (pm (cv_mx (mo_w s) a)) = Some t"
    "holds_mutex (mo_pc s t) \<Longrightarrow> mo_owner a s = Some t"
    "point_ok (mo_pc s t) (pr t (mo_data s))"
  using assms by (auto simp: mo_inv_def plain_inv_def mo_owner_def owner_def)

lemma mo_inv_asleep:
  assumes "mo_inv a pr s" "mo_pc s t = Asleep k"
  shows "waiter_mutex (cv (mo_w s)) = Some a" "mo_owner a s \<noteq> Some t"
proof -
  have "sleeping (mo_pc s t)" "\<not> holds_mutex (mo_pc s t)" using assms(2) by simp_all
  then show "waiter_mutex (cv (mo_w s)) = Some a" "mo_owner a s \<noteq> Some t"
    using assms(1) unfolding mo_inv_def by blast+
qed

lemma mo_asleep_inv:
  assumes "mo_inv a pr s" "holds_mutex (mo_pc s t)" "point_ok (Asleep k) (pr t (mo_data s))"
  shows "mo_inv a pr (mo_goto t (Asleep k) (asleep t a (mo_w s)) s)"
proof (rule mo_inv_goto [OF assms(1)])
  have m: "mutex_inv (freed t (cv_mx (mo_w s) a))" using freed_inv mo_inv_plain(1) assms(1) by blast
  show "plain_inv (mutex_at a (asleep t a (mo_w s)))"
    using m mo_inv_plain(3) [OF assms(1)]
    by (simp add: plain_inv_def asleep_def) (simp add: freed_def)
  show "mo_owner a s = Some t \<and> owner (mutex_at a (asleep t a (mo_w s))) = None"
    using mo_inv_plain(5) [OF assms(1,2)] by (simp add: owner_def asleep_def freed_def)
qed (use assms(3) in \<open>auto simp: asleep_def waits_on_def mo_waiters_def\<close>)

lemma mo_taken_inv:
  assumes "mo_inv a pr s" "mo_pc s t = Asleep k" "mo_owner a s = None" "t \<notin> set (mo_waiters s)"
    "holds_mutex p" "point_ok p (pr t (mo_data s))"
    "w = (mo_w s)\<lparr>cv_mx := (cv_mx (mo_w s))(a := taken t (cv_mx (mo_w s) a))\<rparr>"
  shows "mo_inv a pr (mo_goto t p w s)"
proof (rule mo_inv_goto [OF assms(1)])
  have m: "mutex_inv (taken t (cv_mx (mo_w s) a))" using taken_inv mo_inv_plain(1) assms(1) by blast
  show "plain_inv (mutex_at a w)"
    using m mo_inv_plain(3) [OF assms(1)]
    by (simp add: plain_inv_def assms(7)) (simp add: taken_def)
  show "waits_on a w" using mo_inv_plain(2) [OF assms(1)] by (simp add: waits_on_def assms(7))
  show "owner (mutex_at a w) = Some t \<and> (mo_owner a s = None \<or> mo_owner a s = Some t)"
    using assms(3) by (simp add: owner_def assms(7) taken_def pm_take_def)
  show "sleeping p" if "t \<in> set (cond_waiters (cv w))"
    using that assms(4) by (simp add: assms(7) mo_waiters_def)
  show "waiter_mutex (cv w) = Some a" if "sleeping p \<or> waiter_mutex (cv (mo_w s)) = Some a"
    using mo_inv_asleep(1) [OF assms(1,2)] by (simp add: assms(7))
qed (use assms(5,6) in \<open>auto simp: assms(7) mo_waiters_def\<close>)

text \<open>A wake-up either finds the mutex free, and takes it, or waits for it.\<close>

lemma mo_resume:
  assumes "mo_inv a pr s" "mo_pc s t = Asleep k"
  defines "w' \<equiv> (mo_w s)\<lparr>cv_mx := (cv_mx (mo_w s))(a := taken t (cv_mx (mo_w s) a))\<rparr>"
  shows "mo_owner a s = None \<Longrightarrow> cv_wait_resume 0 t (mo_w s) = Ret () w'"
    "mo_owner a s = None \<Longrightarrow> r = 0 \<or> r = ETIMEDOUT \<Longrightarrow> cv_wait_until_resume r t (mo_w s) =
       Ret (if r = 0 then No_timeout else Timeout) w'"
    "mo_owner a s \<noteq> None \<Longrightarrow> cv_wait_resume r t (mo_w s) = Block (mo_w s)"
    "mo_owner a s \<noteq> None \<Longrightarrow> cv_wait_until_resume r t (mo_w s) = Block (mo_w s)"
proof -
  have wm: "waiter_mutex (cv (mo_w s)) = Some a" using assms(1,2) by (rule mo_inv_asleep)
  have inv: "mutex_inv (cv_mx (mo_w s) a)" using assms(1) by (rule mo_inv_plain)
  { assume "mo_owner a s = None"
    then have free: "pm_owner (pm (cv_mx (mo_w s) a)) = None" by (simp add: mo_owner_def owner_def)
    show "cv_wait_resume 0 t (mo_w s) = Ret () w'" unfolding w'_def by (rule resume_free(1) [OF wm inv free])
    assume "r = 0 \<or> r = ETIMEDOUT"
    then show "cv_wait_until_resume r t (mo_w s) = Ret (if r = 0 then No_timeout else Timeout) w'"
      unfolding w'_def using resume_free(2,3) [OF wm inv free] by auto }
  assume busy: "mo_owner a s \<noteq> None"
  moreover have "mo_owner a s \<noteq> Some t" using assms(1,2) by (rule mo_inv_asleep)
  ultimately obtain u where "pm_owner (pm (cv_mx (mo_w s) a)) = Some u" "u \<noteq> t"
    by (auto simp: mo_owner_def owner_def)
  then show "cv_wait_resume r t (mo_w s) = Block (mo_w s)" "cv_wait_until_resume r t (mo_w s) = Block (mo_w s)"
    using resume_busy [OF wm] by blast+
qed

lemma on_mutex_Ret:
  "on_mutex a f s = Ret x w \<longleftrightarrow> (\<exists>m. f (mutex_at a s) = Ret x m \<and> w = put_mutex a s m)"
  by (auto simp: on_mutex_def lift_state_eq_Ret_iff)

lemma waits_on_put [simp]: "waits_on a (put_mutex b s m) = waits_on a s"
  by (simp add: waits_on_def)

lemma mo_same_owner:
  assumes "mo_inv a pr s" "holds_mutex (mo_pc s t)" "holds_mutex p" "\<not> sleeping p"
    "point_ok p (pr t (mo_data s))"
  shows "mo_inv a pr (mo_goto t p (mo_w s) s)"
proof (rule mo_inv_goto [OF assms(1)])
  show "plain_inv (mutex_at a (mo_w s))" "waits_on a (mo_w s)"
    using assms(1) by (rule mo_inv_plain)+
  show "owner (mutex_at a (mo_w s)) = Some t \<and> (mo_owner a s = None \<or> mo_owner a s = Some t)"
    using mo_inv_plain(5) [OF assms(1,2)] by (simp add: mo_owner_def)
  show "sleeping p" if "t \<in> set (cond_waiters (cv (mo_w s)))"
    using that assms(1,2) by (cases "mo_pc s t") (force simp: mo_inv_def mo_waiters_def)+
qed (use assms in \<open>auto simp: mo_waiters_def\<close>)

lemma mo_waiters_inv:
  assumes "mo_inv a pr s" "set ws \<subseteq> set (mo_waiters s)"
  shows "mo_inv a pr (s\<lparr>mo_w := set_waiters ws (mo_w s)\<rparr>)"
  using assms by (auto simp: mo_inv_def mo_owner_def mo_waiters_def waits_on_def)

lemma mo_lock_inv:
  assumes inv: "mo_inv a pr s" and pc: "mo_pc s t = Out"
    and run: "on_mutex a (mutex_lock t bt) (mo_w s) = Ret () w"
  shows "mo_inv a pr (mo_goto t In w s)"
proof -
  note p = mo_inv_plain(3) [OF inv]
  obtain m where m: "mutex_lock t bt (mutex_at a (mo_w s)) = Ret () m" "w = put_mutex a (mo_w s) m"
    using run by (auto simp: on_mutex_Ret)
  have free: "owner (mutex_at a (mo_w s)) = None" using blue.lock_Ret_iff [OF p] m(1) by blast
  have new: "owner m = Some t" "plain_inv m" using blue.lock_unlock [OF p m(1)] by simp_all
  have "t \<notin> set (mo_waiters s)" using inv pc by (force simp: mo_inv_def)
  then show ?thesis
    using m(2) free new mo_inv_plain(2) [OF inv]
    by (intro mo_inv_goto [OF inv]) (auto simp: mo_owner_def mo_waiters_def)
qed

lemma mo_unlock_inv:
  assumes inv: "mo_inv a pr s" and pc: "mo_pc s t = In"
    and run: "on_mutex a (mutex_unlock t) (mo_w s) = Ret () w"
  shows "mo_inv a pr (mo_goto t Out w s)"
proof -
  obtain m where m: "mutex_unlock t (mutex_at a (mo_w s)) = Ret () m" "w = put_mutex a (mo_w s) m"
    using run by (auto simp: on_mutex_Ret)
  have own: "owner (mutex_at a (mo_w s)) = Some t"
    using mo_inv_plain(5) [OF inv, of t] pc by (simp add: mo_owner_def)
  have new: "owner m = None" "plain_inv m"
    using blue.unlock_own [OF mo_inv_plain(3) [OF inv] own] m(1) by auto
  have "t \<notin> set (mo_waiters s)" using inv pc by (force simp: mo_inv_def)
  then show ?thesis
    using m(2) own new mo_inv_plain(2) [OF inv]
    by (intro mo_inv_goto [OF inv]) (auto simp: mo_owner_def mo_waiters_def)
qed

text \<open>What the turns of the predicate loops do at a thread that holds the mutex.\<close>

lemma turn_owner:
  assumes "mo_inv a pr s" "holds_mutex (mo_pc s t)" "0 \<le> when"
  shows "cv_wait t a (mo_w s) = Block (asleep t a (mo_w s))"
    "wait_until t a when (mo_w s) = Block (asleep t a (mo_w s))"
    "wait_pred_turn p t a (mo_w s) =
      (if p then Ret (Some True) (mo_w s) else Block (asleep t a (mo_w s)))"
    "wait_for_turn p when t a (mo_w s) =
      (if p then Ret (Some True) (mo_w s) else Block (asleep t a (mo_w s)))"
  using cv_wait_owner [OF mo_inv_plain(1) [OF assms(1)] mo_inv_plain(4) [OF assms(1,2)]
      mo_inv_plain(2) [OF assms(1)]] assms(3)
  by (simp_all add: wait_until_def wait_pred_turn_def wait_for_turn_def)

lemma change_inv:
  assumes "mo_inv a pr s" "mo_pc s t = In"
  shows "mo_inv a pr (s\<lparr>mo_data := d\<rparr>)"
proof -
  have "point_ok (mo_pc s u) (pr u d)" for u
  proof (cases "mo_pc s u")
    case (Done b)
    then have "mo_owner a s = Some u" "mo_owner a s = Some t"
      using mo_inv_plain(5) [OF assms(1)] assms(2) by auto
    then show ?thesis using Done assms(2) by simp
  qed (use mo_inv_plain(6) [OF assms(1), of u] in auto)
  then show ?thesis using assms(1) by (simp add: mo_inv_def mo_owner_def mo_waiters_def)
qed

text \<open>A resumption that returns found the mutex free and has taken it.\<close>

lemma mo_resumed_inv:
  assumes "mo_inv a pr s" "mo_pc s t = Asleep k" "t \<notin> set (mo_waiters s)"
    and "cv_wait_resume 0 t (mo_w s) = Ret () w \<or>
      (r = 0 \<or> r = ETIMEDOUT) \<and> cv_wait_until_resume r t (mo_w s) = Ret st w"
    and "holds_mutex p" "point_ok p (pr t (mo_data s))"
  shows "mo_inv a pr (mo_goto t p w s)"
proof -
  have free: "mo_owner a s = None"
    using mo_resume(3,4) [OF assms(1,2)] assms(4) by (cases "mo_owner a s = None") auto
  then show ?thesis
    using mo_resume(1,2) [OF assms(1,2) free] assms(4)
    by (intro mo_taken_inv [OF assms(1,2) free assms(3,5,6)]) auto
qed

lemma cvstep_inv:
  assumes "cvstep a pr s s'" "mo_inv a pr s"
  shows "mo_inv a pr s'"
  using assms
proof (induction rule: cvstep.induct)
  case (wait s t w)
  then show ?case using mo_asleep_inv [of a pr s t Plain] turn_owner(1) [of a pr s t 0] by simp
next
  case (wait_until s t "when" w)
  then show ?case
    using mo_asleep_inv [of a pr s t "Until when"] turn_owner(2) [of a pr s t "when"] by simp
next
  case (check_pred s t b w)
  then have "pr t (mo_data s)" "b" "w = mo_w s"
    using turn_owner(3) [of a pr s t 0] by (auto split: if_splits)
  then show ?case using check_pred by (auto intro: mo_same_owner)
next
  case (check_for s t "when" b w)
  then have "0 \<le> when" using mo_inv_plain(6) [of a pr s t] by simp
  then have "pr t (mo_data s)" "b" "w = mo_w s"
    using check_for turn_owner(4) [of a pr s t "when"] by (auto split: if_splits)
  then show ?case using check_for by (auto intro: mo_same_owner)
next
  case (sleep_pred s t w)
  then have "w = asleep t a (mo_w s)"
    using turn_owner(3) [of a pr s t 0] by (auto split: if_splits)
  then show ?case using sleep_pred mo_asleep_inv [of a pr s t Pred] by simp
next
  case (sleep_for s t "when" w)
  then have d: "0 \<le> when" using mo_inv_plain(6) [of a pr s t] by simp
  then have "w = asleep t a (mo_w s)"
    using sleep_for turn_owner(4) [of a pr s t "when"] by (auto split: if_splits)
  then show ?case using sleep_for d mo_asleep_inv [of a pr s t "For_pred when"] by simp
next
  case (resume s t k w)
  then show ?case by (intro mo_resumed_inv [of a pr s t k]) auto
next
  case (resume_until s t "when" r st w)
  then show ?case by (intro mo_resumed_inv [of a pr s t "Until when"]) auto
next
  case (resume_for s t "when" r st w)
  then have "0 \<le> when" using mo_inv_plain(6) [of a pr s t] by simp
  then show ?case using resume_for
    by (intro mo_resumed_inv [of a pr s t "For_pred when" _ r st]) (auto simp: wait_for_after_def)
next
  case (notify_one s t woken w)
  then show ?case
    by (auto simp: notify_one_def outcome_inv mo_waiters_def intro: mo_waiters_inv)
next
  case (notify_all s t w)
  then show ?case by (auto simp: notify_all_def outcome_inv intro: mo_waiters_inv)
qed (auto intro: mo_lock_inv mo_unlock_inv change_inv mo_same_owner mo_waiters_inv)

lemma mo_start_inv: "mo_start a s \<Longrightarrow> mo_inv a pr s"
  by (auto simp: mo_start_def mo_inv_def plain_inv_def mutex_inv_def new_mutex_def owner_def
      pthread_mutex_init_def mo_owner_def mo_waiters_def waits_on_def new_condvar_def)

lemma mo_reach_inv: "mo_reach a pr s \<Longrightarrow> mo_inv a pr s"
  by (induction rule: mo_reach.induct) (auto intro: mo_start_inv cvstep_inv)

section \<open>What every reachable state satisfies\<close>

definition monitor_demo :: "nat monitor" where
  "monitor_demo = \<lparr>mo_w = \<lparr>cv_ld = lockdep_init, cv_mx = (\<lambda>_. new_mutex ''m'' False),
     cv = new_condvar\<rparr>, mo_data = 0, mo_pc = (\<lambda>_. Out)\<rparr>"

lemma monitor_demo_start: "mo_start a monitor_demo"
  by (auto simp: mo_start_def monitor_demo_def)

text \<open>Thread 7 has locked the mutex and waits for the data to become positive.\<close>

definition monitor_pos :: "tid \<Rightarrow> nat \<Rightarrow> bool" where
  "monitor_pos t d = (0 < d)"

definition monitor_in :: "nat monitor" where
  "monitor_in = mo_goto 7 In \<lparr>cv_ld = lockdep_init,
     cv_mx = (\<lambda>_. new_mutex ''m'' False)(0 := taken 7 (new_mutex ''m'' False)),
     cv = new_condvar\<rparr> monitor_demo"

lemma monitor_in_reach: "mo_reach 0 monitor_pos monitor_in"
proof -
  have "on_mutex 0 (mutex_lock 7 bt_demo) (mo_w monitor_demo) = Ret () (mo_w monitor_in)"
    by (simp add: on_mutex_def monitor_demo_def monitor_in_def mutex_at_def put_mutex_def mutex_defs
        new_mutex_def pthread_mutex_init_def taken_def mo_goto_def fun_eq_iff)
  then have "cvstep 0 monitor_pos monitor_demo (mo_goto 7 In (mo_w monitor_in) monitor_demo)"
    by (intro cvstep.lock) (simp_all add: monitor_demo_def)
  moreover have "mo_goto 7 In (mo_w monitor_in) monitor_demo = monitor_in"
    by (simp add: monitor_in_def mo_goto_def)
  ultimately show ?thesis using mo_reach.start [OF monitor_demo_start] mo_reach.step by metis
qed

text \<open>
  C18: the monitor. In every reachable state at most one thread is inside the mutex, a waiting
  thread is not, and a thread whose wait with a predicate has returned finds the predicate's
  value exactly as returned: true means that the predicate holds now, false (only after the
  time expired) that it does not.
\<close>
theorem monitor_exclusion:
  assumes "mo_reach a pr s"
  shows "(holds_mutex (mo_pc s t) \<and> holds_mutex (mo_pc s u) \<longrightarrow> t = u) \<and>
    (mo_pc s t = Done b \<longrightarrow> (b \<longleftrightarrow> pr t (mo_data s)) \<and> owner (mutex_at a (mo_w s)) = Some t)"
  using mo_inv_plain(5) [OF mo_reach_inv [OF assms], of t]
    mo_inv_plain(5) [OF mo_reach_inv [OF assms], of u] mo_inv_plain(6) [OF mo_reach_inv [OF assms], of t]
  by (auto simp: mo_owner_def)

theorem monitor_exclusion_witness:
  "holds_mutex (mo_pc monitor_in 7) \<and> \<not> holds_mutex (mo_pc monitor_in 8)"
proof -
  have "mo_pc monitor_in 7 = In" by (simp add: monitor_in_def mo_goto_def)
  then show ?thesis using monitor_exclusion [OF monitor_in_reach, of 7 8] by auto
qed

text \<open>
  no assertion of the condition variable fails. In every reachable state, a thread inside
  the mutex that waits goes to sleep (no abort, no exception), its notifications return, and
  a woken thread either waits for the mutex or resumes normally.
\<close>
theorem monitor_assertions_hold:
  assumes "mo_reach a pr s"
  shows "(holds_mutex (mo_pc s t) \<longrightarrow>
      (\<exists>w. cv_wait t a (mo_w s) = Block w) \<and>
      (\<forall>when \<ge> 0. \<exists>w. wait_until t a when (mo_w s) = Block w) \<and>
      (\<exists>w. notify_one 0 woken (mo_w s) = Ret () w) \<and> (\<exists>w. notify_all 0 (mo_w s) = Ret () w)) \<and>
    (sleeping (mo_pc s t) \<longrightarrow>
      cv_wait_resume 0 t (mo_w s) = Block (mo_w s) \<or> (\<exists>w. cv_wait_resume 0 t (mo_w s) = Ret () w))"
proof (intro conjI impI)
  note inv = mo_reach_inv [OF assms]
  assume h: "holds_mutex (mo_pc s t)"
  show "\<exists>w. cv_wait t a (mo_w s) = Block w" using turn_owner(1) [OF inv h, of 0] by simp
  show "\<forall>when \<ge> 0. \<exists>w. wait_until t a when (mo_w s) = Block w" using turn_owner(2) [OF inv h] by simp
  have "is_locked (cv_mx (mo_w s) a)"
    using mutex_inv_is_locked(1) [OF mo_inv_plain(1) [OF inv]] mo_inv_plain(4) [OF inv h] by simp
  then have "cv_may_notify (mo_w s)"
    using mo_inv_plain(2) [OF inv] by (auto simp: cv_may_notify_def waits_on_def)
  then show "\<exists>w. notify_one 0 woken (mo_w s) = Ret () w" "\<exists>w. notify_all 0 (mo_w s) = Ret () w"
    by (simp_all add: notify_one_def notify_all_def assert_that_def)
next
  note inv = mo_reach_inv [OF assms]
  assume "sleeping (mo_pc s t)"
  then obtain k where "mo_pc s t = Asleep k" by (cases "mo_pc s t") auto
  then show "cv_wait_resume 0 t (mo_w s) = Block (mo_w s) \<or> (\<exists>w. cv_wait_resume 0 t (mo_w s) = Ret () w)"
    using mo_resume(1,3) [OF inv] by blast
qed

theorem monitor_assertions_hold_witness:
  "\<exists>w. cv_wait 7 0 (mo_w monitor_in) = Block w"
proof -
  have "holds_mutex (mo_pc monitor_in 7)" by (simp add: monitor_in_def mo_goto_def)
  then show ?thesis using monitor_assertions_hold [OF monitor_in_reach, of 7 "[]"] by blast
qed

text \<open>
  no wake-up is lost. When a thread inside the mutex calls \<^verbatim>\<open>notify_all()\<close> and then
  \<^verbatim>\<open>unlock()\<close>, both return, and after that every thread that was asleep resumes its wait as
  soon as it runs.
\<close>
theorem notify_all_wakes_everyone:
  assumes "mo_reach a pr s" "mo_pc s t = In" "sleeping (mo_pc s u)"
  shows "\<exists>w1 w2 w3. notify_all 0 (mo_w s) = Ret () w1 \<and> on_mutex a (mutex_unlock t) w1 = Ret () w2 \<and>
    u \<notin> set (cond_waiters (cv w2)) \<and> cv_wait_resume 0 u w2 = Ret () w3 \<and>
    owner (mutex_at a w3) = Some u"
proof -
  note inv = mo_reach_inv [OF assms(1)]
  have own: "owner (mutex_at a (mo_w s)) = Some t"
    using mo_inv_plain(5) [OF inv, of t] assms(2) by (simp add: mo_owner_def)
  obtain k where k: "mo_pc s u = Asleep k" using assms(3) by (cases "mo_pc s u") auto
  note wm = mo_inv_asleep(1) [OF inv k]
  have "is_locked (cv_mx (mo_w s) a)"
    using mutex_inv_is_locked(1) [OF mo_inv_plain(1) [OF inv]] mo_inv_plain(4) [OF inv, of t] assms(2) by simp
  then have n: "notify_all 0 (mo_w s) = Ret () (set_waiters [] (mo_w s))"
    using wm by (simp add: notify_all_def assert_that_def cv_may_notify_def)
  obtain m where m: "mutex_unlock t (mutex_at a (mo_w s)) = Ret () m" "owner m = None" "plain_inv m"
    using blue.unlock_own [OF mo_inv_plain(3) [OF inv] own] by blast
  let ?w = "put_mutex a (set_waiters [] (mo_w s)) m"
  have u: "on_mutex a (mutex_unlock t) (set_waiters [] (mo_w s)) = Ret () ?w"
    using m(1) by (simp add: on_mutex_Ret)
  have "cv_wait_resume 0 u ?w = Ret () (?w\<lparr>cv_mx := (cv_mx ?w)(a := taken u (cv_mx ?w a))\<rparr>)"
    using wm m(2,3) by (intro resume_free(1)) (simp_all add: plain_inv_def owner_def)
  then show ?thesis using n u by (auto simp: owner_def taken_def pm_take_def)
qed

lemma lock_reach:
  assumes "mo_reach a pr s" "mo_pc s t = Out" "mo_owner a s = None"
  shows "\<exists>s'. mo_reach a pr s' \<and> mo_pc s' = (mo_pc s)(t := In)"
proof -
  have p: "plain_inv (mutex_at a (mo_w s))" using mo_inv_plain(3) [OF mo_reach_inv [OF assms(1)]] .
  obtain m where "mutex_lock t bt_demo (mutex_at a (mo_w s)) = Ret () m"
    using blue.lock_free [OF p] assms(3) unfolding mo_owner_def by blast
  then have "on_mutex a (mutex_lock t bt_demo) (mo_w s) = Ret () (put_mutex a (mo_w s) m)"
    by (simp add: on_mutex_Ret)
  from cvstep.lock [OF assms(2) this] assms(1) show ?thesis
    by (intro exI [of _ "mo_goto t In (put_mutex a (mo_w s) m) s"])
      (auto simp: mo_goto_def intro: mo_reach.step)
qed

lemma sleep_reach:
  assumes "mo_reach a pr s" "mo_pc s t = In"
  shows "\<exists>s'. mo_reach a pr s' \<and> mo_pc s' = (mo_pc s)(t := Asleep Plain) \<and> mo_owner a s' = None"
proof -
  have "cv_wait t a (mo_w s) = Block (asleep t a (mo_w s))"
    using turn_owner(1) [OF mo_reach_inv [OF assms(1)], of t 0] assms(2) by simp
  from cvstep.wait [OF assms(2) this] assms(1) show ?thesis
    by (intro exI [of _ "mo_goto t (Asleep Plain) (asleep t a (mo_w s)) s"])
      (auto simp: mo_goto_def mo_owner_def owner_def asleep_def freed_def intro: mo_reach.step)
qed

theorem notify_all_wakes_everyone_witness:
  "\<exists>s w1. mo_reach 0 monitor_pos s \<and> sleeping (mo_pc s 7) \<and> mo_pc s 8 = In \<and>
     notify_all 0 (mo_w s) = Ret () w1 \<and> 7 \<notin> set (cond_waiters (cv w1))"
proof -
  have "mo_pc monitor_in = (\<lambda>_. Out)(7 := In)"
    by (simp add: monitor_in_def mo_goto_def monitor_demo_def)
  moreover obtain s1 where "mo_reach 0 monitor_pos s1" "mo_owner 0 s1 = None"
    "mo_pc s1 = (mo_pc monitor_in)(7 := Asleep Plain)"
    using sleep_reach [OF monitor_in_reach, of 7] \<open>mo_pc monitor_in = _\<close> by auto
  ultimately obtain s where s: "mo_reach 0 monitor_pos s" "sleeping (mo_pc s 7)" "mo_pc s 8 = In"
    using lock_reach [of 0 monitor_pos s1 8] by auto
  obtain w1 where "notify_all 0 (mo_w s) = Ret () w1"
    using notify_all_wakes_everyone [OF s(1,3,2)] by blast
  moreover from this have "cond_waiters (cv w1) = []"
    by (auto simp: notify_all_def outcome_inv)
  ultimately show ?thesis using s by auto
qed

text \<open>
  Destruction: once no thread is inside a wait, the condition variable can be destroyed; while a
  thread sleeps in it, it cannot.
\<close>
theorem condvar_dtor_safe:
  assumes "mo_reach a pr s"
  shows "(\<forall>t. \<not> sleeping (mo_pc s t)) \<longrightarrow> condvar_dtor (cv (mo_w s)) = Ret () (cv (mo_w s))"
    and "t \<in> set (mo_waiters s) \<longrightarrow> condvar_dtor (cv (mo_w s)) = Undef"
proof -
  have "sleeping (mo_pc s t)" if "t \<in> set (mo_waiters s)" for t
    using mo_reach_inv [OF assms] that by (auto simp: mo_inv_def)
  then show "(\<forall>t. \<not> sleeping (mo_pc s t)) \<longrightarrow> condvar_dtor (cv (mo_w s)) = Ret () (cv (mo_w s))"
    by (cases "mo_waiters s") (auto simp: condvar_dtor_def mo_waiters_def)
  show "t \<in> set (mo_waiters s) \<longrightarrow> condvar_dtor (cv (mo_w s)) = Undef"
    by (auto simp: condvar_dtor_def mo_waiters_def)
qed

end
