(* ===== verification/Threadpool_Lock.thy ===== *)
theory Threadpool_Lock
  imports Condvar
begin

text \<open>
  The members of \<^verbatim>\<open>ThreadPool\<close> (\<^verbatim>\<open>thread/threadpool.h\<close>) that hand the pool's \<^verbatim>\<open>_lock\<close> and a condition
  variable to the caller. The lock is a \<^verbatim>\<open>BlueMutex\<close> without the checker, at an address \<open>a\<close> of the
  condition variable's world.
\<close>

section \<open>Operations\<close>

definition pool_lock :: "tid \<Rightarrow> BackTrace \<Rightarrow> nat \<Rightarrow> cvworld \<Rightarrow> (unit, cvworld) outcome" where
  "pool_lock t bt a w = on_mutex a (mutex_lock t bt) w"

definition pool_unlock :: "tid \<Rightarrow> nat \<Rightarrow> cvworld \<Rightarrow> (unit, cvworld) outcome" where
  "pool_unlock t a w = on_mutex a (mutex_unlock t) w"

text \<open>\<^verbatim>\<open>WorkQueueVal::lock()\<close> and \<^verbatim>\<open>unlock()\<close>, which a subclass may call in \<^verbatim>\<open>_process\<close>.\<close>

definition wq_lock :: "tid \<Rightarrow> BackTrace \<Rightarrow> nat \<Rightarrow> cvworld \<Rightarrow> (unit, cvworld) outcome" where
  "wq_lock t bt a w = pool_lock t bt a w"

definition wq_unlock :: "tid \<Rightarrow> nat \<Rightarrow> cvworld \<Rightarrow> (unit, cvworld) outcome" where
  "wq_unlock t a w = pool_unlock t a w"

text \<open>
  The destructor of a \<^verbatim>\<open>std::unique_lock\<close> that owns the pool's lock, on a normal return and
  on an exception. A lock that was adopted is owned like any other.
\<close>

definition scope_end ::
  "tid \<Rightarrow> nat \<Rightarrow> (unit, cvworld) outcome \<Rightarrow> (unit, cvworld) outcome" where
  "scope_end t a r =
     (case r of
        Ret u w \<Rightarrow> pool_unlock t a w
      | Throw e w \<Rightarrow> bind (pool_unlock t a w) (\<lambda>_ w. Throw e w)
      | other \<Rightarrow> other)"

text \<open>\<^verbatim>\<open>wait(c)\<close> up to the sleep and from the wake-up on; \<^verbatim>\<open>_wait()\<close> is the same code on \<^verbatim>\<open>_cond\<close>.\<close>

definition pool_wait :: "tid \<Rightarrow> nat \<Rightarrow> cvworld \<Rightarrow> (unit, cvworld) outcome" where
  "pool_wait t a w = scope_end t a (cv_wait t a w)"

definition pool_wait_resume :: "errno \<Rightarrow> tid \<Rightarrow> nat \<Rightarrow> cvworld \<Rightarrow> (unit, cvworld) outcome" where
  "pool_wait_resume r t a w = scope_end t a (cv_wait_resume r t w)"

definition pool_wait_self :: "tid \<Rightarrow> nat \<Rightarrow> cvworld \<Rightarrow> (unit, cvworld) outcome" where
  "pool_wait_self t a w = scope_end t a (cv_wait t a w)"

definition pool_wake :: "tid \<Rightarrow> BackTrace \<Rightarrow> nat \<Rightarrow> errno \<Rightarrow> cvworld \<Rightarrow> (unit, cvworld) outcome" where
  "pool_wake t bt a r w =
     lock_guard (\<lambda>t. pool_lock t bt a) (\<lambda>t. pool_unlock t a) t (notify_all r) w"

definition pool_wake_locked :: "errno \<Rightarrow> cvworld \<Rightarrow> (unit, cvworld) outcome" where
  "pool_wake_locked r w = notify_all r w"

section \<open>The lock's contract in the condition variable's world\<close>

definition pool_owner :: "nat \<Rightarrow> cvworld \<Rightarrow> tid option" where
  "pool_owner a w = owner (mutex_at a w)"

definition pool_plain :: "nat \<Rightarrow> cvworld \<Rightarrow> bool" where
  "pool_plain a w \<longleftrightarrow> plain_inv (mutex_at a w)"

lemma on_mutex_outcome:
  "f (mutex_at a w) = Ret x m \<Longrightarrow> on_mutex a f w = Ret x (put_mutex a w m)"
  "f (mutex_at a w) = Throw e m \<Longrightarrow> on_mutex a f w = Throw e (put_mutex a w m)"
  "f (mutex_at a w) = Block m \<Longrightarrow> on_mutex a f w = Block (put_mutex a w m)"
  by (simp_all add: on_mutex_def)

interpretation pl: lockable "\<lambda>t. pool_lock t bt a" "\<lambda>t. pool_unlock t a" "pool_owner a" "pool_plain a" for bt a
proof unfold_locales
  fix w t u
  assume inv: "pool_plain a w"
  then have m: "plain_inv (mutex_at a w)" by (simp add: pool_plain_def)
  show "\<exists>w'. pool_lock t bt a w = Ret () w' \<and> pool_owner a w' = Some t \<and> pool_plain a w'"
    if "pool_owner a w = None"
    using blue.lock_free [OF m, of t bt] that
    by (auto simp: pool_lock_def pool_owner_def pool_plain_def dest!: on_mutex_outcome(1) [where f = "mutex_lock t bt"])
  show "\<exists>w'. pool_lock t bt a w = Block w'" if "pool_owner a w = Some u" "u \<noteq> t"
    using blue.lock_busy [OF m, of u t bt] that by (auto simp: pool_lock_def pool_owner_def dest: on_mutex_outcome(3))
  show "\<exists>w'. pool_lock t bt a w = Throw (System_error EDEADLK) w'" if "pool_owner a w = Some t"
    using blue.lock_self [OF m, of t bt] that by (auto simp: pool_lock_def pool_owner_def dest: on_mutex_outcome(2))
  show "\<exists>w'. pool_unlock t a w = Ret () w' \<and> pool_owner a w' = None \<and> pool_plain a w'"
    if "pool_owner a w = Some t"
    using blue.unlock_own [OF m, of t] that
    by (auto simp: pool_unlock_def pool_owner_def pool_plain_def dest!: on_mutex_outcome(1) [where f = "mutex_unlock t"])
qed

interpretation wql: lockable "\<lambda>t. wq_lock t bt a" "\<lambda>t. wq_unlock t a" "pool_owner a" "pool_plain a" for bt a
  unfolding wq_lock_def wq_unlock_def by (rule pl.lockable_axioms)

section \<open>What a wait does to the caller's lock\<close>

lemma unlock_free_aborts:
  assumes "pool_plain a w" "pool_owner a w = None"
  shows "pool_unlock t a w = Abort"
  using assms
  by (simp add: pool_unlock_def on_mutex_def mutex_unlock_def pre_unlock_def assert_that_def pool_plain_def
      plain_inv_def pool_owner_def owner_def mutex_inv_def)

lemma pool_wait_run:
  assumes "pool_plain a w" "pool_owner a w = Some t" "waits_on a w"
  shows "pool_wait t a w = Block (asleep t a w)" "pool_wait_self t a w = Block (asleep t a w)"
    "pool_plain a (asleep t a w)" "pool_owner a (asleep t a w) = None"
proof -
  have m: "mutex_inv (cv_mx w a)" "pm_owner (pm (cv_mx w a)) = Some t"
    using assms(1,2) by (simp_all add: pool_plain_def plain_inv_def pool_owner_def owner_def)
  show "pool_wait t a w = Block (asleep t a w)" "pool_wait_self t a w = Block (asleep t a w)"
    using cv_wait_owner(1) [OF m assms(3)] by (simp_all add: pool_wait_def pool_wait_self_def scope_end_def)
  show "pool_plain a (asleep t a w)" "pool_owner a (asleep t a w) = None"
    using assms(1) freed_inv [OF m(1)]
    by (simp_all add: pool_plain_def plain_inv_def pool_owner_def owner_def asleep_def) (simp_all add: freed_def)
qed

lemma pool_resume_run:
  assumes "pool_plain a w" "pool_owner a w = None" "waiter_mutex (cv w) = Some a"
  shows "\<exists>w'. pool_wait_resume 0 t a w = Ret () w' \<and> pool_plain a w' \<and> pool_owner a w' = None"
proof -
  have m: "mutex_inv (cv_mx w a)" "pm_owner (pm (cv_mx w a)) = None"
    using assms(1,2) by (simp_all add: pool_plain_def plain_inv_def pool_owner_def owner_def)
  let ?w = "w\<lparr>cv_mx := (cv_mx w)(a := taken t (cv_mx w a))\<rparr>"
  have "pool_plain a ?w" "pool_owner a ?w = Some t"
    using assms(1) taken_inv [OF m(1)]
    by (simp_all add: pool_plain_def plain_inv_def pool_owner_def owner_def) (simp_all add: taken_def pm_take_def)
  from pl.unlock_own [OF this] show ?thesis
    using resume_free(1) [OF assms(3) m] by (auto simp: pool_wait_resume_def scope_end_def)
qed

text \<open>
  \<^verbatim>\<open>wait()\<close> loses the caller's lock. A caller that has the pool's lock and calls \<^verbatim>\<open>wait(c)\<close> or
  \<^verbatim>\<open>_wait()\<close> goes to sleep with the lock free, and when it is woken and the lock is free the
  call returns with the lock free again: the adopted \<^verbatim>\<open>unique_lock\<close> releases it on return. Any
  other thread can take the lock then, and the caller's own \<^verbatim>\<open>unlock()\<close> ends the process.
\<close>
theorem pool_wait_loses_lock:
  assumes "pool_plain a w" "pool_owner a w = Some t" "waits_on a w"
  shows "\<exists>w1. pool_wait t a w = Block w1 \<and> pool_wait_self t a w = Block w1 \<and> pool_owner a w1 = None \<and>
    t \<in> set (cond_waiters (cv w1)) \<and>
    (\<exists>w2. pool_wait_resume 0 t a (set_waiters (remove1 t (cond_waiters (cv w1))) w1) = Ret () w2 \<and>
       pool_owner a w2 = None \<and> pool_unlock t a w2 = Abort \<and>
       (\<exists>w3. pool_lock u bt a w2 = Ret () w3 \<and> pool_owner a w3 = Some u))"
proof -
  note sleep = pool_wait_run [OF assms]
  let ?w = "set_waiters (remove1 t (cond_waiters (cv (asleep t a w)))) (asleep t a w)"
  have "pool_plain a ?w" "pool_owner a ?w = None" "waiter_mutex (cv ?w) = Some a"
    using sleep(3,4) by (simp_all add: pool_plain_def pool_owner_def) (simp add: asleep_def)
  then obtain w2 where w2: "pool_wait_resume 0 t a ?w = Ret () w2" "pool_plain a w2" "pool_owner a w2 = None"
    using pool_resume_run by blast
  obtain w3 where "pool_lock u bt a w2 = Ret () w3" "pool_owner a w3 = Some u"
    using pl.lock_free [OF w2(2,3)] by blast
  moreover have "t \<in> set (cond_waiters (cv (asleep t a w)))" by (simp add: asleep_def)
  ultimately show ?thesis using sleep(1,2,4) w2 unlock_free_aborts [OF w2(2,3)] by blast
qed

theorem pool_wait_loses_lock_witness:
  "\<exists>w1 w2. pool_wait 7 0 (cv_demo \<lparr>ld = lockdep_init, mu = taken 7 (new_mutex ''m'' False)\<rparr>) = Block w1 \<and>
     pool_wait_resume 0 7 0 (set_waiters (remove1 7 (cond_waiters (cv w1))) w1) = Ret () w2 \<and>
     pool_unlock 7 0 w2 = Abort"
proof -
  let ?w = "cv_demo \<lparr>ld = lockdep_init, mu = taken 7 (new_mutex ''m'' False)\<rparr>"
  have "mutex_inv (new_mutex ''m'' False)" by (simp add: mutex_inv_def new_mutex_def pthread_mutex_init_def)
  from taken_inv [OF this] have "pool_plain 0 ?w" "pool_owner 0 ?w = Some 7" "waits_on 0 ?w"
    by (simp_all add: pool_plain_def plain_inv_def pool_owner_def owner_def)
      (simp_all add: taken_def pm_take_def new_mutex_def)
  from pool_wait_loses_lock [OF this, of 8 bt_demo] show ?thesis by blast
qed

text \<open>
  \<^verbatim>\<open>wake()\<close> on a free lock wakes every sleeper and leaves the lock free; \<^verbatim>\<open>_wake()\<close>, called with the
  lock held, wakes every sleeper and leaves the lock held; called without it, once somebody has
  waited, it ends the process.
\<close>
lemma pool_wake_correct:
  assumes "pool_plain a w" "waits_on a w"
  shows "pool_owner a w = None \<Longrightarrow> \<exists>w'. pool_wake t bt a 0 w = Ret () w' \<and> pool_owner a w' = None \<and>
      cond_waiters (cv w') = []"
    and "pool_owner a w = Some u \<Longrightarrow> pool_wake_locked 0 w = Ret () (set_waiters [] w)"
    and "pool_owner a w = None \<Longrightarrow> waiter_mutex (cv w) \<noteq> None \<Longrightarrow> pool_wake_locked 0 w = Abort"
proof -
  have notify: "notify_all 0 x = Ret () (set_waiters [] x)"
    if "pool_plain a x" "pool_owner a x = Some v" "waits_on a x" for x v
    using that mutex_inv_is_locked(1) [of "cv_mx x a"]
    by (auto simp: notify_all_def cv_may_notify_def assert_that_def pool_plain_def plain_inv_def pool_owner_def
        owner_def waits_on_def)
  show "pool_owner a w = Some u \<Longrightarrow> pool_wake_locked 0 w = Ret () (set_waiters [] w)"
    using notify assms by (simp add: pool_wake_locked_def)
  show "pool_owner a w = None \<Longrightarrow> waiter_mutex (cv w) \<noteq> None \<Longrightarrow> pool_wake_locked 0 w = Abort"
    using assms mutex_inv_is_locked(1) [of "cv_mx w a"]
    by (auto simp: pool_wake_locked_def notify_all_def cv_may_notify_def assert_that_def pool_plain_def
        plain_inv_def pool_owner_def owner_def waits_on_def)
  assume free: "pool_owner a w = None"
  obtain w1 where w1: "pool_lock t bt a w = Ret () w1" "pool_owner a w1 = Some t" "pool_plain a w1"
    using pl.lock_free [OF assms(1) free] by blast
  have "cv w1 = cv w" using w1(1) by (auto simp: pool_lock_def on_mutex_def lift_state_eq_Ret_iff)
  then have n: "notify_all 0 w1 = Ret () (set_waiters [] w1)" using notify w1(2,3) assms(2) by (simp add: waits_on_def)
  have "pool_plain a (set_waiters [] w1)" "pool_owner a (set_waiters [] w1) = Some t"
    using w1(2,3) by (simp_all add: pool_plain_def pool_owner_def)
  then obtain w2 where w2: "pool_unlock t a (set_waiters [] w1) = Ret () w2" "pool_owner a w2 = None"
    using pl.unlock_own by blast
  moreover have "cv w2 = cv (set_waiters [] w1)"
    using w2(1) by (auto simp: pool_unlock_def on_mutex_def lift_state_eq_Ret_iff)
  ultimately show "\<exists>w'. pool_wake t bt a 0 w = Ret () w' \<and> pool_owner a w' = None \<and> cond_waiters (cv w') = []"
    using w1(1) n by (simp add: pool_wake_def lock_guard_def)
qed

end
