(* ===== verification/Shared_Mutex.thy ===== *)
theory Shared_Mutex
  imports Mutex
begin

text \<open>
  \<^verbatim>\<open>synchronization/shared_mutex.h\<close> and \<^verbatim>\<open>shared_mutex.cc\<close>: the read-write lock
  \<^verbatim>\<open>shared_mutex_debug\<close> over \<^verbatim>\<open>pthread_rwlock_t\<close>. It shares the base class with
  \<^verbatim>\<open>BlueMutex\<close>; its counters are kept only when the lock-order checker is on.
\<close>

section \<open>Operations\<close>

record shared_mutex = mutex_base +
  rwlock :: prwlock
  read_locked_count :: "32 word"

type_synonym sstate = "shared_mutex mworld"

definition new_shared :: "string \<Rightarrow> bool \<Rightarrow> bool \<Rightarrow> shared_mutex" where
  "new_shared name dep prioritize_write =
     \<lparr>lock_name = name, m_id = -1, lockdep = dep, locked_count = 0, locked_by = None,
      rwlock = pthread_rwlock_init prioritize_write, read_locked_count = 0\<rparr>"

definition shared_ctor :: "string \<Rightarrow> bool \<Rightarrow> bool \<Rightarrow> lockdep_state \<Rightarrow> (unit, sstate) outcome" where
  "shared_ctor name dep prioritize_write l =
     base_ctor \<lparr>ld = l, mu = new_shared name dep prioritize_write\<rparr>"

text \<open>The destructor ignores the result of \<^verbatim>\<open>pthread_rwlock_destroy\<close>.\<close>

definition shared_dtor :: "sstate \<Rightarrow> (unit, sstate) outcome" where
  "shared_dtor s = base_dtor s"

definition shared_is_wlocked :: "shared_mutex \<Rightarrow> bool" where
  "shared_is_wlocked m = (0 < locked_count m)"

definition shared_is_rlocked :: "shared_mutex \<Rightarrow> bool" where
  "shared_is_rlocked m = (0 < read_locked_count m)"

definition shared_is_locked :: "shared_mutex \<Rightarrow> bool" where
  "shared_is_locked m = (0 < read_locked_count m \<or> 0 < locked_count m)"

definition shared_pre_unlock :: "tid \<Rightarrow> sstate \<Rightarrow> (unit, sstate) outcome" where
  "shared_pre_unlock t s =
     (if lockdep (mu s) then
        bind (assert_that (0 < locked_count (mu s)) s) (\<lambda>_ s.
        bind (Ret () (s\<lparr>mu := (mu s)\<lparr>locked_count := locked_count (mu s) - 1\<rparr>\<rparr>)) (\<lambda>_ s.
        bind (assert_that (locked_by (mu s) = Some t) s) (\<lambda>_ s.
        assert_that (locked_count (mu s) = 0) s)))
      else Ret () s)"

definition shared_post_lock :: "tid \<Rightarrow> sstate \<Rightarrow> (unit, sstate) outcome" where
  "shared_post_lock t s =
     (if lockdep (mu s) then
        bind (assert_that (locked_count (mu s) = 0) s) (\<lambda>_ s.
        Ret () (s\<lparr>mu := (mu s)\<lparr>locked_count := locked_count (mu s) + 1, locked_by := Some t\<rparr>\<rparr>))
      else Ret () s)"

definition shared_pre_unlock_shared :: "sstate \<Rightarrow> (unit, sstate) outcome" where
  "shared_pre_unlock_shared s =
     (if lockdep (mu s) then
        bind (assert_that (0 < read_locked_count (mu s)) s) (\<lambda>_ s.
        Ret () (s\<lparr>mu := (mu s)\<lparr>read_locked_count := read_locked_count (mu s) - 1\<rparr>\<rparr>))
      else Ret () s)"

definition shared_post_lock_shared :: "sstate \<Rightarrow> (unit, sstate) outcome" where
  "shared_post_lock_shared s =
     (if lockdep (mu s) then
        Ret () (s\<lparr>mu := (mu s)\<lparr>read_locked_count := read_locked_count (mu s) + 1\<rparr>\<rparr>)
      else Ret () s)"

text \<open>\<^verbatim>\<open>if (int r = call; r != 0) throw system_error(r)\<close>, or waiting.\<close>

definition rw_result :: "errno option \<times> prwlock \<Rightarrow> sstate \<Rightarrow> (unit, sstate) outcome" where
  "rw_result rp s =
     (case rp of (r, p) \<Rightarrow>
        let s' = s\<lparr>mu := (mu s)\<lparr>rwlock := p\<rparr>\<rparr>
        in (case r of
              None \<Rightarrow> Block s'
            | Some e \<Rightarrow> if e \<noteq> 0 then Throw (System_error e) s' else Ret () s'))"

definition shared_lock :: "tid \<Rightarrow> BackTrace \<Rightarrow> sstate \<Rightarrow> (unit, sstate) outcome" where
  "shared_lock t bt s =
     bind (when_lockdep (base_will_lock t bt) s) (\<lambda>_ s.
     bind (rw_result (pthread_rwlock_wrlock t (rwlock (mu s))) s) (\<lambda>_ s.
     bind (when_lockdep (base_locked t bt) s) (\<lambda>_ s.
     shared_post_lock t s)))"

definition rw_unlock :: "tid \<Rightarrow> sstate \<Rightarrow> (unit, sstate) outcome" where
  "rw_unlock t s =
     (case pthread_rwlock_unlock t (rwlock (mu s)) of (r, p) \<Rightarrow> rw_result (Some r, p) s)"

definition shared_unlock :: "tid \<Rightarrow> sstate \<Rightarrow> (unit, sstate) outcome" where
  "shared_unlock t s =
     bind (shared_pre_unlock t s) (\<lambda>_ s.
     bind (when_lockdep (base_will_unlock t) s) (\<lambda>_ s.
     rw_unlock t s))"

definition shared_lock_shared :: "tid \<Rightarrow> BackTrace \<Rightarrow> sstate \<Rightarrow> (unit, sstate) outcome" where
  "shared_lock_shared t bt s =
     bind (when_lockdep (base_will_lock t bt) s) (\<lambda>_ s.
     bind (rw_result (pthread_rwlock_rdlock t (rwlock (mu s))) s) (\<lambda>_ s.
     bind (when_lockdep (base_locked t bt) s) (\<lambda>_ s.
     shared_post_lock_shared s)))"

definition shared_unlock_shared :: "tid \<Rightarrow> sstate \<Rightarrow> (unit, sstate) outcome" where
  "shared_unlock_shared t s =
     bind (shared_pre_unlock_shared s) (\<lambda>_ s.
     bind (when_lockdep (base_will_unlock t) s) (\<lambda>_ s.
     rw_unlock t s))"

section \<open>Without the checker: the scoped-locking contract\<close>

definition shared_writer :: "sstate \<Rightarrow> tid option" where
  "shared_writer s = rw_writer (rwlock (mu s))"

definition shared_readers :: "sstate \<Rightarrow> tid list" where
  "shared_readers s = rw_readers (rwlock (mu s))"

definition shared_plain_inv :: "sstate \<Rightarrow> bool" where
  "shared_plain_inv s \<longleftrightarrow> \<not> lockdep (mu s) \<and> shared_readers s = []"

lemmas shared_defs =
  shared_lock_def shared_unlock_def shared_lock_shared_def shared_unlock_shared_def
  shared_pre_unlock_def shared_post_lock_def shared_pre_unlock_shared_def
  shared_post_lock_shared_def rw_result_def rw_unlock_def when_lockdep_def
  pthread_rwlock_wrlock_def pthread_rwlock_rdlock_def pthread_rwlock_unlock_def
  assert_that_def Let_def

interpretation shared: lockable "\<lambda>t. shared_lock t bt" shared_unlock shared_writer shared_plain_inv
  for bt
proof unfold_locales
  fix s :: sstate and t u
  assume inv: "shared_plain_inv s"
  show "\<exists>s'. shared_lock t bt s = Ret () s' \<and> shared_writer s' = Some t \<and> shared_plain_inv s'"
    if "shared_writer s = None"
    using inv that by (simp add: shared_plain_inv_def shared_writer_def shared_readers_def shared_defs)
  show "\<exists>s'. shared_lock t bt s = Block s'" if "shared_writer s = Some u" "u \<noteq> t"
    using inv that by (simp add: shared_plain_inv_def shared_writer_def shared_readers_def shared_defs)
  show "\<exists>s'. shared_lock t bt s = Throw (System_error EDEADLK) s'" if "shared_writer s = Some t"
    using inv that by (simp add: shared_plain_inv_def shared_writer_def shared_readers_def shared_defs)
  show "\<exists>s'. shared_unlock t s = Ret () s' \<and> shared_writer s' = None \<and> shared_plain_inv s'"
    if "shared_writer s = Some t"
    using inv that by (simp add: shared_plain_inv_def shared_writer_def shared_readers_def shared_defs)
qed

section \<open>Readers and writers\<close>

definition rw_excl :: "sstate \<Rightarrow> bool" where
  "rw_excl s \<longleftrightarrow> shared_writer s = None \<or> shared_readers s = []"

text \<open>The state a call leaves behind, unless it ends the process.\<close>

fun final_state :: "('a, 's) outcome \<Rightarrow> 's option" where
  "final_state (Ret _ s) = Some s"
| "final_state (Throw _ s) = Some s"
| "final_state (Block s) = Some s"
| "final_state Abort = None"
| "final_state Undef = None"

lemma final_state_bind:
  assumes "final_state (bind m f) = Some s'"
  shows "(\<exists>a s1. m = Ret a s1 \<and> final_state (f a s1) = Some s') \<or> final_state m = Some s'"
  using assms by (cases m) auto

lemma final_state_assert: "final_state (assert_that c s) = Some s' \<Longrightarrow> s' = s"
  by (auto simp: assert_that_def split: if_splits)

text \<open>The hooks of the checker change neither the lock nor the counters.\<close>

definition same_lock :: "sstate \<Rightarrow> sstate \<Rightarrow> bool" where
  "same_lock s s' \<longleftrightarrow> rwlock (mu s') = rwlock (mu s) \<and> locked_count (mu s') = locked_count (mu s) \<and>
     locked_by (mu s') = locked_by (mu s) \<and> read_locked_count (mu s') = read_locked_count (mu s) \<and>
     lockdep (mu s') = lockdep (mu s)"

lemma set_id_same_lock:
  "final_state (set_id (call_lockdep f s)) = Some s' \<Longrightarrow> same_lock s s'"
  by (cases "f (ld s)") (auto simp: set_id_def call_lockdep_def same_lock_def)

lemma hook_same_lock:
  "final_state (when_lockdep (base_will_lock t bt) s) = Some s' \<Longrightarrow> same_lock s s'"
  "final_state (when_lockdep (base_locked t bt) s) = Some s' \<Longrightarrow> same_lock s s'"
  "final_state (when_lockdep (base_will_unlock t) s) = Some s' \<Longrightarrow> same_lock s s'"
  by (auto simp: when_lockdep_def base_will_lock_def base_locked_def base_will_unlock_def
      set_id_same_lock split: if_splits) (simp_all add: same_lock_def)

lemma hook_Ret_same_lock:
  "when_lockdep (base_will_lock t bt) s = Ret u s' \<Longrightarrow> same_lock s s'"
  "when_lockdep (base_locked t bt) s = Ret u s' \<Longrightarrow> same_lock s s'"
  "when_lockdep (base_will_unlock t) s = Ret u s' \<Longrightarrow> same_lock s s'"
  using hook_same_lock(1,2) [of t bt s s'] hook_same_lock(3) [of t s s'] by auto

lemma shared_lock_Ret:
  assumes "shared_lock t bt s = Ret u s'"
  shows "shared_writer s = None \<and> shared_readers s = [] \<and> shared_writer s' = Some t \<and>
    shared_readers s' = [] \<and> lockdep (mu s') = lockdep (mu s) \<and>
    read_locked_count (mu s') = read_locked_count (mu s) \<and>
    (if lockdep (mu s) then locked_count (mu s) = 0 \<and> locked_count (mu s') = 1 \<and>
       locked_by (mu s') = Some t
     else locked_count (mu s') = locked_count (mu s))"
proof -
  obtain s1 s2 s3 where run: "when_lockdep (base_will_lock t bt) s = Ret () s1"
    "rw_result (pthread_rwlock_wrlock t (rwlock (mu s1))) s1 = Ret () s2"
    "when_lockdep (base_locked t bt) s2 = Ret () s3" "shared_post_lock t s3 = Ret u s'"
    using assms by (auto simp: shared_lock_def bind_eq_Ret_iff)
  have "shared_writer s1 = None" "shared_readers s1 = []"
    "mu s2 = (mu s1)\<lparr>rwlock := (rwlock (mu s1))\<lparr>rw_writer := Some t,
       rw_waiting := remove1 t (rw_waiting (rwlock (mu s1)))\<rparr>\<rparr>"
    using run(2) by (auto simp: rw_result_def pthread_rwlock_wrlock_def shared_writer_def
        shared_readers_def Let_def split: if_splits)
  then show ?thesis
    using hook_Ret_same_lock(1) [OF run(1)] hook_Ret_same_lock(2) [OF run(3)] run(4)
    by (auto simp: same_lock_def shared_writer_def shared_readers_def shared_post_lock_def
        assert_that_def split: if_splits)
qed

lemma shared_lock_shared_Ret:
  assumes "shared_lock_shared t bt s = Ret u s'"
  shows "shared_writer s = None \<and> shared_writer s' = None \<and>
    shared_readers s' = t # shared_readers s \<and> lockdep (mu s') = lockdep (mu s) \<and>
    locked_count (mu s') = locked_count (mu s) \<and> locked_by (mu s') = locked_by (mu s) \<and>
    read_locked_count (mu s') =
      (if lockdep (mu s) then read_locked_count (mu s) + 1 else read_locked_count (mu s))"
proof -
  obtain s1 s2 s3 where run: "when_lockdep (base_will_lock t bt) s = Ret () s1"
    "rw_result (pthread_rwlock_rdlock t (rwlock (mu s1))) s1 = Ret () s2"
    "when_lockdep (base_locked t bt) s2 = Ret () s3" "shared_post_lock_shared s3 = Ret u s'"
    using assms by (auto simp: shared_lock_shared_def bind_eq_Ret_iff)
  have "shared_writer s1 = None"
    "mu s2 = (mu s1)\<lparr>rwlock := (rwlock (mu s1))\<lparr>rw_readers := t # rw_readers (rwlock (mu s1))\<rparr>\<rparr>"
    using run(2) by (auto simp: rw_result_def pthread_rwlock_rdlock_def shared_writer_def
        Let_def split: if_splits)
  then show ?thesis
    using hook_Ret_same_lock(1) [OF run(1)] hook_Ret_same_lock(2) [OF run(3)] run(4)
    by (auto simp: same_lock_def shared_writer_def shared_readers_def shared_post_lock_shared_def
        split: if_splits)
qed

lemma rw_unlock_Ret:
  assumes "rw_unlock t s = Ret u s'"
  shows "(shared_writer s = Some t \<and> shared_writer s' = None \<and> shared_readers s' = shared_readers s \<or>
     shared_writer s \<noteq> Some t \<and> t \<in> set (shared_readers s) \<and> shared_writer s' = shared_writer s \<and>
       shared_readers s' = remove1 t (shared_readers s)) \<and>
    (\<exists>r. mu s' = (mu s)\<lparr>rwlock := r\<rparr>)"
  using assms
  by (auto simp: rw_unlock_def rw_result_def pthread_rwlock_unlock_def shared_writer_def
      shared_readers_def Let_def split: if_splits)

lemma shared_unlock_Ret:
  assumes "shared_unlock t s = Ret u s'"
  obtains s1 s2 where "shared_pre_unlock t s = Ret () s1" "same_lock s1 s2" "rw_unlock t s2 = Ret u s'"
  using assms that by (auto simp: shared_unlock_def bind_eq_Ret_iff dest: hook_Ret_same_lock(3))

lemma shared_unlock_shared_Ret:
  assumes "shared_unlock_shared t s = Ret u s'"
  obtains s1 s2 where "shared_pre_unlock_shared s = Ret () s1" "same_lock s1 s2"
    "rw_unlock t s2 = Ret u s'"
  using assms that
  by (auto simp: shared_unlock_shared_def bind_eq_Ret_iff dest: hook_Ret_same_lock(3))

text \<open>
  The bookkeeping with the checker on: the write counter is 1 exactly while a thread has
  the lock for writing, and that thread is the recorded one; the read counter is the number
  of read locks, at its width of 32 bits.
\<close>

definition shared_counts :: "sstate \<Rightarrow> bool" where
  "shared_counts s \<longleftrightarrow>
     (case shared_writer s of
        None \<Rightarrow> locked_count (mu s) = 0
      | Some t \<Rightarrow> locked_count (mu s) = 1 \<and> locked_by (mu s) = Some t) \<and>
     read_locked_count (mu s) = word_of_nat (length (shared_readers s))"

definition shared_inv :: "sstate \<Rightarrow> bool" where
  "shared_inv s \<longleftrightarrow> rw_excl s \<and> (lockdep (mu s) \<longrightarrow> shared_counts s)"

lemma length_remove1_word:
  assumes "t \<in> set xs"
  shows "(word_of_nat (length (remove1 t xs)) :: 32 word) = word_of_nat (length xs) - 1"
proof -
  obtain n where "length xs = Suc n" using assms by (cases xs) auto
  then show ?thesis using assms by (simp add: length_remove1)
qed

lemma shared_unlock_inv:
  assumes "shared_inv s" "shared_unlock t s = Ret u s'"
  shows "shared_inv s' \<and> lockdep (mu s') = lockdep (mu s)"
proof -
  obtain s1 s2 where run: "shared_pre_unlock t s = Ret () s1" "same_lock s1 s2"
    "rw_unlock t s2 = Ret u s'"
    using assms(2) by (rule shared_unlock_Ret)
  have pre: "shared_writer s2 = shared_writer s" "shared_readers s2 = shared_readers s"
    "lockdep (mu s2) = lockdep (mu s)" "read_locked_count (mu s2) = read_locked_count (mu s)"
    "lockdep (mu s) \<Longrightarrow> locked_count (mu s2) = 0 \<and> locked_count (mu s) = 1 \<and> locked_by (mu s) = Some t"
    using run(1,2) by (auto simp: shared_pre_unlock_def same_lock_def assert_that_def shared_writer_def
        shared_readers_def split: if_splits)
  show ?thesis
    using rw_unlock_Ret [OF run(3)] pre assms(1)
    by (auto simp: shared_inv_def rw_excl_def shared_counts_def split: option.splits)
qed

lemma shared_unlock_shared_inv:
  assumes "shared_inv s" "shared_unlock_shared t s = Ret u s'"
  shows "shared_inv s' \<and> lockdep (mu s') = lockdep (mu s)"
proof -
  obtain s1 s2 where run: "shared_pre_unlock_shared s = Ret () s1" "same_lock s1 s2"
    "rw_unlock t s2 = Ret u s'"
    using assms(2) by (rule shared_unlock_shared_Ret)
  have pre: "shared_writer s2 = shared_writer s" "shared_readers s2 = shared_readers s"
    "lockdep (mu s2) = lockdep (mu s)" "locked_count (mu s2) = locked_count (mu s)"
    "locked_by (mu s2) = locked_by (mu s)"
    "lockdep (mu s) \<Longrightarrow> read_locked_count (mu s2) = read_locked_count (mu s) - 1 \<and>
       0 < read_locked_count (mu s)"
    using run(1,2) by (auto simp: shared_pre_unlock_shared_def same_lock_def assert_that_def
        shared_writer_def shared_readers_def split: if_splits)
  show ?thesis
    using rw_unlock_Ret [OF run(3)] pre assms(1) length_remove1_word [of t "shared_readers s"]
    by (auto simp: shared_inv_def rw_excl_def shared_counts_def split: option.splits)
qed

text \<open>
  C36: readers and writers exclude each other. Whichever of the four operations returns, it
  never leaves a writer together with a reader; \<^verbatim>\<open>lock()\<close> returns only when nobody held the
  lock, \<^verbatim>\<open>lock_shared()\<close> only when no thread held it for writing; and with the checker on
  the counters keep counting exactly the write lock and the read locks.
\<close>
theorem shared_mutex_exclusion:
  assumes "shared_inv s"
  shows "(shared_lock t bt s = Ret () s' \<longrightarrow>
      shared_writer s = None \<and> shared_readers s = [] \<and> shared_writer s' = Some t \<and> shared_inv s') \<and>
    (shared_lock_shared t bt s = Ret () s' \<longrightarrow>
      shared_writer s = None \<and> shared_readers s' = t # shared_readers s \<and> shared_inv s') \<and>
    (shared_unlock t s = Ret () s' \<longrightarrow> shared_inv s') \<and>
    (shared_unlock_shared t s = Ret () s' \<longrightarrow> shared_inv s')"
proof (intro conjI impI)
  assume r: "shared_lock t bt s = Ret () s'"
  from shared_lock_Ret [OF r] assms
  show "shared_writer s = None" "shared_readers s = []" "shared_writer s' = Some t" "shared_inv s'"
    by (auto simp: shared_inv_def rw_excl_def shared_counts_def split: if_splits)
next
  assume r: "shared_lock_shared t bt s = Ret () s'"
  from shared_lock_shared_Ret [OF r] assms
  show "shared_writer s = None" "shared_readers s' = t # shared_readers s" "shared_inv s'"
    by (auto simp: shared_inv_def rw_excl_def shared_counts_def add.commute split: if_splits)
next
  assume "shared_unlock t s = Ret () s'"
  then show "shared_inv s'" using shared_unlock_inv [OF assms] by blast
next
  assume "shared_unlock_shared t s = Ret () s'"
  then show "shared_inv s'" using shared_unlock_shared_inv [OF assms] by blast
qed

definition shared_demo :: sstate where
  "shared_demo = \<lparr>ld = lockdep_init, mu = new_shared ''hb'' False False\<rparr>"

lemma shared_demo_inv: "shared_inv shared_demo"
  by (simp add: shared_demo_def shared_inv_def rw_excl_def shared_writer_def new_shared_def
      pthread_rwlock_init_def)

theorem shared_mutex_exclusion_witness:
  "\<exists>s'. shared_lock_shared 1 bt_demo shared_demo = Ret () s' \<and> shared_readers s' = [1] \<and> shared_inv s'"
proof -
  obtain s' where r: "shared_lock_shared 1 bt_demo shared_demo = Ret () s'"
    by (simp add: shared_demo_def new_shared_def pthread_rwlock_init_def shared_defs)
  have "shared_readers shared_demo = []"
    by (simp add: shared_demo_def shared_readers_def new_shared_def pthread_rwlock_init_def)
  then show ?thesis using shared_mutex_exclusion [OF shared_demo_inv, of 1 bt_demo s'] r by simp
qed

text \<open>
  with the checker on, the queries tell the truth: \<^verbatim>\<open>is_wlocked()\<close> holds exactly while a
  thread has the lock for writing, \<^verbatim>\<open>is_rlocked()\<close> exactly while there are read locks, as long
  as there are fewer than \<open>2\<^sup>3\<^sup>2\<close> of them.
\<close>
theorem shared_queries_truthful:
  assumes "shared_inv s" "lockdep (mu s)" "length (shared_readers s) < 2 ^ 32"
  shows "(shared_is_wlocked (mu s) \<longleftrightarrow> shared_writer s \<noteq> None) \<and>
    (shared_is_rlocked (mu s) \<longleftrightarrow> shared_readers s \<noteq> []) \<and>
    (shared_is_locked (mu s) \<longleftrightarrow> shared_writer s \<noteq> None \<or> shared_readers s \<noteq> [])"
proof -
  have "(word_of_nat (length (shared_readers s)) :: 32 word) = 0 \<longleftrightarrow> shared_readers s = []"
    using assms(3) by (auto simp: word_of_nat_eq_0_iff dest: dvd_imp_le)
  then have "(0 :: 32 word) < word_of_nat (length (shared_readers s)) \<longleftrightarrow> shared_readers s \<noteq> []"
    by (metis word_gt_0)
  then show ?thesis
    using assms(1,2)
    by (auto simp: shared_inv_def shared_counts_def shared_is_wlocked_def shared_is_rlocked_def
        shared_is_locked_def split: option.splits)
qed

theorem shared_queries_truthful_witness:
  "\<not> shared_is_locked (mu (\<lparr>ld = lockdep_init, mu = new_shared ''hb'' True False\<rparr> :: sstate))"
proof -
  let ?s = "\<lparr>ld = lockdep_init, mu = new_shared ''hb'' True False\<rparr> :: sstate"
  have "shared_inv ?s" "lockdep (mu ?s)" "length (shared_readers ?s) < 2 ^ 32"
    by (simp_all add: shared_inv_def rw_excl_def shared_counts_def shared_writer_def
        shared_readers_def new_shared_def pthread_rwlock_init_def)
  from shared_queries_truthful [OF this] show ?thesis
    by (simp add: shared_writer_def shared_readers_def new_shared_def pthread_rwlock_init_def)
qed

text \<open>
  without the checker the counters are never touched, so after a successful \<^verbatim>\<open>lock()\<close> or
  \<^verbatim>\<open>lock_shared()\<close> on a new lock \<^verbatim>\<open>is_locked()\<close>, \<^verbatim>\<open>is_wlocked()\<close> and \<^verbatim>\<open>is_rlocked()\<close> all
  still answer false.
\<close>
theorem shared_queries_blind_without_lockdep:
  assumes "mu s = new_shared name False pw"
    and "shared_lock t bt s = Ret () s' \<or> shared_lock_shared t bt s = Ret () s'"
  shows "(shared_writer s' = Some t \<or> t \<in> set (shared_readers s')) \<and>
    \<not> shared_is_locked (mu s') \<and> \<not> shared_is_wlocked (mu s') \<and> \<not> shared_is_rlocked (mu s')"
  using assms shared_lock_Ret [of t bt s "()" s'] shared_lock_shared_Ret [of t bt s "()" s']
  by (auto simp: new_shared_def shared_is_locked_def shared_is_wlocked_def shared_is_rlocked_def)

theorem shared_queries_blind_without_lockdep_witness:
  "\<exists>s'. shared_lock 1 bt_demo shared_demo = Ret () s' \<and> \<not> shared_is_wlocked (mu s')"
proof -
  obtain s' where r: "shared_lock 1 bt_demo shared_demo = Ret () s'"
    by (simp add: shared_demo_def new_shared_def pthread_rwlock_init_def shared_defs)
  have "mu shared_demo = new_shared ''hb'' False False" by (simp add: shared_demo_def)
  from shared_queries_blind_without_lockdep [OF this] r show ?thesis by blast
qed

end
