(* ===== verification/Heartbeat.thy ===== *)
theory Heartbeat
  imports Shared_Mutex
begin

text \<open>
  \<^verbatim>\<open>thread/heartbeat.h\<close> and \<^verbatim>\<open>heartbeat.cc\<close>: the worker heartbeats. Times of the steady clock
  are 64-bit words read as signed nanoseconds, the graces are unsigned; \<^verbatim>\<open>now + grace\<close> is
  computed unsigned and stored as a signed time, that is, modulo \<open>2\<^sup>6\<^sup>4\<close>. The clock's value is
  an argument \<open>now\<close>. Handles live at addresses; the map's read-write lock is the shared mutex
  with the checker off.
\<close>

section \<open>State\<close>

type_synonym time = "64 word"
type_synonym grace = "64 word"

definition time_min :: time where
  "time_min = word_of_int (- (2 ^ 63))"

record heartbeat_handle =
  hh_name :: string
  hh_thread_id :: nat
  timeout :: time
  suicide_timeout :: time
  hh_grace :: grace
  hh_suicide_grace :: grace

definition new_handle :: "string \<Rightarrow> heartbeat_handle" where
  "new_handle name =
     \<lparr>hh_name = name, hh_thread_id = 0, timeout = time_min, suicide_timeout = time_min,
      hh_grace = 0, hh_suicide_grace = 0\<rparr>"

record heartbeat_map =
  m_rwlock :: sstate
  m_workers :: "nat list"
  m_unhealthy_workers :: "32 word"
  m_total_workers :: "32 word"
  handles :: "nat \<rightharpoonup> heartbeat_handle"
  next_addr :: nat

definition HeartbeatMap_ctor :: "string \<Rightarrow> lockdep_state \<Rightarrow> heartbeat_map" where
  "HeartbeatMap_ctor name l =
     \<lparr>m_rwlock = \<lparr>ld = l, mu = new_shared name False False\<rparr>, m_workers = [],
      m_unhealthy_workers = 0, m_total_workers = 0, handles = Map.empty, next_addr = 0\<rparr>"

definition HeartbeatMap_dtor :: "heartbeat_map \<Rightarrow> (unit, heartbeat_map) outcome" where
  "HeartbeatMap_dtor s = assert_that (m_workers s = []) s"

section \<open>Operations\<close>

definition expired :: "time \<Rightarrow> time \<Rightarrow> bool" where
  "expired was now \<longleftrightarrow> was \<noteq> time_min \<and> sint was < sint now"

text \<open>
  \<^verbatim>\<open>_check\<close>: the suicide branch sends \<^verbatim>\<open>SIGABRT\<close> and calls \<^verbatim>\<open>ABORT\<close>, so it ends the process.
\<close>

definition check_handle :: "heartbeat_handle \<Rightarrow> time \<Rightarrow> 's \<Rightarrow> (bool, 's) outcome" where
  "check_handle h now s =
     (let healthy = (if expired (timeout h) now then False else True)
      in if expired (suicide_timeout h) now then Abort else Ret healthy s)"

definition hb_wlock :: "BackTrace \<Rightarrow> tid \<Rightarrow> heartbeat_map \<Rightarrow> (unit, heartbeat_map) outcome" where
  "hb_wlock bt t s = lift_state (\<lambda>l. s\<lparr>m_rwlock := l\<rparr>) (shared_lock t bt (m_rwlock s))"

definition hb_wunlock :: "tid \<Rightarrow> heartbeat_map \<Rightarrow> (unit, heartbeat_map) outcome" where
  "hb_wunlock t s = lift_state (\<lambda>l. s\<lparr>m_rwlock := l\<rparr>) (shared_unlock t (m_rwlock s))"

definition hb_rlock :: "BackTrace \<Rightarrow> tid \<Rightarrow> heartbeat_map \<Rightarrow> (unit, heartbeat_map) outcome" where
  "hb_rlock bt t s = lift_state (\<lambda>l. s\<lparr>m_rwlock := l\<rparr>) (shared_lock_shared t bt (m_rwlock s))"

definition hb_runlock :: "tid \<Rightarrow> heartbeat_map \<Rightarrow> (unit, heartbeat_map) outcome" where
  "hb_runlock t s = lift_state (\<lambda>l. s\<lparr>m_rwlock := l\<rparr>) (shared_unlock_shared t (m_rwlock s))"

definition push_worker :: "string \<Rightarrow> nat \<Rightarrow> heartbeat_map \<Rightarrow> (nat, heartbeat_map) outcome" where
  "push_worker name thread_id s =
     (let h = next_addr s
      in Ret h (s\<lparr>handles := (handles s)(h \<mapsto> (new_handle name)\<lparr>hh_thread_id := thread_id\<rparr>),
                  m_workers := h # m_workers s, next_addr := h + 1\<rparr>))"

definition add_worker ::
  "tid \<Rightarrow> BackTrace \<Rightarrow> string \<Rightarrow> nat \<Rightarrow> heartbeat_map \<Rightarrow> (nat, heartbeat_map) outcome" where
  "add_worker t bt name thread_id s =
     lock_guard (hb_wlock bt) hb_wunlock t (push_worker name thread_id) s"

text \<open>Erasing through a handle that is not in the list is undefined.\<close>

definition erase_worker :: "nat \<Rightarrow> heartbeat_map \<Rightarrow> (unit, heartbeat_map) outcome" where
  "erase_worker h s =
     (if h \<in> set (m_workers s) then
        Ret () (s\<lparr>m_workers := remove1 h (m_workers s), handles := (handles s)(h := None)\<rparr>)
      else Undef)"

definition remove_worker ::
  "tid \<Rightarrow> BackTrace \<Rightarrow> nat \<Rightarrow> heartbeat_map \<Rightarrow> (unit, heartbeat_map) outcome" where
  "remove_worker t bt h s = lock_guard (hb_wlock bt) hb_wunlock t (erase_worker h) s"

definition reset_timeout ::
  "time \<Rightarrow> nat \<Rightarrow> grace \<Rightarrow> grace \<Rightarrow> heartbeat_map \<Rightarrow> (unit, heartbeat_map) outcome" where
  "reset_timeout now h grace suicide_grace s =
     (case handles s h of
        None \<Rightarrow> Undef
      | Some c \<Rightarrow>
          bind (check_handle c now s) (\<lambda>_ s.
          let c1 = c\<lparr>timeout := now + grace, hh_grace := grace\<rparr>;
              c2 = (if 0 < suicide_grace then c1\<lparr>suicide_timeout := now + suicide_grace\<rparr>
                    else c1\<lparr>suicide_timeout := time_min\<rparr>)
          in Ret () (s\<lparr>handles := (handles s)(h \<mapsto> c2\<lparr>hh_suicide_grace := suicide_grace\<rparr>)\<rparr>)))"

definition clear_timeout :: "time \<Rightarrow> nat \<Rightarrow> heartbeat_map \<Rightarrow> (unit, heartbeat_map) outcome" where
  "clear_timeout now h s =
     (case handles s h of
        None \<Rightarrow> Undef
      | Some c \<Rightarrow>
          bind (check_handle c now s) (\<lambda>_ s.
          Ret () (s\<lparr>handles := (handles s)(h \<mapsto>
             c\<lparr>timeout := time_min, suicide_timeout := time_min\<rparr>)\<rparr>)))"

text \<open>The loop of \<^verbatim>\<open>is_healthy\<close> with its three accumulators.\<close>

fun check_workers ::
  "time \<Rightarrow> nat list \<Rightarrow> bool \<times> nat \<times> nat \<Rightarrow> heartbeat_map \<Rightarrow> (bool \<times> nat \<times> nat, heartbeat_map) outcome"
where
  "check_workers now [] acc s = Ret acc s"
| "check_workers now (p # ps) (healthy, unhealthy, tot) s =
     (case handles s p of
        None \<Rightarrow> Undef
      | Some c \<Rightarrow>
          bind (check_handle c now s) (\<lambda>ok s.
          check_workers now ps
            (if ok then (healthy, unhealthy, tot + 1) else (False, unhealthy + 1, tot + 1)) s))"

definition hb_is_healthy :: "tid \<Rightarrow> BackTrace \<Rightarrow> time \<Rightarrow> heartbeat_map \<Rightarrow> (bool, heartbeat_map) outcome" where
  "hb_is_healthy t bt now s =
     bind (hb_rlock bt t s) (\<lambda>_ s.
     bind (check_workers now (m_workers s) (True, 0, 0) s) (\<lambda>(healthy, unhealthy, tot) s.
     bind (hb_runlock t s) (\<lambda>_ s.
     Ret healthy (s\<lparr>m_unhealthy_workers := word_of_nat unhealthy,
                    m_total_workers := word_of_nat tot\<rparr>))))"

definition get_unhealthy_workers :: "heartbeat_map \<Rightarrow> int" where
  "get_unhealthy_workers s = sint (m_unhealthy_workers s)"

definition get_total_workers :: "heartbeat_map \<Rightarrow> int" where
  "get_total_workers s = sint (m_total_workers s)"

section \<open>Invariant and locking\<close>

text \<open>
  The listed workers are exactly the live handles, each listed once; new addresses are not in
  use.
\<close>

definition workers_inv :: "heartbeat_map \<Rightarrow> bool" where
  "workers_inv s \<longleftrightarrow> distinct (m_workers s) \<and> set (m_workers s) = dom (handles s) \<and>
     (\<forall>h \<in> dom (handles s). h < next_addr s)"

definition hb_writer :: "heartbeat_map \<Rightarrow> tid option" where
  "hb_writer s = shared_writer (m_rwlock s)"

definition hb_inv :: "heartbeat_map \<Rightarrow> bool" where
  "hb_inv s \<longleftrightarrow> shared_plain_inv (m_rwlock s) \<and> workers_inv s"

lemma workers_inv_lock [simp]: "workers_inv (s\<lparr>m_rwlock := l\<rparr>) = workers_inv s"
  by (simp add: workers_inv_def)

interpretation hb: lockable "hb_wlock bt" hb_wunlock hb_writer hb_inv for bt
proof unfold_locales
  fix s :: heartbeat_map and t u
  assume inv: "hb_inv s"
  then have p: "shared_plain_inv (m_rwlock s)" by (simp add: hb_inv_def)
  show "\<exists>s'. hb_wlock bt t s = Ret () s' \<and> hb_writer s' = Some t \<and> hb_inv s'" if "hb_writer s = None"
    using shared.lock_free [OF p, of t bt] that inv by (auto simp: hb_writer_def hb_wlock_def hb_inv_def)
  show "\<exists>s'. hb_wlock bt t s = Block s'" if "hb_writer s = Some u" "u \<noteq> t"
    using shared.lock_busy [OF p, of u t bt] that by (auto simp: hb_writer_def hb_wlock_def)
  show "\<exists>s'. hb_wlock bt t s = Throw (System_error EDEADLK) s'" if "hb_writer s = Some t"
    using shared.lock_self [OF p, of t bt] that by (auto simp: hb_writer_def hb_wlock_def)
  show "\<exists>s'. hb_wunlock t s = Ret () s' \<and> hb_writer s' = None \<and> hb_inv s'" if "hb_writer s = Some t"
    using shared.unlock_own [OF p, of t] that inv by (auto simp: hb_writer_def hb_wunlock_def hb_inv_def)
qed

text \<open>Everything of the map but its lock.\<close>

definition same_workers :: "heartbeat_map \<Rightarrow> heartbeat_map \<Rightarrow> bool" where
  "same_workers s s' \<longleftrightarrow> (\<exists>l. s' = s\<lparr>m_rwlock := l\<rparr>)"

lemma hb_lock_frame:
  "hb_wlock bt t s = Ret () s' \<Longrightarrow> same_workers s s'"
  "hb_wunlock t s = Ret () s' \<Longrightarrow> same_workers s s'"
  by (auto simp: hb_wlock_def hb_wunlock_def lift_state_eq_Ret_iff same_workers_def)

lemma same_workers_eqs:
  assumes "same_workers s s'"
  shows "m_workers s' = m_workers s" "handles s' = handles s" "next_addr s' = next_addr s"
    "workers_inv s' = workers_inv s"
  using assms by (auto simp: same_workers_def)

text \<open>A body that returns under the write lock runs between lock and unlock.\<close>

lemma hb_guarded:
  assumes "hb_inv s" "hb_writer s = None"
    and body: "\<And>s1. same_workers s s1 \<Longrightarrow> hb_writer s1 = Some t \<Longrightarrow> hb_inv s1 \<Longrightarrow>
      \<exists>s2. body s1 = Ret (a :: 'a) s2 \<and> Q s2 \<and> hb_inv s2 \<and> hb_writer s2 = Some t"
    and Q: "\<And>s2 s3. Q s2 \<Longrightarrow> same_workers s2 s3 \<Longrightarrow> Q s3"
  shows "\<exists>s'. lock_guard (hb_wlock bt) hb_wunlock t body s = Ret a s' \<and> Q s' \<and> hb_inv s' \<and>
    hb_writer s' = None"
proof -
  obtain s1 where s1: "hb_wlock bt t s = Ret () s1" "hb_writer s1 = Some t" "hb_inv s1"
    using hb.lock_free [OF assms(1,2)] by blast
  obtain s2 where s2: "body s1 = Ret a s2" "Q s2" "hb_inv s2" "hb_writer s2 = Some t"
    using body [OF hb_lock_frame(1) [OF s1(1)] s1(2,3)] by blast
  obtain s3 where s3: "hb_wunlock t s2 = Ret () s3" "hb_writer s3 = None" "hb_inv s3"
    using hb.unlock_own [OF s2(3,4)] by blast
  then show ?thesis using s1(1) s2 Q [OF s2(2) hb_lock_frame(2) [OF s3(1)]] by (auto simp: lock_guard_def)
qed

lemma add_worker_run:
  assumes "hb_inv s" "hb_writer s = None"
  shows "\<exists>s'. add_worker t bt name i s = Ret (next_addr s) s' \<and>
    (m_workers s' = next_addr s # m_workers s \<and> next_addr s' = next_addr s + 1 \<and>
     handles s' = (handles s)(next_addr s \<mapsto> (new_handle name)\<lparr>hh_thread_id := i\<rparr>)) \<and>
    hb_inv s' \<and> hb_writer s' = None"
  unfolding add_worker_def
proof (rule hb_guarded [OF assms])
  fix s1 assume s1: "same_workers s s1" "hb_writer s1 = Some t" "hb_inv s1"
  have "workers_inv (s1\<lparr>handles := (handles s1)(next_addr s1 \<mapsto> h), m_workers := next_addr s1 # m_workers s1,
      next_addr := next_addr s1 + 1\<rparr>)" for h
    using s1(3) by (auto simp: hb_inv_def workers_inv_def less_Suc_eq)
  then show "\<exists>s2. push_worker name i s1 = Ret (next_addr s) s2 \<and>
      (m_workers s2 = next_addr s # m_workers s \<and> next_addr s2 = next_addr s + 1 \<and>
       handles s2 = (handles s)(next_addr s \<mapsto> (new_handle name)\<lparr>hh_thread_id := i\<rparr>)) \<and>
      hb_inv s2 \<and> hb_writer s2 = Some t"
    using s1(2,3) same_workers_eqs [OF s1(1)]
    by (simp add: push_worker_def Let_def hb_inv_def hb_writer_def)
qed (auto simp: same_workers_eqs)

lemma remove_worker_run:
  assumes "hb_inv s" "hb_writer s = None" "h \<in> set (m_workers s)"
  shows "\<exists>s'. remove_worker t bt h s = Ret () s' \<and>
    (m_workers s' = remove1 h (m_workers s) \<and> next_addr s' = next_addr s \<and>
     handles s' = (handles s)(h := None)) \<and> hb_inv s' \<and> hb_writer s' = None"
  unfolding remove_worker_def
proof (rule hb_guarded [OF assms(1,2)])
  fix s1 assume s1: "same_workers s s1" "hb_writer s1 = Some t" "hb_inv s1"
  have "workers_inv (s1\<lparr>m_workers := remove1 h (m_workers s1), handles := (handles s1)(h := None)\<rparr>)"
    using s1(3) by (auto simp: hb_inv_def workers_inv_def)
  then show "\<exists>s2. erase_worker h s1 = Ret () s2 \<and>
      (m_workers s2 = remove1 h (m_workers s) \<and> next_addr s2 = next_addr s \<and>
       handles s2 = (handles s)(h := None)) \<and> hb_inv s2 \<and> hb_writer s2 = Some t"
    using s1(2,3) same_workers_eqs [OF s1(1)] assms(3)
    by (simp add: erase_worker_def hb_inv_def hb_writer_def)
qed (auto simp: same_workers_eqs)

text \<open>
  adding a worker and removing it again. Both calls return with the lock free; in between
  exactly one new worker is listed, at an address that was not in use and with both timeouts
  off; afterwards the list of workers and the live handles are what they were. A removal of a
  handle that is not listed does not return.
\<close>
theorem worker_add_remove:
  assumes "hb_inv s" "hb_writer s = None"
  shows "\<exists>h s' s''. add_worker t bt name i s = Ret h s' \<and> hb_inv s' \<and> h \<notin> set (m_workers s) \<and>
    m_workers s' = h # m_workers s \<and>
    (\<exists>c. handles s' h = Some c \<and> hh_thread_id c = i \<and>
       (\<forall>now. \<not> expired (timeout c) now \<and> \<not> expired (suicide_timeout c) now)) \<and>
    remove_worker t bt h s' = Ret () s'' \<and> hb_inv s'' \<and> hb_writer s'' = None \<and>
    m_workers s'' = m_workers s \<and> handles s'' = handles s \<and>
    (\<forall>s3. remove_worker t bt h s'' \<noteq> Ret () s3)"
proof -
  let ?h = "next_addr s"
  obtain s' where s': "add_worker t bt name i s = Ret ?h s'" "m_workers s' = ?h # m_workers s"
    "handles s' = (handles s)(?h \<mapsto> (new_handle name)\<lparr>hh_thread_id := i\<rparr>)" "hb_inv s'"
    "hb_writer s' = None"
    using add_worker_run [OF assms, of t bt name i] by blast
  have fresh: "?h \<notin> set (m_workers s)" "handles s ?h = None"
    using assms(1) by (auto simp: hb_inv_def workers_inv_def)
  obtain s'' where s'': "remove_worker t bt ?h s' = Ret () s''" "m_workers s'' = m_workers s"
    "handles s'' = handles s" "hb_inv s''" "hb_writer s'' = None"
    using remove_worker_run [OF s'(4,5), of ?h t bt] s'(2,3) fresh by (auto simp: fun_upd_idem)
  have "remove_worker t bt ?h s'' \<noteq> Ret () s3" for s3
    using fresh(1) s''(2) same_workers_eqs(1) [OF hb_lock_frame(1)]
    by (auto simp: remove_worker_def lock_guard_def erase_worker_def bind_eq_Ret_iff)
  then show ?thesis using s' s'' fresh by (auto simp: new_handle_def expired_def)
qed

definition hb_demo :: heartbeat_map where
  "hb_demo = HeartbeatMap_ctor ''hb'' lockdep_init"

lemma hb_demo_inv: "hb_inv hb_demo" "hb_writer hb_demo = None"
  by (simp_all add: hb_demo_def HeartbeatMap_ctor_def hb_inv_def workers_inv_def hb_writer_def
      shared_plain_inv_def shared_writer_def shared_readers_def new_shared_def pthread_rwlock_init_def)

theorem worker_add_remove_witness:
  "\<exists>h s' s''. add_worker 7 bt_demo ''w'' 7 hb_demo = Ret h s' \<and> m_workers s' = [h] \<and>
     remove_worker 7 bt_demo h s' = Ret () s'' \<and> HeartbeatMap_dtor s'' = Ret () s''"
proof -
  have "m_workers hb_demo = []" by (simp add: hb_demo_def HeartbeatMap_ctor_def)
  then show ?thesis
    using worker_add_remove [OF hb_demo_inv, of 7 bt_demo "''w''" 7]
    by (fastforce simp: HeartbeatMap_dtor_def assert_that_def)
qed

section \<open>Health\<close>

definition late :: "heartbeat_map \<Rightarrow> time \<Rightarrow> nat \<Rightarrow> bool" where
  "late s now p \<longleftrightarrow> (\<exists>c. handles s p = Some c \<and> expired (timeout c) now)"

definition dead :: "heartbeat_map \<Rightarrow> time \<Rightarrow> nat \<Rightarrow> bool" where
  "dead s now p \<longleftrightarrow> (\<exists>c. handles s p = Some c \<and> expired (suicide_timeout c) now)"

lemma check_workers_eq:
  assumes "set ps \<subseteq> dom (handles s)"
  shows "check_workers now ps (b, u, n) s =
    (if \<exists>p \<in> set ps. dead s now p then Abort
     else Ret (b \<and> (\<forall>p \<in> set ps. \<not> late s now p), u + length (filter (late s now) ps), n + length ps) s)"
  using assms
proof (induction ps arbitrary: b u n)
  case (Cons p ps)
  then obtain c where c: "handles s p = Some c" by auto
  then have "late s now p = expired (timeout c) now" "dead s now p = expired (suicide_timeout c) now"
    by (auto simp: late_def dead_def)
  then show ?case using Cons c by (auto simp: check_handle_def)
qed simp

text \<open>
  C34: \<^verbatim>\<open>is_healthy()\<close>. Called while no thread has the write lock and no writer waits, the call ends the process
  exactly when some worker has passed its suicide timeout. Otherwise it returns whether no
  worker has passed its timeout, the two counters become the number of such workers and of
  all workers, and workers, handles and lock are as before.
\<close>
theorem is_healthy_correct:
  assumes "hb_inv s" "hb_writer s = None" "rw_waiting (rwlock (mu (m_rwlock s))) = []"
  shows "if \<exists>p \<in> set (m_workers s). dead s now p then hb_is_healthy t bt now s = Abort
    else hb_is_healthy t bt now s = Ret (\<forall>p \<in> set (m_workers s). \<not> late s now p)
      (s\<lparr>m_unhealthy_workers := word_of_nat (length (filter (late s now) (m_workers s))),
         m_total_workers := word_of_nat (length (m_workers s))\<rparr>)"
proof -
  let ?r = "rwlock (mu (m_rwlock s))"
  let ?l = "\<lambda>r. (m_rwlock s)\<lparr>mu := (mu (m_rwlock s))\<lparr>rwlock := r\<rparr>\<rparr>"
  have plain: "\<not> lockdep (mu (m_rwlock s))" "rw_writer ?r = None" "rw_readers ?r = []"
    using assms(1,2) by (simp_all add: hb_inv_def shared_plain_inv_def hb_writer_def shared_writer_def
        shared_readers_def)
  have lock: "hb_rlock bt t s = Ret () (s\<lparr>m_rwlock := ?l (?r\<lparr>rw_readers := [t]\<rparr>)\<rparr>)"
    using plain assms(3) by (simp add: hb_rlock_def shared_defs)
  have "?r\<lparr>rw_readers := []\<rparr> = ?r" using plain(3) by simp
  then have unlock: "hb_runlock t (s\<lparr>m_rwlock := ?l (?r\<lparr>rw_readers := [t]\<rparr>)\<rparr>) = Ret () s"
    using plain by (simp add: hb_runlock_def shared_defs)
  have doms: "set (m_workers s) \<subseteq> dom (handles s)"
    using assms(1) by (simp add: hb_inv_def workers_inv_def)
  have "late (s\<lparr>m_rwlock := l\<rparr>) = late s" "dead (s\<lparr>m_rwlock := l\<rparr>) = dead s" for l
    by (simp_all add: late_def dead_def fun_eq_iff)
  then show ?thesis
    using lock unlock doms by (simp add: hb_is_healthy_def check_workers_eq)
qed

theorem is_healthy_correct_witness:
  "hb_is_healthy 7 bt_demo 5 hb_demo = Ret True hb_demo"
proof -
  have "rw_waiting (rwlock (mu (m_rwlock hb_demo))) = []" "m_workers hb_demo = []"
    "hb_demo\<lparr>m_unhealthy_workers := 0, m_total_workers := 0\<rparr> = hb_demo"
    by (simp_all add: hb_demo_def HeartbeatMap_ctor_def new_shared_def pthread_rwlock_init_def)
  then show ?thesis using is_healthy_correct [OF hb_demo_inv] by simp
qed

section \<open>Timeouts at their width\<close>

lemma sint_add_small:
  fixes n g :: time
  assumes "0 \<le> sint n" "sint n + uint g < 2 ^ 63"
  shows "sint (n + g) = sint n + uint g"
proof -
  have "0 \<le> sint n + uint g" using assms(1) by simp
  then have lower: "- (2 ^ 63) \<le> sint n + uint g" by (rule order_trans [rotated]) simp
  have "n + g = word_of_int (sint n + uint g)" by simp
  then have "sint (n + g) = sint (word_of_int (sint n + uint g) :: time)" by (rule arg_cong)
  also have "\<dots> = signed_take_bit 63 (sint n + uint g)" by (simp only: signed_of_int) simp
  also have "\<dots> = sint n + uint g"
    using assms(2) lower by (intro signed_take_bit_int_eq_self) simp_all
  finally show ?thesis .
qed

lemma sint_add_wrapped:
  fixes n g :: time
  assumes "0 \<le> sint n" "2 ^ 63 \<le> sint n + uint g"
  shows "sint (n + g) = sint n + uint g - 2 ^ 64"
proof -
  have "n + g = word_of_int (sint n + uint g)" by simp
  also have "\<dots> = word_of_int (sint n + uint g - 2 ^ 64)"
    by (simp add: word_of_int_eq_iff take_bit_eq_mod)
  finally have "sint (n + g) = sint (word_of_int (sint n + uint g - 2 ^ 64) :: time)" by (rule arg_cong)
  also have "\<dots> = signed_take_bit 63 (sint n + uint g - 2 ^ 64)" by (simp only: signed_of_int) simp
  also have "\<dots> = sint n + uint g - 2 ^ 64"
    using assms uint_lt2p [of g] sint_lt [of n] by (intro signed_take_bit_int_eq_self) simp_all
  finally show ?thesis .
qed

lemma sint_time_min: "sint time_min = - (2 ^ 63)"
  by (simp add: time_min_def)

lemma time_min_iff: "x = time_min \<longleftrightarrow> sint x = - (2 ^ 63)"
  by (metis sint_time_min signed_word_eqI)

lemma reset_timeout_run:
  assumes "handles s h = Some c" "\<not> expired (suicide_timeout c) now"
  shows "reset_timeout now h g sg s = Ret () (s\<lparr>handles := (handles s)(h \<mapsto>
     c\<lparr>timeout := now + g, hh_grace := g, suicide_timeout := (if 0 < sg then now + sg else time_min),
       hh_suicide_grace := sg\<rparr>)\<rparr>)"
  using assms by (simp add: reset_timeout_def check_handle_def Let_def)

text \<open>
  C35: the window of a heartbeat. After \<^verbatim>\<open>reset_timeout\<close> at time \<open>now\<close> with graces \<open>g\<close> and
  \<open>sg\<close> such that the sums stay below \<open>2\<^sup>6\<^sup>3\<close>, a later check of the handle answers healthy
  exactly up to \<open>now + g\<close>, and ends the process exactly after \<open>now + sg\<close> when \<open>sg\<close> is not 0.
\<close>
theorem heartbeat_window:
  assumes "handles s h = Some c" "\<not> expired (suicide_timeout c) now" "0 \<le> sint now"
    "sint now + uint g < 2 ^ 63" "sint now + uint sg < 2 ^ 63"
  shows "\<exists>s' c'. reset_timeout now h g sg s = Ret () s' \<and> handles s' h = Some c' \<and>
    (\<forall>later. check_handle c' later s' =
       (if 0 < sg \<and> sint now + uint sg < sint later then Abort
        else Ret (sint later \<le> sint now + uint g) s'))"
proof -
  have g: "sint (now + g) = sint now + uint g" "sint (now + sg) = sint now + uint sg"
    using assms(3-5) by (simp_all add: sint_add_small)
  moreover have "0 \<le> sint now + uint g" "0 \<le> sint now + uint sg" using assms(3) by simp_all
  ultimately have "now + g \<noteq> time_min" "now + sg \<noteq> time_min" by (auto simp: time_min_iff)
  then show ?thesis
    using g reset_timeout_run [OF assms(1,2), of g sg]
    by (auto simp: check_handle_def expired_def)
qed

theorem heartbeat_window_witness:
  "\<exists>s' c'. reset_timeout 100 0 20 0 (hb_demo\<lparr>handles := [0 \<mapsto> new_handle ''w'']\<rparr>) = Ret () s' \<and>
     handles s' 0 = Some c' \<and> check_handle c' 120 s' = Ret True s' \<and> check_handle c' 121 s' = Ret False s'"
proof -
  let ?s = "hb_demo\<lparr>handles := [0 \<mapsto> new_handle ''w'']\<rparr>"
  have "handles ?s 0 = Some (new_handle ''w'')" "\<not> expired (suicide_timeout (new_handle ''w'')) 100"
    by (simp_all add: new_handle_def expired_def)
  from heartbeat_window [OF this, of 20 0] show ?thesis by fastforce
qed

text \<open>
  an overflowing grace. When \<open>now + g\<close> is above \<open>2\<^sup>6\<^sup>3\<close>, as for a grace meant to never
  expire, the stored time has wrapped into the past: the worker counts as late at once, and
  with such a suicide grace the very next check ends the process.
\<close>
theorem heartbeat_grace_wraps:
  assumes "handles s h = Some c" "\<not> expired (suicide_timeout c) now" "0 \<le> sint now"
    "2 ^ 63 < sint now + uint g"
  shows "(\<exists>s'. reset_timeout now h g 0 s = Ret () s' \<and> late s' now h) \<and>
    (\<exists>s' c'. reset_timeout now h g g s = Ret () s' \<and> handles s' h = Some c' \<and>
      check_handle c' now s' = Abort)"
proof -
  have "sint (now + g) = sint now + uint g - 2 ^ 64"
    using assms(3,4) by (intro sint_add_wrapped) simp_all
  then have "expired (now + g) now"
    using assms(4) uint_lt2p [of g] by (auto simp: expired_def time_min_iff)
  moreover have "0 < g" using assms(4) sint_lt [of now] by (cases "g = 0") (auto simp: word_gt_0)
  ultimately show ?thesis
    using reset_timeout_run [OF assms(1,2)] by (simp add: late_def check_handle_def)
qed

theorem heartbeat_grace_wraps_witness:
  "\<exists>s'. reset_timeout 100 0 (2 ^ 64 - 1) 0 (hb_demo\<lparr>handles := [0 \<mapsto> new_handle ''w'']\<rparr>) = Ret () s' \<and>
     late s' 100 0"
proof -
  let ?s = "hb_demo\<lparr>handles := [0 \<mapsto> new_handle ''w'']\<rparr>"
  have "handles ?s 0 = Some (new_handle ''w'')" "\<not> expired (suicide_timeout (new_handle ''w'')) 100"
    by (simp_all add: new_handle_def expired_def)
  from heartbeat_grace_wraps [OF this, of "2 ^ 64 - 1"] show ?thesis by simp
qed

end
