(* ===== verification/Thread_Base.thy ===== *)
theory Thread_Base
  imports Lockdep
begin

text \<open>
  \<^verbatim>\<open>thread/thread.h\<close>, \<^verbatim>\<open>thread.cc\<close> and \<^verbatim>\<open>thread/utils.cc\<close>: the class \<^verbatim>\<open>ThreadBase\<close> and the
  helpers for \<^verbatim>\<open>std::thread\<close>. The results of the system calls (\<^verbatim>\<open>pthread_create\<close>,
  \<^verbatim>\<open>pthread_join\<close>, \<^verbatim>\<open>pthread_kill\<close>, \<^verbatim>\<open>sched_setaffinity\<close>) are arguments; their effects on the
  caller's signal mask, on the CPUs a thread may use and on a thread's name are state.
\<close>

section \<open>State\<close>

definition CPU_SETSIZE :: int where
  "CPU_SETSIZE = 1024"

record ThreadBase =
  tb_tid :: int
  thread_id :: nat
  thread_name :: string
  cpuid :: int

definition ThreadBase_ctor :: ThreadBase where
  "ThreadBase_ctor = \<lparr>tb_tid = 0, thread_id = 0, thread_name = [], cpuid = -1\<rparr>"

text \<open>
  The object with the state of the running thread: its blocked signals, the CPU it is bound
  to, its name as the kernel has it, and the threads it has started with the signal mask each
  of them inherited.
\<close>

record tworld =
  th :: ThreadBase
  sigmask :: "nat set"
  affinity :: "int option"
  comm :: string
  spawned :: "(nat \<times> nat set) list"

definition get_thread_id :: "ThreadBase \<Rightarrow> nat" where
  "get_thread_id b = thread_id b"

text \<open>
  \<^verbatim>\<open>ThreadBase::get_tid()\<close> returns the member. A call \<^verbatim>\<open>get_tid()\<close> inside a member function
  finds this method, and not the function of the same name at namespace scope.
\<close>

definition get_tid :: "ThreadBase \<Rightarrow> int" where
  "get_tid b = tb_tid b"

section \<open>Signals\<close>

definition all_signals :: "nat set" where
  "all_signals = {1..64}"

definition block_all_signals :: "tworld \<Rightarrow> nat set \<times> tworld" where
  "block_all_signals s = (sigmask s, s\<lparr>sigmask := sigmask s \<union> all_signals\<rparr>)"

definition restore_signals :: "nat set \<Rightarrow> tworld \<Rightarrow> tworld" where
  "restore_signals old s = s\<lparr>sigmask := old\<rparr>"

section \<open>CPU affinity\<close>

text \<open>\<open>e\<close> is the error number of \<^verbatim>\<open>sched_setaffinity\<close>, 0 for success.\<close>

definition set_cpu_affinity_self :: "errno \<Rightarrow> int \<Rightarrow> tworld \<Rightarrow> int \<times> tworld" where
  "set_cpu_affinity_self e cpu s =
     (if cpu < 0 \<or> CPU_SETSIZE \<le> cpu then (0, s)
      else if e \<noteq> 0 then (- e, s)
      else (0, s\<lparr>affinity := Some cpu\<rparr>))"

definition set_cpu_affinity :: "errno \<Rightarrow> int \<Rightarrow> tworld \<Rightarrow> int \<times> tworld" where
  "set_cpu_affinity e cpu s =
     (if cpu < 0 \<or> CPU_SETSIZE \<le> cpu then (0, s)
      else if tb_tid (th s) \<noteq> 0 \<and> get_tid (th s) = tb_tid (th s) then set_cpu_affinity_self e cpu s
      else (0, s))"

text \<open>The kernel keeps names of at most 15 characters.\<close>

definition pthread_setname :: "string \<Rightarrow> string \<Rightarrow> errno \<times> string" where
  "pthread_setname name old = (if 16 \<le> length name then (ERANGE, old) else (0, name))"

text \<open>\<open>entry\<close> is the subclass's entry function.\<close>

definition entry_wrapper ::
  "errno \<Rightarrow> (tworld \<Rightarrow> ('r, tworld) outcome) \<Rightarrow> tworld \<Rightarrow> ('r, tworld) outcome" where
  "entry_wrapper e entry s =
     (let r = get_tid (th s);
          s1 = (if 0 < r then s\<lparr>th := (th s)\<lparr>tb_tid := r\<rparr>\<rparr> else s);
          s2 = (if tb_tid (th s1) \<noteq> 0 \<and> 0 \<le> cpuid (th s1)
                then snd (set_cpu_affinity_self e (cpuid (th s1)) s1) else s1);
          s3 = s2\<lparr>comm := snd (pthread_setname (c_str (thread_name (th s2))) (comm s2))\<rparr>
      in entry s3)"

section \<open>Creation, joining, signalling\<close>

text \<open>
  \<open>cr\<close> is the result of \<^verbatim>\<open>pthread_create\<close> for the requested stack size (\<open>None\<close> for no
  attributes): an error number or the new thread's identifier. A new thread inherits the
  signal mask of its creator.
\<close>

definition try_create :: "(int option \<Rightarrow> errno + nat) \<Rightarrow> int \<Rightarrow> tworld \<Rightarrow> int \<times> tworld" where
  "try_create cr stack_size s =
     (let attr = (if stack_size \<noteq> 0 then Some stack_size else None);
          (old_sigmask, s1) = block_all_signals s;
          (r, s2) = (case cr attr of
              Inl e \<Rightarrow> (e, s1)
            | Inr i \<Rightarrow> (0, s1\<lparr>th := (th s1)\<lparr>thread_id := i\<rparr>, spawned := spawned s1 @ [(i, sigmask s1)]\<rparr>))
      in (r, restore_signals old_sigmask s2))"

definition thread_create ::
  "(int option \<Rightarrow> errno + nat) \<Rightarrow> string \<Rightarrow> int \<Rightarrow> tworld \<Rightarrow> (unit, tworld) outcome" where
  "thread_create cr name stack_size s =
     bind (assert_that (length (c_str name) < 16) s) (\<lambda>_ s.
     case try_create cr stack_size (s\<lparr>th := (th s)\<lparr>thread_name := c_str name\<rparr>\<rparr>) of
       (r, s') \<Rightarrow> if r \<noteq> 0 then assert_that (r = 0) s' else Ret () s')"

text \<open>\<open>jr\<close>, \<open>kr\<close> and \<open>dr\<close> are the results of \<^verbatim>\<open>pthread_join\<close>, \<^verbatim>\<open>pthread_kill\<close>, \<^verbatim>\<open>pthread_detach\<close>.\<close>

definition thread_join :: "(nat \<Rightarrow> errno) \<Rightarrow> tworld \<Rightarrow> (int, tworld) outcome" where
  "thread_join jr s =
     bind (assert_that (thread_id (th s) \<noteq> 0) s) (\<lambda>_ s.
     let r = jr (thread_id (th s)) in
     bind (if r \<noteq> 0 then assert_that (r = 0) s else Ret () s) (\<lambda>_ s.
     Ret r (s\<lparr>th := (th s)\<lparr>thread_id := 0\<rparr>\<rparr>)))"

definition thread_detach :: "(nat \<Rightarrow> errno) \<Rightarrow> tworld \<Rightarrow> int" where
  "thread_detach dr s = dr (thread_id (th s))"

definition thread_kill :: "(nat \<Rightarrow> int \<Rightarrow> errno) \<Rightarrow> int \<Rightarrow> tworld \<Rightarrow> int" where
  "thread_kill kr sig s =
     (if thread_id (th s) \<noteq> 0 then kr (thread_id (th s)) sig else - EINVAL)"

section \<open>Helpers for \<^verbatim>\<open>std::thread\<close>\<close>

text \<open>The argument state is the kernel's name of the thread.\<close>

definition set_thread_name :: "string \<Rightarrow> string \<Rightarrow> (unit, string) outcome" where
  "set_thread_name name old =
     (case pthread_setname (c_str name) old of
        (r, new) \<Rightarrow> if r \<noteq> 0 then Throw (System_error r) new else Ret () new)"

text \<open>\<^verbatim>\<open>pthread_getname_np\<close> fails when name and terminator do not fit into the buffer.\<close>

definition pthread_getname :: "nat \<Rightarrow> string \<Rightarrow> errno \<times> string" where
  "pthread_getname n nm = (if n \<le> length nm then (ERANGE, replicate n (CHR 0x00))
     else (0, nm @ replicate (n - length nm) (CHR 0x00)))"

definition get_thread_name :: "string \<Rightarrow> (string, string) outcome" where
  "get_thread_name nm =
     (case pthread_getname 16 nm of
        (r, buf) \<Rightarrow> if r \<noteq> 0 then Throw (System_error r) nm else Ret (c_str buf) nm)"

definition kill_std_thread :: "(int \<Rightarrow> errno) \<Rightarrow> int \<Rightarrow> string \<Rightarrow> (unit, string) outcome" where
  "kill_std_thread kr sig nm = (let r = kr sig in if r \<noteq> 0 then Throw (System_error r) nm else Ret () nm)"

definition make_named_thread :: "string \<Rightarrow> (string \<Rightarrow> 'r) \<Rightarrow> string \<Rightarrow> 'r" where
  "make_named_thread n func old = func (snd (pthread_setname (c_str n) old))"

section \<open>Creation and joining\<close>

text \<open>
  \<^verbatim>\<open>create()\<close>. A name of 16 or more characters or a failing \<^verbatim>\<open>pthread_create\<close> ends the
  process. Otherwise the call returns, the object has the new thread's identifier, the new
  thread started with every signal blocked, and the caller's own signal mask is what it was.
\<close>
theorem thread_create_correct:
  assumes "\<And>attr e. cr attr = Inl e \<Longrightarrow> e \<noteq> 0"
  shows "thread_create cr name stack_size s =
    (if 16 \<le> length (c_str name) then Abort
     else case cr (if stack_size = 0 then None else Some stack_size) of
       Inl e \<Rightarrow> Abort
     | Inr i \<Rightarrow> Ret () (s\<lparr>th := (th s)\<lparr>thread_name := c_str name, thread_id := i\<rparr>,
         spawned := spawned s @ [(i, sigmask s \<union> all_signals)]\<rparr>))"
  using assms
  by (auto simp: thread_create_def try_create_def block_all_signals_def restore_signals_def
      assert_that_def Let_def split: sum.splits)

definition thread_demo :: tworld where
  "thread_demo = \<lparr>th = ThreadBase_ctor, sigmask = {}, affinity = None, comm = ''main'', spawned = []\<rparr>"

theorem thread_create_correct_witness:
  "thread_create (\<lambda>_. Inr 5) ''tp_worker'' 0 thread_demo =
     Ret () (thread_demo\<lparr>th := ThreadBase_ctor\<lparr>thread_name := ''tp_worker'', thread_id := 5\<rparr>,
       spawned := [(5, all_signals)]\<rparr>) \<and>
   thread_create (\<lambda>_. Inl EAGAIN) ''tp_worker'' 0 thread_demo = Abort"
  using thread_create_correct [of "\<lambda>_. Inr 5" "''tp_worker''" 0 thread_demo]
    thread_create_correct [of "\<lambda>_. Inl EAGAIN" "''tp_worker''" 0 thread_demo]
  by (simp add: c_str_def thread_demo_def)

text \<open>
  the life of a thread object. After \<^verbatim>\<open>create()\<close>, signals go to the new thread; \<^verbatim>\<open>join()\<close>
  returns 0 and forgets the thread, after which \<^verbatim>\<open>kill()\<close> answers \<^verbatim>\<open>-EINVAL\<close>, a second
  \<^verbatim>\<open>join()\<close> ends the process, and a new \<^verbatim>\<open>create()\<close> is possible.
\<close>
theorem thread_lifecycle:
  assumes "thread_create cr name stack_size s = Ret () s'" "thread_id (th s') \<noteq> 0"
    "jr (thread_id (th s')) = 0"
  shows "thread_kill kr sig s' = kr (thread_id (th s')) sig \<and>
    (\<exists>s''. thread_join jr s' = Ret 0 s'' \<and> thread_id (th s'') = 0 \<and> sigmask s'' = sigmask s \<and>
       thread_kill kr sig s'' = - EINVAL \<and> thread_join jr s'' = Abort)"
proof -
  have "sigmask s' = sigmask s"
    using assms(1)
    by (auto simp: thread_create_def try_create_def block_all_signals_def restore_signals_def
        assert_that_def Let_def split: sum.splits if_splits)
  then show ?thesis
    using assms(2,3) by (simp add: thread_kill_def thread_join_def assert_that_def Let_def)
qed

theorem thread_lifecycle_witness:
  "\<exists>s' s''. thread_create (\<lambda>_. Inr 5) ''tp_worker'' 0 thread_demo = Ret () s' \<and>
     thread_join (\<lambda>_. 0) s' = Ret 0 s'' \<and> thread_join (\<lambda>_. 0) s'' = Abort"
proof -
  obtain s' where s': "thread_create (\<lambda>_. Inr 5) ''tp_worker'' 0 thread_demo = Ret () s'"
    "thread_id (th s') \<noteq> 0"
    by (simp add: thread_create_def try_create_def block_all_signals_def restore_signals_def
        assert_that_def Let_def c_str_def)
  from thread_lifecycle [OF this, of "\<lambda>_. 0"] s'(1) show ?thesis by blast
qed

section \<open>Affinity is never applied\<close>

text \<open>The operations of a thread object that can change it, with the answers of the system.\<close>

datatype thread_op =
    Create "int option \<Rightarrow> errno + nat" string int
  | Join "nat \<Rightarrow> errno"
  | Set_affinity errno int
  | Run errno

fun thread_do :: "thread_op \<Rightarrow> tworld \<Rightarrow> (unit, tworld) outcome" where
  "thread_do (Create cr name stack_size) s = thread_create cr name stack_size s"
| "thread_do (Join jr) s = bind (thread_join jr s) (\<lambda>_ s. Ret () s)"
| "thread_do (Set_affinity e cpu) s = Ret () (snd (set_cpu_affinity e cpu s))"
| "thread_do (Run e) s = entry_wrapper e (Ret ()) s"

fun thread_run :: "thread_op list \<Rightarrow> tworld \<Rightarrow> (unit, tworld) outcome" where
  "thread_run [] s = Ret () s"
| "thread_run (x # xs) s = bind (thread_do x s) (\<lambda>_ s. thread_run xs s)"

lemma thread_do_tid:
  assumes "thread_do x s = Ret u s'" "tb_tid (th s) = 0"
  shows "tb_tid (th s') = 0 \<and> affinity s' = affinity s"
  using assms
  by (cases x)
    (auto simp: thread_create_def try_create_def block_all_signals_def restore_signals_def
      thread_join_def set_cpu_affinity_def entry_wrapper_def get_tid_def Let_def outcome_inv
      split: sum.splits if_splits)

text \<open>
  the affinity of a \<^verbatim>\<open>ThreadBase\<close> has no effect. Whatever is called on a new object, in
  whatever order, and however often the thread runs, \<^verbatim>\<open>get_tid()\<close> stays 0 and the thread is
  never bound to a CPU; every \<^verbatim>\<open>set_cpu_affinity()\<close> returns 0 and changes nothing.
\<close>
theorem thread_affinity_never_applied:
  assumes "thread_run ops s = Ret () s'" "th s = ThreadBase_ctor"
  shows "get_tid (th s') = 0 \<and> affinity s' = affinity s \<and> set_cpu_affinity e cpu s' = (0, s')"
proof -
  have "tb_tid (th s) = 0 \<Longrightarrow> thread_run ops s = Ret () s' \<Longrightarrow>
      tb_tid (th s') = 0 \<and> affinity s' = affinity s"
  proof (induction ops arbitrary: s)
    case (Cons x xs)
    obtain s1 where s1: "thread_do x s = Ret () s1" "thread_run xs s1 = Ret () s'"
      using Cons.prems(2) by (auto simp: bind_eq_Ret_iff)
    then show ?case using Cons.IH [of s1] thread_do_tid [OF s1(1) Cons.prems(1)] by simp
  qed simp
  then show ?thesis
    using assms by (simp add: ThreadBase_ctor_def get_tid_def set_cpu_affinity_def)
qed

theorem thread_affinity_never_applied_witness:
  "\<exists>s'. thread_run [Set_affinity 0 3, Create (\<lambda>_. Inr 5) ''tp_worker'' 0, Run 0, Set_affinity 0 3]
     thread_demo = Ret () s' \<and> affinity s' = None"
proof -
  obtain s' where "thread_run [Set_affinity 0 3, Create (\<lambda>_. Inr 5) ''tp_worker'' 0, Run 0,
      Set_affinity 0 3] thread_demo = Ret () s'"
    by (simp add: thread_create_def try_create_def block_all_signals_def restore_signals_def
        assert_that_def Let_def c_str_def entry_wrapper_def)
  from thread_affinity_never_applied [OF this] this show ?thesis by (auto simp: thread_demo_def)
qed

section \<open>Names\<close>

lemma c_str_no_nul: "CHR 0x00 \<notin> set (c_str name)"
  by (auto simp: c_str_def dest: set_takeWhileD)

lemma c_str_padded:
  assumes "CHR 0x00 \<notin> set nm"
  shows "c_str (nm @ replicate (Suc n) (CHR 0x00)) = nm"
  using assms unfolding c_str_def by (subst takeWhile_append2) auto

text \<open>
  setting a name and reading it back. A name of at most 15 characters (up to its first
  NUL) is read back as it was set; a longer one is refused with \<^verbatim>\<open>ERANGE\<close> and the old name
  stays.
\<close>
theorem thread_name_roundtrip:
  "if length (c_str name) < 16
   then set_thread_name name old = Ret () (c_str name) \<and>
     get_thread_name (c_str name) = Ret (c_str name) (c_str name)
   else set_thread_name name old = Throw (System_error ERANGE) old"
proof (cases "length (c_str name) < 16")
  case True
  then obtain n where "16 - length (c_str name) = Suc n" by (metis Suc_diff_Suc)
  then show ?thesis
    using True c_str_padded [OF c_str_no_nul [of name], of n]
    by (simp add: set_thread_name_def get_thread_name_def pthread_setname_def pthread_getname_def)
next
  case False
  then show ?thesis by (simp add: set_thread_name_def pthread_setname_def)
qed

end
