(* ===== verification/Threadpool.thy ===== *)
theory Threadpool
  imports Heartbeat Thread_Base "HOL-Library.Multiset"
begin

text \<open>
  \<^verbatim>\<open>thread/threadpool.h\<close> and \<^verbatim>\<open>threadpool.cc\<close>: the thread pool and its value-type work
  queues. Every stretch of code that runs with the pool's \<^verbatim>\<open>_lock\<close> held, from the acquisition
  (or the wake-up from a wait) to the release (or the next wait), is one function on the
  pool's state; so is every stretch under a queue's own lock. That stretches of one lock
  exclude each other, and that a wait releases and re-acquires the lock, is shown for
  \<^verbatim>\<open>BlueMutex\<close> and the condition variable, and that such stretches may be taken as single steps in
  \<open>Lock_Sections\<close> and the theories on it. The virtual functions of a subclass of the queue
  are the record \<open>wq_ops\<close>.
\<close>

section \<open>State\<close>

record ('q, 'u) wq_ops =
  op_enqueue :: "'u \<Rightarrow> 'q \<Rightarrow> 'q"
  op_enqueue_front :: "'u \<Rightarrow> 'q \<Rightarrow> 'q"
  op_empty :: "'q \<Rightarrow> bool"
  op_dequeue :: "'q \<Rightarrow> ('u \<times> 'q) option"
  op_clear :: "'q \<Rightarrow> 'q"

record ('q, 'u) WorkQueueVal =
  wq_name :: string
  wq_items :: 'q
  to_process :: "'u list"
  to_finish :: "'u list"
  wq_grace :: grace
  wq_suicide_grace :: grace

text \<open>
  Where a thread is. Workers: created (\<open>W_new\<close>), asleep in \<^verbatim>\<open>_cond\<close> (\<open>W_sleep\<close>), with an item
  dequeued from queue \<open>q\<close> (\<open>W_got\<close>), inside \<^verbatim>\<open>_process(u)\<close> (\<open>W_proc\<close>), before the second
  acquisition of the pool's lock (\<open>W_fin\<close>), finished (\<open>W_exit\<close>). Callers: waiting in
  \<^verbatim>\<open>pause()\<close>, between \<^verbatim>\<open>pause()\<close> and \<^verbatim>\<open>unpause()\<close>, waiting in \<^verbatim>\<open>drain()\<close>, joining in \<^verbatim>\<open>stop()\<close>.
\<close>

datatype 'u tpoint =
    Outside
  | W_new
  | W_sleep
  | W_got nat
  | W_proc nat 'u
  | W_fin nat
  | W_exit
  | C_pausing
  | C_paused
  | C_draining "nat option"
  | C_stopping

text \<open>
  The members of \<^verbatim>\<open>ThreadPool\<close>, the queues by address, the threads asleep in the two condition
  variables, the heartbeat map with each worker's handle, and the history of the items: those
  ever queued and those finished, per queue, and whether \<^verbatim>\<open>stop()\<close> has cleared the queues.
\<close>

record ('q, 'u) ThreadPool =
  tp_name :: string
  tp_thread_name :: string
  tp_stop :: bool
  tp_pause :: int
  tp_draining :: int
  tp_num_threads :: nat
  processing :: int
  tp_grace :: grace
  tp_suicide_grace :: grace
  work_queues :: "nat list"
  next_work_queue :: nat
  tp_threads :: "tid list"
  tp_old_threads :: "tid list"
  tp_cond :: "tid list"
  tp_wait_cond :: "tid list"
  wqs :: "nat \<Rightarrow> ('q, 'u) WorkQueueVal"
  hbmap :: heartbeat_map
  hb_of :: "tid \<Rightarrow> nat"
  tp_pc :: "tid \<Rightarrow> 'u tpoint"
  tp_queued :: "nat \<Rightarrow> 'u multiset"
  tp_finished :: "nat \<Rightarrow> 'u multiset"
  tp_cleared :: bool

text \<open>\<^verbatim>\<open>int n\<close> is stored in an \<^verbatim>\<open>unsigned\<close>.\<close>

definition ThreadPool_ctor ::
  "heartbeat_map \<Rightarrow> string \<Rightarrow> string \<Rightarrow> int \<Rightarrow> grace \<Rightarrow> grace \<Rightarrow> (nat \<Rightarrow> ('q, 'u) WorkQueueVal) \<Rightarrow>
   ('q, 'u) ThreadPool" where
  "ThreadPool_ctor hb nm tn n grace suicide_grace qs =
     \<lparr>tp_name = nm, tp_thread_name = tn, tp_stop = False, tp_pause = 0, tp_draining = 0,
      tp_num_threads = nat (n mod 2 ^ 32), processing = 0, tp_grace = grace,
      tp_suicide_grace = suicide_grace, work_queues = [], next_work_queue = 0, tp_threads = [],
      tp_old_threads = [], tp_cond = [], tp_wait_cond = [], wqs = qs, hbmap = hb,
      hb_of = (\<lambda>_. 0), tp_pc = (\<lambda>_. Outside), tp_queued = (\<lambda>_. {#}), tp_finished = (\<lambda>_. {#}),
      tp_cleared = False\<rparr>"

definition goto_point :: "tid \<Rightarrow> 'u tpoint \<Rightarrow> ('q, 'u) ThreadPool \<Rightarrow> ('q, 'u) ThreadPool" where
  "goto_point t p s = s\<lparr>tp_pc := (tp_pc s)(t := p)\<rparr>"

definition upd_wq ::
  "nat \<Rightarrow> (('q, 'u) WorkQueueVal \<Rightarrow> ('q, 'u) WorkQueueVal) \<Rightarrow> ('q, 'u) ThreadPool \<Rightarrow> ('q, 'u) ThreadPool"
where
  "upd_wq q f s = s\<lparr>wqs := (wqs s)(q := f (wqs s q))\<rparr>"

definition with_hb ::
  "(heartbeat_map \<Rightarrow> ('a, heartbeat_map) outcome) \<Rightarrow> ('q, 'u) ThreadPool \<Rightarrow>
   ('a, ('q, 'u) ThreadPool) outcome" where
  "with_hb f s = lift_state (\<lambda>h. s\<lparr>hbmap := h\<rparr>) (f (hbmap s))"

section \<open>\<^verbatim>\<open>WorkQueueVal\<close>\<close>

definition void_dequeue ::
  "('q, 'u) wq_ops \<Rightarrow> nat \<Rightarrow> ('q, 'u) ThreadPool \<Rightarrow> (bool, ('q, 'u) ThreadPool) outcome" where
  "void_dequeue ops q s =
     (if op_empty ops (wq_items (wqs s q)) then Ret False s
      else
        (case op_dequeue ops (wq_items (wqs s q)) of
           None \<Rightarrow> Abort
         | Some (u, c) \<Rightarrow>
             Ret True (upd_wq q (\<lambda>w. w\<lparr>wq_items := c, to_process := to_process w @ [u]\<rparr>) s)))"

text \<open>\<^verbatim>\<open>_void_process\<close> before and after the call of \<^verbatim>\<open>_process\<close>.\<close>

definition void_process_take ::
  "nat \<Rightarrow> ('q, 'u) ThreadPool \<Rightarrow> ('u, ('q, 'u) ThreadPool) outcome" where
  "void_process_take q s =
     bind (assert_that (to_process (wqs s q) \<noteq> []) s) (\<lambda>_ s.
     Ret (hd (to_process (wqs s q))) (upd_wq q (\<lambda>w. w\<lparr>to_process := tl (to_process w)\<rparr>) s))"

definition void_process_put :: "nat \<Rightarrow> 'u \<Rightarrow> ('q, 'u) ThreadPool \<Rightarrow> ('q, 'u) ThreadPool" where
  "void_process_put q u s = upd_wq q (\<lambda>w. w\<lparr>to_finish := to_finish w @ [u]\<rparr>) s"

definition void_process_finish ::
  "nat \<Rightarrow> ('q, 'u) ThreadPool \<Rightarrow> ('u, ('q, 'u) ThreadPool) outcome" where
  "void_process_finish q s =
     bind (assert_that (to_finish (wqs s q) \<noteq> []) s) (\<lambda>_ s.
     let u = hd (to_finish (wqs s q));
         s1 = upd_wq q (\<lambda>w. w\<lparr>to_finish := tl (to_finish w)\<rparr>) s
     in Ret u (s1\<lparr>tp_finished := (tp_finished s1)(q := add_mset u (tp_finished s1 q))\<rparr>))"

text \<open>\<^verbatim>\<open>_clear\<close>, for a subclass that does not override it: nothing is removed.\<close>

definition WorkQueueVal_clear :: "'q \<Rightarrow> 'q" where
  "WorkQueueVal_clear q = q"

text \<open>
  \<^verbatim>\<open>queue\<close> and \<^verbatim>\<open>queue_front\<close>; \<open>woken\<close> are the threads that \<^verbatim>\<open>notify_one\<close> unblocks.
\<close>

definition notify_workers :: "tid list \<Rightarrow> ('q, 'u) ThreadPool \<Rightarrow> ('q, 'u) ThreadPool" where
  "notify_workers woken s = s\<lparr>tp_cond := filter (\<lambda>t. t \<notin> set woken) (tp_cond s)\<rparr>"

definition note_queued :: "nat \<Rightarrow> 'u \<Rightarrow> ('q, 'u) ThreadPool \<Rightarrow> ('q, 'u) ThreadPool" where
  "note_queued q u s = s\<lparr>tp_queued := (tp_queued s)(q := add_mset u (tp_queued s q))\<rparr>"

definition wq_queue ::
  "('q, 'u) wq_ops \<Rightarrow> tid list \<Rightarrow> nat \<Rightarrow> 'u \<Rightarrow> ('q, 'u) ThreadPool \<Rightarrow> ('q, 'u) ThreadPool" where
  "wq_queue ops woken q item s =
     notify_workers woken (note_queued q item
       (upd_wq q (\<lambda>w. w\<lparr>wq_items := op_enqueue ops item (wq_items w)\<rparr>) s))"

definition wq_queue_front ::
  "('q, 'u) wq_ops \<Rightarrow> tid list \<Rightarrow> nat \<Rightarrow> 'u \<Rightarrow> ('q, 'u) ThreadPool \<Rightarrow> ('q, 'u) ThreadPool" where
  "wq_queue_front ops woken q item s =
     notify_workers woken (note_queued q item
       (upd_wq q (\<lambda>w. w\<lparr>wq_items := op_enqueue_front ops item (wq_items w)\<rparr>) s))"

section \<open>The worker\<close>

text \<open>
  The scan over the queues, starting where the last one stopped: \<open>Some q\<close> once an item was
  dequeued from \<open>q\<close>.
\<close>

fun scan_queues ::
  "('q, 'u) wq_ops \<Rightarrow> nat \<Rightarrow> ('q, 'u) ThreadPool \<Rightarrow> (nat option, ('q, 'u) ThreadPool) outcome" where
  "scan_queues ops 0 s = Ret None s"
| "scan_queues ops (Suc tries) s =
     (let k = next_work_queue s mod length (work_queues s);
          q = work_queues s ! k
      in bind (void_dequeue ops q (s\<lparr>next_work_queue := k + 1\<rparr>)) (\<lambda>item s.
         if item then Ret (Some q) s else scan_queues ops tries s))"

text \<open>Joining waits until each of the threads has finished.\<close>

definition join_old_threads :: "('q, 'u) ThreadPool \<Rightarrow> (unit, ('q, 'u) ThreadPool) outcome" where
  "join_old_threads s =
     (if \<forall>w \<in> set (tp_old_threads s). tp_pc s w = W_exit then Ret () (s\<lparr>tp_old_threads := []\<rparr>)
      else Block s)"

text \<open>
  The environment of a worker's section: the clock, the captured stack and the thread's name
  for the heartbeat map.
\<close>

record wenv =
  we_now :: time
  we_bt :: BackTrace
  we_name :: string

definition worker_sleep ::
  "wenv \<Rightarrow> tid \<Rightarrow> ('q, 'u) ThreadPool \<Rightarrow> (unit, ('q, 'u) ThreadPool) outcome" where
  "worker_sleep e t s =
     bind (with_hb (reset_timeout (we_now e) (hb_of s t) (tp_grace s) (tp_suicide_grace s)) s) (\<lambda>_ s.
     Ret () (goto_point t W_sleep (s\<lparr>tp_cond := tp_cond s @ [t]\<rparr>)))"

text \<open>The loop from its head to the release of the lock.\<close>

definition worker_loop ::
  "('q, 'u) wq_ops \<Rightarrow> wenv \<Rightarrow> tid \<Rightarrow> ('q, 'u) ThreadPool \<Rightarrow> (unit, ('q, 'u) ThreadPool) outcome" where
  "worker_loop ops e t s =
     (if tp_stop s then
        bind (with_hb (remove_worker t (we_bt e) (hb_of s t)) s) (\<lambda>_ s.
        Ret () (goto_point t W_exit s))
      else
        bind (join_old_threads s) (\<lambda>_ s.
        if work_queues s = [] then worker_sleep e t s
        else if tp_pause s = 0 then
          bind (scan_queues ops (2 * length (work_queues s)) s) (\<lambda>found s.
          case found of
            Some q \<Rightarrow> Ret () (goto_point t (W_got q) (s\<lparr>processing := processing s + 1\<rparr>))
          | None \<Rightarrow> worker_sleep e t s)
        else worker_sleep e t s))"

definition worker_enter ::
  "('q, 'u) wq_ops \<Rightarrow> wenv \<Rightarrow> tid \<Rightarrow> ('q, 'u) ThreadPool \<Rightarrow> (unit, ('q, 'u) ThreadPool) outcome" where
  "worker_enter ops e t s =
     bind (with_hb (add_worker t (we_bt e) (tp_name s @ '' thread '' @ we_name e) t) s) (\<lambda>h s.
     worker_loop ops e t (s\<lparr>hb_of := (hb_of s)(t := h)\<rparr>))"

text \<open>
  Outside the lock: a handle with the timeouts of the queue, which \<^verbatim>\<open>_process\<close> is given as well,
  then the first half of \<^verbatim>\<open>_void_process\<close>. The map a handle points to is the pool's.
\<close>

record TPHandle =
  th_hb :: nat
  th_grace :: grace
  th_suicide_grace :: grace

definition TPHandle_ctor :: "nat \<Rightarrow> grace \<Rightarrow> grace \<Rightarrow> TPHandle" where
  "TPHandle_ctor hb grace suicide_grace = \<lparr>th_hb = hb, th_grace = grace, th_suicide_grace = suicide_grace\<rparr>"

definition reset_tp_timeout ::
  "time \<Rightarrow> TPHandle \<Rightarrow> ('q, 'u) ThreadPool \<Rightarrow> (unit, ('q, 'u) ThreadPool) outcome" where
  "reset_tp_timeout now h s = with_hb (reset_timeout now (th_hb h) (th_grace h) (th_suicide_grace h)) s"

definition suspent_tp_timeout ::
  "time \<Rightarrow> TPHandle \<Rightarrow> ('q, 'u) ThreadPool \<Rightarrow> (unit, ('q, 'u) ThreadPool) outcome" where
  "suspent_tp_timeout now h s = with_hb (clear_timeout now (th_hb h)) s"

text \<open>The variable \<^verbatim>\<open>tp_handle\<close> of worker \<open>t\<close> while it has an item of queue \<open>q\<close>.\<close>

definition tp_handle :: "tid \<Rightarrow> nat \<Rightarrow> ('q, 'u) ThreadPool \<Rightarrow> TPHandle" where
  "tp_handle t q s = TPHandle_ctor (hb_of s t) (wq_grace (wqs s q)) (wq_suicide_grace (wqs s q))"

definition worker_process ::
  "wenv \<Rightarrow> tid \<Rightarrow> nat \<Rightarrow> ('q, 'u) ThreadPool \<Rightarrow> (unit, ('q, 'u) ThreadPool) outcome" where
  "worker_process e t q s =
     bind (reset_tp_timeout (we_now e) (tp_handle t q s) s) (\<lambda>_ s.
     bind (void_process_take q s) (\<lambda>u s.
     Ret () (goto_point t (W_proc q u) s)))"

text \<open>With the lock again: finishing the item, then round the loop.\<close>

definition worker_finish ::
  "('q, 'u) wq_ops \<Rightarrow> wenv \<Rightarrow> tid \<Rightarrow> nat \<Rightarrow> ('q, 'u) ThreadPool \<Rightarrow> (unit, ('q, 'u) ThreadPool) outcome"
where
  "worker_finish ops e t q s =
     bind (void_process_finish q s) (\<lambda>u s.
     let s1 = s\<lparr>processing := processing s - 1\<rparr>;
         s2 = (if tp_pause s1 \<noteq> 0 \<or> tp_draining s1 \<noteq> 0 then s1\<lparr>tp_wait_cond := []\<rparr> else s1)
     in worker_loop ops e t s2)"

section \<open>The callers\<close>

text \<open>
  The loop of \<^verbatim>\<open>start_threads\<close>; the list holds the identifiers of the threads the system
  creates, and the loop goes on for as long as the vector is too short.
\<close>

fun start_threads :: "tid list \<Rightarrow> ('q, 'u) ThreadPool \<Rightarrow> (unit, ('q, 'u) ThreadPool) outcome" where
  "start_threads [] s = (if length (tp_threads s) < tp_num_threads s then Block s else Ret () s)"
| "start_threads (w # ws) s =
     (if length (tp_threads s) < tp_num_threads s then
        bind (assert_that (length (c_str (tp_thread_name s)) < 16) s) (\<lambda>_ s.
        start_threads ws (goto_point w W_new (s\<lparr>tp_threads := tp_threads s @ [w]\<rparr>)))
      else Ret () s)"

definition tp_start :: "tid list \<Rightarrow> ('q, 'u) ThreadPool \<Rightarrow> (unit, ('q, 'u) ThreadPool) outcome" where
  "tp_start ws s = start_threads ws s"

definition tp_stop_begin :: "tid \<Rightarrow> ('q, 'u) ThreadPool \<Rightarrow> (unit, ('q, 'u) ThreadPool) outcome" where
  "tp_stop_begin t s =
     bind (join_old_threads (s\<lparr>tp_stop := True, tp_cond := []\<rparr>)) (\<lambda>_ s.
     Ret () (goto_point t C_stopping s))"

definition clear_queues :: "('q, 'u) wq_ops \<Rightarrow> ('q, 'u) ThreadPool \<Rightarrow> ('q, 'u) ThreadPool" where
  "clear_queues ops s =
     fold (\<lambda>q. upd_wq q (\<lambda>w. w\<lparr>wq_items := op_clear ops (wq_items w)\<rparr>)) (work_queues s) s"

definition tp_stop_finish ::
  "('q, 'u) wq_ops \<Rightarrow> tid \<Rightarrow> ('q, 'u) ThreadPool \<Rightarrow> (unit, ('q, 'u) ThreadPool) outcome" where
  "tp_stop_finish ops t s =
     (if \<forall>w \<in> set (tp_threads s). tp_pc s w = W_exit then
        let s1 = clear_queues ops (s\<lparr>tp_threads := []\<rparr>)
        in Ret () (goto_point t Outside (s1\<lparr>tp_stop := False, tp_cleared := True\<rparr>))
      else Block s)"

definition add_work_queue :: "nat \<Rightarrow> ('q, 'u) ThreadPool \<Rightarrow> ('q, 'u) ThreadPool" where
  "add_work_queue q s = s\<lparr>work_queues := work_queues s @ [q]\<rparr>"

definition remove_work_queue :: "nat \<Rightarrow> ('q, 'u) ThreadPool \<Rightarrow> ('q, 'u) ThreadPool" where
  "remove_work_queue q s = s\<lparr>work_queues := remove1 q (work_queues s)\<rparr>"

text \<open>
  The constructors of \<^verbatim>\<open>WorkQueue_\<close> and of \<^verbatim>\<open>WorkQueueVal\<close>; the items belong to the subclass. The
  destructor takes the queue off the pool's list.
\<close>

definition WorkQueue_ctor ::
  "string \<Rightarrow> grace \<Rightarrow> grace \<Rightarrow> ('q, 'u) WorkQueueVal \<Rightarrow> ('q, 'u) WorkQueueVal" where
  "WorkQueue_ctor name grace suicide_grace w =
     w\<lparr>wq_name := name, wq_grace := grace, wq_suicide_grace := suicide_grace\<rparr>"

definition WorkQueueVal_ctor ::
  "nat \<Rightarrow> string \<Rightarrow> grace \<Rightarrow> grace \<Rightarrow> ('q, 'u) ThreadPool \<Rightarrow> ('q, 'u) ThreadPool" where
  "WorkQueueVal_ctor q n g sg s =
     add_work_queue q
       (upd_wq q (\<lambda>w. (WorkQueue_ctor n g sg w)\<lparr>to_process := [], to_finish := []\<rparr>) s)"

definition WorkQueueVal_dtor :: "nat \<Rightarrow> ('q, 'u) ThreadPool \<Rightarrow> ('q, 'u) ThreadPool" where
  "WorkQueueVal_dtor q s = remove_work_queue q s"

definition tp_wake :: "('q, 'u) ThreadPool \<Rightarrow> ('q, 'u) ThreadPool" where
  "tp_wake s = s\<lparr>tp_cond := []\<rparr>"

text \<open>\<^verbatim>\<open>pause()\<close>: the loop waits in \<^verbatim>\<open>_wait_cond\<close> or returns.\<close>

definition pause_turn :: "tid \<Rightarrow> ('q, 'u) ThreadPool \<Rightarrow> ('q, 'u) ThreadPool" where
  "pause_turn t s =
     (if processing s \<noteq> 0 then goto_point t C_pausing (s\<lparr>tp_wait_cond := tp_wait_cond s @ [t]\<rparr>)
      else goto_point t C_paused s)"

definition tp_pause_call :: "tid \<Rightarrow> ('q, 'u) ThreadPool \<Rightarrow> ('q, 'u) ThreadPool" where
  "tp_pause_call t s = pause_turn t (s\<lparr>tp_pause := tp_pause s + 1\<rparr>)"

definition tp_unpause :: "('q, 'u) ThreadPool \<Rightarrow> ('q, 'u) ThreadPool" where
  "tp_unpause s = s\<lparr>tp_pause := tp_pause s - 1, tp_cond := []\<rparr>"

definition drain_waits :: "('q, 'u) wq_ops \<Rightarrow> nat option \<Rightarrow> ('q, 'u) ThreadPool \<Rightarrow> bool" where
  "drain_waits ops wq s \<longleftrightarrow> processing s \<noteq> 0 \<or>
     (case wq of None \<Rightarrow> False | Some q \<Rightarrow> \<not> op_empty ops (wq_items (wqs s q)))"

definition drain_turn ::
  "('q, 'u) wq_ops \<Rightarrow> tid \<Rightarrow> nat option \<Rightarrow> ('q, 'u) ThreadPool \<Rightarrow> ('q, 'u) ThreadPool" where
  "drain_turn ops t wq s =
     (if drain_waits ops wq s then
        goto_point t (C_draining wq) (s\<lparr>tp_wait_cond := tp_wait_cond s @ [t]\<rparr>)
      else goto_point t Outside (s\<lparr>tp_draining := tp_draining s - 1\<rparr>))"

definition tp_drain_call ::
  "('q, 'u) wq_ops \<Rightarrow> tid \<Rightarrow> nat option \<Rightarrow> ('q, 'u) ThreadPool \<Rightarrow> ('q, 'u) ThreadPool" where
  "tp_drain_call ops t wq s = drain_turn ops t wq (s\<lparr>tp_draining := tp_draining s + 1\<rparr>)"

definition wq_drain ::
  "('q, 'u) wq_ops \<Rightarrow> tid \<Rightarrow> nat \<Rightarrow> ('q, 'u) ThreadPool \<Rightarrow> ('q, 'u) ThreadPool" where
  "wq_drain ops t q s = tp_drain_call ops t (Some q) s"

end
