(* ===== verification/Threadpool_System.thy ===== *)
theory Threadpool_System
  imports Threadpool
begin

text \<open>
  The thread pool as a whole: any number of workers and callers, interleaved at the sections
  of the pool's lock and of the queues' locks. The interface \<open>work_queue\<close> is what the pool
  relies on in a subclass of \<^verbatim>\<open>WorkQueueVal\<close>; it is met by the list queue of
  \<^verbatim>\<open>qa/test_threadpool.cc\<close>. For every reachable state: the counter \<^verbatim>\<open>processing\<close> is the number
  of workers that have an item, the assertions of \<^verbatim>\<open>_void_process\<close> and
  \<^verbatim>\<open>_void_process_finish\<close> hold, no item is lost or duplicated, \<^verbatim>\<open>pause()\<close> and \<^verbatim>\<open>drain()\<close> return
  only in the states they promise, and neither work nor a waiting caller is forgotten.
\<close>

section \<open>Steps\<close>

text \<open>A worker inside \<^verbatim>\<open>_process\<close> may use its handle at any time, and as often as it likes. A queue is
  constructed at an address that no worker has an item from, with the subclass's container empty.\<close>

fun works_on :: "nat \<Rightarrow> 'u tpoint \<Rightarrow> bool" where
  "works_on q (W_got q') = (q' = q)"
| "works_on q (W_proc q' u) = (q' = q)"
| "works_on q (W_fin q') = (q' = q)"
| "works_on q _ = False"

inductive tpstep ::
  "('q, 'u) wq_ops \<Rightarrow> ('q, 'u) ThreadPool \<Rightarrow> ('q, 'u) ThreadPool \<Rightarrow> bool" for ops where
  enter: "tp_pc s t = W_new \<Longrightarrow> worker_enter ops e t s = Ret () s' \<Longrightarrow> tpstep ops s s'"
| awake: "tp_pc s t = W_sleep \<Longrightarrow> t \<notin> set (tp_cond s) \<Longrightarrow> worker_loop ops e t s = Ret () s' \<Longrightarrow>
     tpstep ops s s'"
| take: "tp_pc s t = W_got q \<Longrightarrow> worker_process e t q s = Ret () s' \<Longrightarrow> tpstep ops s s'"
| processed: "tp_pc s t = W_proc q u \<Longrightarrow>
     tpstep ops s (goto_point t (W_fin q) (void_process_put q u s))"
| beat: "tp_pc s t = W_proc q u \<Longrightarrow> reset_tp_timeout now (tp_handle t q s) s = Ret () s' \<Longrightarrow>
     tpstep ops s s'"
| suspend: "tp_pc s t = W_proc q u \<Longrightarrow> suspent_tp_timeout now (tp_handle t q s) s = Ret () s' \<Longrightarrow>
     tpstep ops s s'"
| finish: "tp_pc s t = W_fin q \<Longrightarrow> worker_finish ops e t q s = Ret () s' \<Longrightarrow> tpstep ops s s'"
| wake_up: "set ts \<subseteq> set (tp_cond s) \<Longrightarrow> tpstep ops s (s\<lparr>tp_cond := ts\<rparr>)"
| wake: "tpstep ops s (tp_wake s)"
| wait_wake_up: "set ts \<subseteq> set (tp_wait_cond s) \<Longrightarrow> tpstep ops s (s\<lparr>tp_wait_cond := ts\<rparr>)"
| queue: "tp_cond s = [] \<or> set woken \<inter> set (tp_cond s) \<noteq> {} \<Longrightarrow>
     tpstep ops s (wq_queue ops woken q item s)"
| queue_front: "tp_cond s = [] \<or> set woken \<inter> set (tp_cond s) \<noteq> {} \<Longrightarrow>
     tpstep ops s (wq_queue_front ops woken q item s)"
| start: "distinct ws \<Longrightarrow> \<forall>w \<in> set ws. tp_pc s w = Outside \<Longrightarrow> tp_start ws s = Ret () s' \<Longrightarrow>
     tpstep ops s s'"
| stop: "tp_pc s t = Outside \<Longrightarrow> tp_stop_begin t s = Ret () s' \<Longrightarrow> tpstep ops s s'"
| stopped: "tp_pc s t = C_stopping \<Longrightarrow> tp_stop_finish ops t s = Ret () s' \<Longrightarrow> tpstep ops s s'"
| add_queue: "op_empty ops (wq_items (wqs s q)) \<Longrightarrow> tpstep ops s (add_work_queue q s)"
| remove_queue: "tpstep ops s (remove_work_queue q s)"
| new_queue: "op_empty ops (wq_items (wqs s q)) \<Longrightarrow> \<forall>t. \<not> works_on q (tp_pc s t) \<Longrightarrow>
     tpstep ops s (WorkQueueVal_ctor q n g sg s)"
| delete_queue: "tpstep ops s (WorkQueueVal_dtor q s)"
| pause: "tp_pc s t = Outside \<Longrightarrow> tpstep ops s (tp_pause_call t s)"
| pause_again: "tp_pc s t = C_pausing \<Longrightarrow> t \<notin> set (tp_wait_cond s) \<Longrightarrow> tpstep ops s (pause_turn t s)"
| unpause: "tp_pc s t = C_paused \<Longrightarrow> tpstep ops s (goto_point t Outside (tp_unpause s))"
| drain: "tp_pc s t = Outside \<Longrightarrow> tpstep ops s (tp_drain_call ops t wq s)"
| drain_again: "tp_pc s t = C_draining wq \<Longrightarrow> t \<notin> set (tp_wait_cond s) \<Longrightarrow>
     tpstep ops s (drain_turn ops t wq s)"

section \<open>Totals over all threads\<close>

definition tot :: "('u tpoint \<Rightarrow> 'b::comm_monoid_add) \<Rightarrow> (tid \<Rightarrow> 'u tpoint) \<Rightarrow> 'b" where
  "tot f pc = (\<Sum>t | pc t \<noteq> Outside. f (pc t))"

definition fin_pc :: "(tid \<Rightarrow> 'u tpoint) \<Rightarrow> bool" where
  "fin_pc pc \<longleftrightarrow> finite {t. pc t \<noteq> Outside}"

lemma tot_outside [simp]: "tot f (\<lambda>_. Outside) = 0"
  by (simp add: tot_def)

lemma fin_pc_upd [simp]: "fin_pc pc \<Longrightarrow> fin_pc (pc(t := p))"
  unfolding fin_pc_def by (rule finite_subset [of _ "insert t {t. pc t \<noteq> Outside}"]) auto

lemma tot_upd:
  assumes "fin_pc pc" "f Outside = 0"
  shows "tot f (pc(t := p)) + f (pc t) = tot f pc + f p"
proof -
  let ?S = "insert t {u. pc u \<noteq> Outside}"
  have fin: "finite ?S" using assms(1) by (simp add: fin_pc_def)
  have "tot f pc = (\<Sum>u \<in> ?S. f (pc u))"
    unfolding tot_def using fin assms(2) by (intro sum.mono_neutral_left) auto
  moreover have "tot f (pc(t := p)) = (\<Sum>u \<in> ?S. f ((pc(t := p)) u))"
    unfolding tot_def using fin assms(2) by (intro sum.mono_neutral_left) auto
  moreover have "(\<Sum>u \<in> ?S - {t}. f ((pc(t := p)) u)) = (\<Sum>u \<in> ?S - {t}. f (pc u))"
    by (intro sum.cong) auto
  ultimately show ?thesis
    using sum.remove [OF fin, of t "\<lambda>u. f (pc u)"] sum.remove [OF fin, of t "\<lambda>u. f ((pc(t := p)) u)"]
    by (simp add: ac_simps)
qed

lemma tot_member:
  fixes f :: "'u tpoint \<Rightarrow> nat"
  assumes "fin_pc pc" "f Outside = 0"
  shows "f (pc t) \<le> tot f pc"
proof (cases "pc t = Outside")
  case False
  then show ?thesis
    using assms(1) unfolding tot_def fin_pc_def by (intro member_le_sum) auto
qed (use assms(2) in simp)

lemma tot_zero:
  fixes f :: "'u tpoint \<Rightarrow> nat"
  assumes "fin_pc pc"
  shows "tot f pc = 0 \<longleftrightarrow> (\<forall>t. pc t \<noteq> Outside \<longrightarrow> f (pc t) = 0)"
  using assms by (simp add: tot_def fin_pc_def)

fun busy :: "'u tpoint \<Rightarrow> nat" where
  "busy (W_got q) = 1"
| "busy (W_proc q u) = 1"
| "busy (W_fin q) = 1"
| "busy _ = 0"

lemma busy_le_1: "busy p \<noteq> 0 \<Longrightarrow> busy p = 1"
  by (cases p) simp_all

fun at_got :: "nat \<Rightarrow> 'u tpoint \<Rightarrow> nat" where
  "at_got q (W_got q') = (if q' = q then 1 else 0)"
| "at_got q _ = 0"

fun at_fin :: "nat \<Rightarrow> 'u tpoint \<Rightarrow> nat" where
  "at_fin q (W_fin q') = (if q' = q then 1 else 0)"
| "at_fin q _ = 0"

fun in_hand :: "nat \<Rightarrow> 'u tpoint \<Rightarrow> 'u multiset" where
  "in_hand q (W_proc q' u) = (if q' = q then {#u#} else {#})"
| "in_hand q _ = {#}"

fun pausing :: "'u tpoint \<Rightarrow> nat" where
  "pausing C_pausing = 1"
| "pausing C_paused = 1"
| "pausing _ = 0"

fun draining :: "'u tpoint \<Rightarrow> nat" where
  "draining (C_draining wq) = 1"
| "draining _ = 0"

fun alive :: "'u tpoint \<Rightarrow> bool" where
  "alive W_new = True"
| "alive W_sleep = True"
| "alive (W_got q) = True"
| "alive (W_proc q u) = True"
| "alive (W_fin q) = True"
| "alive _ = False"

fun client_waits :: "'u tpoint \<Rightarrow> bool" where
  "client_waits C_pausing = True"
| "client_waits (C_draining wq) = True"
| "client_waits _ = False"

text \<open>The same totals after one thread has moved.\<close>

lemma tot_move_same:
  fixes f :: "'u tpoint \<Rightarrow> 'b::cancel_comm_monoid_add"
  assumes "fin_pc pc" "f Outside = 0" "f p = f (pc t)"
  shows "tot f (pc(t := p)) = tot f pc"
  using tot_upd [of pc f t p] assms by simp

lemma tot_move_up:
  assumes "fin_pc pc" "f Outside = 0" "f (pc t) = 0"
  shows "tot f (pc(t := p)) = tot f pc + f p"
  using tot_upd [of pc f t p] assms by simp

lemma tot_move_down:
  assumes "fin_pc pc" "f Outside = 0" "f p = 0"
  shows "tot f pc = tot f (pc(t := p)) + f (pc t)"
  using tot_upd [of pc f t p] assms by simp

section \<open>What the scan and the worker's loop do\<close>

lemma pool_simps [simp]:
  "tp_pc (goto_point t p s) = (tp_pc s)(t := p)"
  "tp_pc (upd_wq q f s) = tp_pc s"
  "wqs (upd_wq q f s) = (wqs s)(q := f (wqs s q))"
  "wqs (goto_point t p s) = wqs s"
  by (simp_all add: goto_point_def upd_wq_def)

definition pool_empty :: "('q, 'u) wq_ops \<Rightarrow> ('q, 'u) ThreadPool \<Rightarrow> nat \<Rightarrow> bool" where
  "pool_empty ops s q = op_empty ops (wq_items (wqs s q))"

lemma pool_empty_next [simp]: "pool_empty ops (s\<lparr>next_work_queue := k\<rparr>) q = pool_empty ops s q"
  by (simp add: pool_empty_def)

definition take_item ::
  "nat \<Rightarrow> 'u \<Rightarrow> 'q \<Rightarrow> ('q, 'u) ThreadPool \<Rightarrow> ('q, 'u) ThreadPool" where
  "take_item q u c s = upd_wq q (\<lambda>w. w\<lparr>wq_items := c, to_process := to_process w @ [u]\<rparr>) s"

lemma void_dequeue_Ret:
  "void_dequeue ops q s = Ret b s' \<longleftrightarrow>
     (if b then \<not> pool_empty ops s q \<and>
        (\<exists>u c. op_dequeue ops (wq_items (wqs s q)) = Some (u, c) \<and> s' = take_item q u c s)
      else pool_empty ops s q \<and> s' = s)"
  by (auto simp: void_dequeue_def pool_empty_def take_item_def split: option.splits)

lemma scan_queues_Ret:
  assumes "scan_queues ops n s = Ret r s'" "work_queues s \<noteq> []"
  shows "(r = None \<and> (\<exists>k. s' = s\<lparr>next_work_queue := k\<rparr>) \<and>
      (\<forall>i<n. pool_empty ops s (work_queues s ! ((next_work_queue s + i) mod length (work_queues s))))) \<or>
    (\<exists>q u c k. r = Some q \<and> q \<in> set (work_queues s) \<and> \<not> pool_empty ops s q \<and>
      op_dequeue ops (wq_items (wqs s q)) = Some (u, c) \<and>
      s' = take_item q u c (s\<lparr>next_work_queue := k\<rparr>))"
  using assms
proof (induction n arbitrary: s)
  case 0
  then have "r = None" "s' = s\<lparr>next_work_queue := next_work_queue s\<rparr>" by auto
  then show ?case by blast
next
  case (Suc n)
  let ?k = "next_work_queue s mod length (work_queues s)"
  let ?q = "work_queues s ! ?k"
  let ?s = "s\<lparr>next_work_queue := ?k + 1\<rparr>"
  obtain b s1 where s1: "void_dequeue ops ?q ?s = Ret b s1"
    "(if b then Ret (Some ?q) s1 else scan_queues ops n s1) = Ret r s'"
    using Suc.prems(1) by (auto simp: Let_def bind_eq_Ret_iff)
  have q: "?q \<in> set (work_queues s)" using Suc.prems(2) by simp
  show ?case
  proof (cases b)
    case True
    then have "\<not> pool_empty ops s ?q" "\<exists>u c. op_dequeue ops (wq_items (wqs s ?q)) = Some (u, c) \<and>
        s1 = take_item ?q u c ?s" "r = Some ?q" "s' = s1"
      using s1 by (auto simp: void_dequeue_Ret)
    then show ?thesis using q by blast
  next
    case False
    then have e: "pool_empty ops s ?q" "s1 = ?s" "scan_queues ops n ?s = Ret r s'"
      using s1 by (auto simp: void_dequeue_Ret)
    have shift: "(Suc ?k + i) mod length (work_queues s) =
        (next_work_queue s + Suc i) mod length (work_queues s)" for i
      by (metis add_Suc_right add_Suc mod_add_left_eq)
    consider (none) k where "r = None" "s' = s\<lparr>next_work_queue := k\<rparr>"
        "\<forall>i<n. pool_empty ops s (work_queues s ! ((Suc ?k + i) mod length (work_queues s)))"
      | (some) q u c k where "r = Some q" "q \<in> set (work_queues s)" "\<not> pool_empty ops s q"
        "op_dequeue ops (wq_items (wqs s q)) = Some (u, c)" "s' = take_item q u c (s\<lparr>next_work_queue := k\<rparr>)"
      using Suc.IH [OF e(3)] Suc.prems(2) by auto
    then show ?thesis
    proof cases
      case none
      have "pool_empty ops s (work_queues s ! ((next_work_queue s + i) mod length (work_queues s)))"
        if "i < Suc n" for i
      proof (cases i)
        case (Suc j)
        then have "pool_empty ops s (work_queues s ! ((Suc ?k + j) mod length (work_queues s)))"
          using none(3) that by blast
        then show ?thesis unfolding shift Suc .
      qed (use e(1) in simp)
      then show ?thesis using none by blast
    qed blast
  qed
qed

text \<open>Twice the number of queues is more than enough turns to see every queue.\<close>

lemma scan_covers:
  assumes "q \<in> set qs"
  shows "\<exists>i < 2 * length qs. qs ! ((k + i) mod length qs) = q"
proof -
  obtain j where j: "j < length qs" "qs ! j = q" using assms by (metis in_set_conv_nth)
  define n where "n = length qs"
  obtain d m where k: "k = d * n + m" "m < n"
    using j(1) by (metis div_mod_decomp mod_less_divisor less_nat_zero_code n_def neq0_conv)
  have "k + (j + (n - m)) = j + (d + 1) * n" using k by simp
  then have "(k + (j + (n - m))) mod n = (j + (d + 1) * n) mod n" by (rule arg_cong)
  then have "(k + (j + (n - m))) mod n = j" using j(1) by (simp only: mod_mult_self1) (simp add: n_def)
  moreover have "j + (n - m) < 2 * n" if "m \<noteq> 0" using j(1) k(2) that by (simp add: n_def)
  moreover have "(k + j) mod n = j" "j < 2 * n" if "m = 0" using j(1) k that by (simp_all add: n_def)
  ultimately show ?thesis using j(2) by (cases "m = 0") (auto simp: n_def)
qed

lemma scan_complete:
  assumes "scan_queues ops (2 * length (work_queues s)) s = Ret None s'" "work_queues s \<noteq> []"
  shows "(\<exists>k. s' = s\<lparr>next_work_queue := k\<rparr>) \<and> (\<forall>q \<in> set (work_queues s). pool_empty ops s q)"
  using scan_queues_Ret [OF assms] scan_covers [of _ "work_queues s" "next_work_queue s"] by fastforce

text \<open>The three ways through the loop: exit, sleep, or an item.\<close>

definition loop_effect ::
  "('q, 'u) wq_ops \<Rightarrow> tid \<Rightarrow> ('q, 'u) ThreadPool \<Rightarrow> ('q, 'u) ThreadPool \<Rightarrow> bool" where
  "loop_effect ops t s s' \<longleftrightarrow>
     (tp_stop s \<and> (\<exists>h. s' = goto_point t W_exit (s\<lparr>hbmap := h\<rparr>))) \<or>
     ((tp_pause s \<noteq> 0 \<or> (\<forall>q \<in> set (work_queues s). pool_empty ops s q)) \<and>
      (\<exists>h k. s' = goto_point t W_sleep
         (s\<lparr>next_work_queue := k, hbmap := h, tp_cond := tp_cond s @ [t]\<rparr>))) \<or>
     (tp_pause s = 0 \<and> (\<exists>q u c k. q \<in> set (work_queues s) \<and> \<not> pool_empty ops s q \<and>
        op_dequeue ops (wq_items (wqs s q)) = Some (u, c) \<and>
        s' = goto_point t (W_got q)
          ((take_item q u c (s\<lparr>next_work_queue := k\<rparr>))\<lparr>processing := processing s + 1\<rparr>)))"

lemma with_hb_Ret: "with_hb f s = Ret a s' \<longleftrightarrow> (\<exists>h. f (hbmap s) = Ret a h \<and> s' = s\<lparr>hbmap := h\<rparr>)"
  by (auto simp: with_hb_def lift_state_eq_Ret_iff)

lemma worker_sleep_Ret:
  assumes "worker_sleep e t s = Ret () s'"
  shows "\<exists>h. s' = goto_point t W_sleep (s\<lparr>hbmap := h, tp_cond := tp_cond s @ [t]\<rparr>)"
  using assms by (auto simp: worker_sleep_def bind_eq_Ret_iff with_hb_Ret)

lemma worker_loop_effect:
  assumes "worker_loop ops e t s = Ret () s'" "tp_old_threads s = []"
  shows "loop_effect ops t s s'"
proof -
  have "s\<lparr>tp_old_threads := []\<rparr> = s" using assms(2) by simp
  then have old: "join_old_threads s = Ret () s" using assms(2) unfolding join_old_threads_def by simp
  have id_next: "s\<lparr>hbmap := h, tp_cond := x\<rparr> =
      s\<lparr>next_work_queue := next_work_queue s, hbmap := h, tp_cond := x\<rparr>" for h x by simp
  consider (stop) "tp_stop s"
    | (idle) "\<not> tp_stop s" "work_queues s = [] \<or> tp_pause s \<noteq> 0" "worker_sleep e t s = Ret () s'"
    | (scan) found s1 where "\<not> tp_stop s" "work_queues s \<noteq> []" "tp_pause s = 0"
      "scan_queues ops (2 * length (work_queues s)) s = Ret found s1"
      "(case found of Some q \<Rightarrow> Ret () (goto_point t (W_got q) (s1\<lparr>processing := processing s1 + 1\<rparr>))
        | None \<Rightarrow> worker_sleep e t s1) = Ret () s'"
    using assms(1) by (auto simp: worker_loop_def old bind_eq_Ret_iff split: if_splits)
  then show ?thesis
  proof cases
    case stop
    then show ?thesis
      using assms(1) by (auto simp: worker_loop_def bind_eq_Ret_iff with_hb_Ret loop_effect_def)
  next
    case idle
    obtain h where "s' = goto_point t W_sleep (s\<lparr>hbmap := h, tp_cond := tp_cond s @ [t]\<rparr>)"
      using worker_sleep_Ret [OF idle(3)] by blast
    then show ?thesis using idle(2) unfolding loop_effect_def id_next by fastforce
  next
    case scan
    show ?thesis
    proof (cases found)
      case None
      then obtain k where k: "s1 = s\<lparr>next_work_queue := k\<rparr>" "\<forall>q \<in> set (work_queues s). pool_empty ops s q"
        using scan_complete scan(2,4) by blast
      obtain h where "s' = goto_point t W_sleep (s1\<lparr>hbmap := h, tp_cond := tp_cond s1 @ [t]\<rparr>)"
        using worker_sleep_Ret scan(5) None by (metis option.simps(4))
      then have "s' = goto_point t W_sleep (s\<lparr>next_work_queue := k, hbmap := h, tp_cond := tp_cond s @ [t]\<rparr>)"
        using k(1) by simp
      then show ?thesis using k(2) unfolding loop_effect_def by blast
    next
      case (Some q)
      then obtain u c k where "q \<in> set (work_queues s)" "\<not> pool_empty ops s q"
        "op_dequeue ops (wq_items (wqs s q)) = Some (u, c)" "s1 = take_item q u c (s\<lparr>next_work_queue := k\<rparr>)"
        using scan_queues_Ret [OF scan(4,2)] by auto
      moreover from this have "s' = goto_point t (W_got q)
          ((take_item q u c (s\<lparr>next_work_queue := k\<rparr>))\<lparr>processing := processing s + 1\<rparr>)"
        using scan(5) Some by (simp add: take_item_def upd_wq_def)
      ultimately show ?thesis using scan(3) unfolding loop_effect_def by blast
    qed
  qed
qed

lemma loop_effect_goto: "loop_effect ops t (goto_point t p s) s' = loop_effect ops t s s'"
  by (simp add: loop_effect_def pool_empty_def goto_point_def take_item_def upd_wq_def)

section \<open>The interface of a work queue\<close>

locale work_queue =
  fixes ops :: "('q, 'u) wq_ops" and contents :: "'q \<Rightarrow> 'u multiset"
  assumes empty_iff: "op_empty ops q \<longleftrightarrow> contents q = {#}"
    and enqueue: "contents (op_enqueue ops u q) = add_mset u (contents q)"
    and enqueue_front: "contents (op_enqueue_front ops u q) = add_mset u (contents q)"
    and dequeue: "contents q \<noteq> {#} \<Longrightarrow>
      \<exists>u c. op_dequeue ops q = Some (u, c) \<and> contents q = add_mset u (contents c)"
begin

lemma dequeue_contents:
  "op_dequeue ops q = Some (u, c) \<Longrightarrow> \<not> op_empty ops q \<Longrightarrow> contents q = add_mset u (contents c)"
  using dequeue [of q] empty_iff by auto

lemma void_dequeue_total: "\<exists>b s'. void_dequeue ops q s = Ret b s'"
proof (cases "op_empty ops (wq_items (wqs s q))")
  case False
  then obtain u c where "op_dequeue ops (wq_items (wqs s q)) = Some (u, c)"
    using dequeue empty_iff by blast
  then show ?thesis using False by (auto simp: void_dequeue_def)
qed (auto simp: void_dequeue_def)

end

section \<open>The invariant\<close>

definition counts_inv :: "('q, 'u) ThreadPool \<Rightarrow> bool" where
  "counts_inv s \<longleftrightarrow> fin_pc (tp_pc s) \<and> processing s = int (tot busy (tp_pc s)) \<and>
     tp_pause s = int (tot pausing (tp_pc s)) \<and> tp_draining s = int (tot draining (tp_pc s)) \<and>
     (\<forall>q. length (to_process (wqs s q)) = tot (at_got q) (tp_pc s)) \<and>
     (\<forall>q. length (to_finish (wqs s q)) = tot (at_fin q) (tp_pc s))"

definition items_inv :: "('q \<Rightarrow> 'u multiset) \<Rightarrow> ('q, 'u) ThreadPool \<Rightarrow> bool" where
  "items_inv contents s \<longleftrightarrow> (\<not> tp_cleared s \<longrightarrow> (\<forall>q. tp_queued s q =
     contents (wq_items (wqs s q)) + mset (to_process (wqs s q)) + tot (in_hand q) (tp_pc s) +
     mset (to_finish (wqs s q)) + tp_finished s q))"

definition sets_inv :: "('q, 'u) ThreadPool \<Rightarrow> bool" where
  "sets_inv s \<longleftrightarrow> tp_old_threads s = [] \<and>
     (\<forall>t. tp_pc s t = C_paused \<longrightarrow> processing s = 0) \<and>
     (\<forall>t \<in> set (tp_cond s). tp_pc s t = W_sleep) \<and>
     (\<forall>t \<in> set (tp_wait_cond s). client_waits (tp_pc s t)) \<and>
     (\<forall>t. alive (tp_pc s t) \<longrightarrow> t \<in> set (tp_threads s))"

definition awake_worker :: "('q, 'u) ThreadPool \<Rightarrow> tid \<Rightarrow> bool" where
  "awake_worker s t \<longleftrightarrow> alive (tp_pc s t) \<and> t \<notin> set (tp_cond s)"

definition work_pending :: "('q, 'u) wq_ops \<Rightarrow> ('q, 'u) ThreadPool \<Rightarrow> bool" where
  "work_pending ops s \<longleftrightarrow> (\<exists>q \<in> set (work_queues s). \<not> pool_empty ops s q) \<and> tp_pause s = 0 \<and>
     \<not> tp_stop s"

definition live_inv :: "('q, 'u) wq_ops \<Rightarrow> ('q, 'u) ThreadPool \<Rightarrow> bool" where
  "live_inv ops s \<longleftrightarrow>
     (work_pending ops s \<and> (\<exists>t. alive (tp_pc s t)) \<longrightarrow> (\<exists>t. awake_worker s t))"

definition wait_inv :: "('q, 'u) wq_ops \<Rightarrow> ('q, 'u) ThreadPool \<Rightarrow> bool" where
  "wait_inv ops s \<longleftrightarrow> (\<forall>t \<in> set (tp_wait_cond s).
     (tp_pc s t = C_pausing \<longrightarrow> processing s \<noteq> 0) \<and>
     (\<forall>wq. tp_pc s t = C_draining wq \<and> \<not> tp_cleared s \<longrightarrow> drain_waits ops wq s))"

definition tp_inv :: "('q, 'u) wq_ops \<Rightarrow> ('q \<Rightarrow> 'u multiset) \<Rightarrow> ('q, 'u) ThreadPool \<Rightarrow> bool" where
  "tp_inv ops contents s \<longleftrightarrow> counts_inv s \<and> items_inv contents s \<and> sets_inv s \<and> live_inv ops s \<and>
     wait_inv ops s"

lemmas tp_inv_parts = counts_inv_def items_inv_def sets_inv_def live_inv_def wait_inv_def

text \<open>A thread that no part of the invariant counts moves to another such point.\<close>

lemma counts_move:
  assumes "counts_inv s" "tp_pc s' = (tp_pc s)(t := p)" "wqs s' = wqs s"
    "processing s' = processing s" "tp_pause s' = tp_pause s" "tp_draining s' = tp_draining s"
    "busy p = busy (tp_pc s t)" "pausing p = pausing (tp_pc s t)" "draining p = draining (tp_pc s t)"
    "\<And>q. at_got q p = at_got q (tp_pc s t)" "\<And>q. at_fin q p = at_fin q (tp_pc s t)"
  shows "counts_inv s'"
  using assms by (simp add: counts_inv_def tot_move_same)

lemma items_move:
  assumes "items_inv contents s" "fin_pc (tp_pc s)" "tp_pc s' = (tp_pc s)(t := p)" "wqs s' = wqs s"
    "tp_queued s' = tp_queued s" "tp_finished s' = tp_finished s" "tp_cleared s' = tp_cleared s"
    "\<And>q. in_hand q p = in_hand q (tp_pc s t)"
  shows "items_inv contents s'"
  using assms by (simp add: items_inv_def tot_move_same)

lemma items_same:
  assumes "items_inv contents s" "tp_pc s' = tp_pc s" "wqs s' = wqs s"
    "tp_queued s' = tp_queued s" "tp_finished s' = tp_finished s" "tp_cleared s' = tp_cleared s"
  shows "items_inv contents s'"
  using assms by (simp add: items_inv_def)

lemma wait_move:
  assumes "wait_inv ops s" "set (tp_wait_cond s') \<subseteq> set (tp_wait_cond s)"
    "\<And>u. u \<in> set (tp_wait_cond s') \<Longrightarrow> tp_pc s' u = tp_pc s u"
    "processing s \<noteq> 0 \<Longrightarrow> processing s' \<noteq> 0" "\<And>q. pool_empty ops s' q \<Longrightarrow> pool_empty ops s q"
    "tp_cleared s \<Longrightarrow> tp_cleared s'"
  shows "wait_inv ops s'"
  unfolding wait_inv_def
proof (intro ballI conjI allI impI)
  fix u wq assume u: "u \<in> set (tp_wait_cond s')"
  then have old: "u \<in> set (tp_wait_cond s)" "tp_pc s' u = tp_pc s u" using assms(2,3) by auto
  { assume "tp_pc s' u = C_pausing"
    then show "processing s' \<noteq> 0" using assms(1,4) old by (simp add: wait_inv_def) }
  assume "tp_pc s' u = C_draining wq \<and> \<not> tp_cleared s'"
  then have "drain_waits ops wq s" using assms(1,6) old by (auto simp: wait_inv_def)
  then show "drain_waits ops wq s'"
    using assms(4,5) by (auto simp: drain_waits_def pool_empty_def split: option.splits)
qed

text \<open>A worker that is awake anywhere keeps the pool live.\<close>

lemma live_awake: "alive (tp_pc s t) \<Longrightarrow> t \<notin> set (tp_cond s) \<Longrightarrow> live_inv ops s"
  by (auto simp: live_inv_def awake_worker_def)

lemma live_idle: "\<not> work_pending ops s \<Longrightarrow> live_inv ops s"
  by (simp add: live_inv_def)

lemma live_move:
  assumes "live_inv ops s" "work_pending ops s' \<Longrightarrow> work_pending ops s"
    "\<And>u. alive (tp_pc s' u) = alive (tp_pc s u)" "set (tp_cond s') \<subseteq> set (tp_cond s)"
  shows "live_inv ops s'"
  using assms by (auto simp: live_inv_def awake_worker_def)

section \<open>Preservation, transition by transition\<close>

lemma tp_inv_fin: "tp_inv ops contents s \<Longrightarrow> fin_pc (tp_pc s)"
  by (simp add: tp_inv_def counts_inv_def)

lemma tp_inv_notin:
  assumes "tp_inv ops contents s"
  shows "tp_pc s t \<noteq> W_sleep \<Longrightarrow> t \<notin> set (tp_cond s)"
    "\<not> client_waits (tp_pc s t) \<Longrightarrow> t \<notin> set (tp_wait_cond s)"
  using assms by (auto simp: tp_inv_def sets_inv_def)

lemma pool_empty_frame [simp]:
  "pool_empty ops (goto_point t p s) q = pool_empty ops s q"
  "pool_empty ops (s\<lparr>hbmap := h\<rparr>) q = pool_empty ops s q"
  "pool_empty ops (s\<lparr>hb_of := x\<rparr>) q = pool_empty ops s q"
  "pool_empty ops (s\<lparr>tp_cond := c\<rparr>) q = pool_empty ops s q"
  "pool_empty ops (s\<lparr>tp_wait_cond := c\<rparr>) q = pool_empty ops s q"
  "pool_empty ops (s\<lparr>processing := n\<rparr>) q = pool_empty ops s q"
  "pool_empty ops (s\<lparr>tp_pause := n\<rparr>) q = pool_empty ops s q"
  "pool_empty ops (s\<lparr>tp_draining := n\<rparr>) q = pool_empty ops s q"
  "pool_empty ops (s\<lparr>tp_stop := b\<rparr>) q = pool_empty ops s q"
  "pool_empty ops (s\<lparr>work_queues := l\<rparr>) q = pool_empty ops s q"
  by (simp_all add: pool_empty_def)

lemma goto_fields [simp]:
  "tp_cond (goto_point t p s) = tp_cond s"
  "tp_wait_cond (goto_point t p s) = tp_wait_cond s"
  "processing (goto_point t p s) = processing s"
  "tp_pause (goto_point t p s) = tp_pause s"
  "tp_draining (goto_point t p s) = tp_draining s"
  "tp_stop (goto_point t p s) = tp_stop s"
  "work_queues (goto_point t p s) = work_queues s"
  "tp_threads (goto_point t p s) = tp_threads s"
  "tp_old_threads (goto_point t p s) = tp_old_threads s"
  "tp_queued (goto_point t p s) = tp_queued s"
  "tp_finished (goto_point t p s) = tp_finished s"
  "tp_cleared (goto_point t p s) = tp_cleared s"
  by (simp_all add: goto_point_def)

lemma upd_fields [simp]:
  "tp_cond (upd_wq q f s) = tp_cond s"
  "tp_wait_cond (upd_wq q f s) = tp_wait_cond s"
  "processing (upd_wq q f s) = processing s"
  "tp_pause (upd_wq q f s) = tp_pause s"
  "tp_draining (upd_wq q f s) = tp_draining s"
  "tp_stop (upd_wq q f s) = tp_stop s"
  "work_queues (upd_wq q f s) = work_queues s"
  "tp_threads (upd_wq q f s) = tp_threads s"
  "tp_old_threads (upd_wq q f s) = tp_old_threads s"
  "tp_queued (upd_wq q f s) = tp_queued s"
  "tp_finished (upd_wq q f s) = tp_finished s"
  "tp_cleared (upd_wq q f s) = tp_cleared s"
  by (simp_all add: upd_wq_def)

text \<open>A new worker has its handle and stands at the head of its loop.\<close>

lemma inv_entered:
  assumes "tp_inv ops contents s" "tp_pc s t = W_new"
  shows "tp_inv ops contents (goto_point t W_sleep (s\<lparr>hbmap := h, hb_of := x\<rparr>))"
proof -
  note out = tp_inv_notin [OF assms(1), of t]
  have parts: "counts_inv s" "items_inv contents s" "sets_inv s" "wait_inv ops s"
    using assms(1) by (simp_all add: tp_inv_def)
  let ?s = "goto_point t W_sleep (s\<lparr>hbmap := h, hb_of := x\<rparr>)"
  have "counts_inv ?s" by (rule counts_move [OF parts(1), of _ t W_sleep]) (simp_all add: assms(2))
  moreover have "items_inv contents ?s"
    by (rule items_move [OF parts(2) tp_inv_fin [OF assms(1)], of _ t W_sleep]) (simp_all add: assms(2))
  moreover have "sets_inv ?s" using parts(3) out assms(2) by (auto simp: sets_inv_def)
  moreover have "live_inv ops ?s" by (rule live_awake [of _ t]) (use out assms(2) in simp_all)
  moreover have "wait_inv ops ?s"
    by (rule wait_move [OF parts(4)]) (use out assms(2) in auto)
  ultimately show ?thesis by (simp add: tp_inv_def)
qed

lemma wait_busy: "processing s \<noteq> 0 \<Longrightarrow> wait_inv ops s"
  by (simp add: wait_inv_def drain_waits_def)

lemma no_paused:
  assumes "counts_inv s" "tp_pause s = 0"
  shows "pausing (tp_pc s t) = 0"
  using assms tot_member [of "tp_pc s" pausing t] by (simp add: counts_inv_def)

lemma inv_exit:
  assumes "tp_inv ops contents s" "tp_pc s t = W_sleep" "t \<notin> set (tp_cond s)" "tp_stop s"
  shows "tp_inv ops contents (goto_point t W_exit (s\<lparr>hbmap := h\<rparr>))"
proof -
  have parts: "counts_inv s" "items_inv contents s" "sets_inv s" "wait_inv ops s"
    using assms(1) by (simp_all add: tp_inv_def)
  let ?s = "goto_point t W_exit (s\<lparr>hbmap := h\<rparr>)"
  have "counts_inv ?s" by (rule counts_move [OF parts(1), of _ t W_exit]) (simp_all add: assms(2))
  moreover have "items_inv contents ?s"
    by (rule items_move [OF parts(2) tp_inv_fin [OF assms(1)], of _ t W_exit]) (simp_all add: assms(2))
  moreover have "sets_inv ?s" using parts(3) assms(2,3) by (auto simp: sets_inv_def)
  moreover have "live_inv ops ?s" by (rule live_idle) (use assms(4) in \<open>simp add: work_pending_def\<close>)
  moreover have "wait_inv ops ?s"
    by (rule wait_move [OF parts(4)]) (use tp_inv_notin(2) [OF assms(1), of t] assms(2) in auto)
  ultimately show ?thesis by (simp add: tp_inv_def)
qed

lemma inv_sleep:
  assumes "tp_inv ops contents s" "tp_pc s t = W_sleep"
    "tp_pause s \<noteq> 0 \<or> (\<forall>q \<in> set (work_queues s). pool_empty ops s q)"
  shows "tp_inv ops contents (goto_point t W_sleep
    (s\<lparr>next_work_queue := k, hbmap := h, tp_cond := tp_cond s @ [t]\<rparr>))"
proof -
  have parts: "counts_inv s" "items_inv contents s" "sets_inv s" "wait_inv ops s"
    using assms(1) by (simp_all add: tp_inv_def)
  let ?s = "goto_point t W_sleep (s\<lparr>next_work_queue := k, hbmap := h, tp_cond := tp_cond s @ [t]\<rparr>)"
  have "counts_inv ?s" by (rule counts_move [OF parts(1), of _ t W_sleep]) (simp_all add: assms(2))
  moreover have "items_inv contents ?s"
    by (rule items_move [OF parts(2) tp_inv_fin [OF assms(1)], of _ t W_sleep]) (simp_all add: assms(2))
  moreover have "sets_inv ?s" using parts(3) assms(2) by (auto simp: sets_inv_def)
  moreover have "live_inv ops ?s" by (rule live_idle) (use assms(3) in \<open>auto simp: work_pending_def\<close>)
  moreover have "wait_inv ops ?s"
    by (rule wait_move [OF parts(4)]) (use tp_inv_notin(2) [OF assms(1), of t] assms(2) in auto)
  ultimately show ?thesis by (simp add: tp_inv_def)
qed

context work_queue
begin

lemma inv_got:
  assumes "tp_inv ops contents s" "tp_pc s t = W_sleep" "t \<notin> set (tp_cond s)" "tp_pause s = 0"
    "\<not> pool_empty ops s q" "op_dequeue ops (wq_items (wqs s q)) = Some (u, c)"
  shows "tp_inv ops contents (goto_point t (W_got q)
    ((take_item q u c (s\<lparr>next_work_queue := k\<rparr>))\<lparr>processing := processing s + 1\<rparr>))"
    (is "tp_inv ops contents ?s")
proof -
  have parts: "counts_inv s" "items_inv contents s" "sets_inv s" "wait_inv ops s"
    using assms(1) by (simp_all add: tp_inv_def)
  note fin = tp_inv_fin [OF assms(1)]
  have up: "tot f ((tp_pc s)(t := W_got q)) = tot f (tp_pc s) + f (W_got q)"
    if "f Outside = 0" "f W_sleep = 0" for f :: "'u tpoint \<Rightarrow> 'z::comm_monoid_add"
    using that assms(2) by (intro tot_move_up [OF fin]) simp_all
  have "counts_inv ?s" using parts(1) fin by (simp add: counts_inv_def take_item_def up)
  moreover have "contents (wq_items (wqs s q)) = add_mset u (contents c)"
    using assms(5,6) dequeue_contents by (simp add: pool_empty_def)
  then have "items_inv contents ?s" using parts(2) by (simp add: items_inv_def take_item_def up)
  moreover have "tp_pc s v \<noteq> C_paused" for v using no_paused [OF parts(1) assms(4), of v] by auto
  then have "sets_inv ?s" using parts(3) assms(2,3) by (auto simp: sets_inv_def take_item_def)
  moreover have "live_inv ops ?s" by (rule live_awake [of _ t]) (simp_all add: assms(3) take_item_def)
  moreover have "wait_inv ops ?s" by (rule wait_busy) (use parts(1) in \<open>simp add: counts_inv_def\<close>)
  ultimately show ?thesis by (simp add: tp_inv_def)
qed

lemma inv_loop:
  assumes "tp_inv ops contents s" "tp_pc s t = W_sleep" "t \<notin> set (tp_cond s)" "loop_effect ops t s s'"
  shows "tp_inv ops contents s'"
  using assms(4) unfolding loop_effect_def
  using inv_exit [OF assms(1-3)] inv_sleep [OF assms(1,2)] inv_got [OF assms(1-3)] by blast

end

lemma item_waiting:
  assumes "counts_inv s"
  shows "tp_pc s t = W_got q \<Longrightarrow> to_process (wqs s q) \<noteq> []"
    "tp_pc s t = W_fin q \<Longrightarrow> to_finish (wqs s q) \<noteq> []"
proof -
  have "length (to_process (wqs s q)) = tot (at_got q) (tp_pc s)"
    "length (to_finish (wqs s q)) = tot (at_fin q) (tp_pc s)" "fin_pc (tp_pc s)"
    using assms by (simp_all add: counts_inv_def)
  then show "tp_pc s t = W_got q \<Longrightarrow> to_process (wqs s q) \<noteq> []"
    "tp_pc s t = W_fin q \<Longrightarrow> to_finish (wqs s q) \<noteq> []"
    using tot_member [of "tp_pc s" "at_got q" t] tot_member [of "tp_pc s" "at_fin q" t] by auto
qed

lemma inv_process_take:
  assumes "tp_inv ops contents s" "tp_pc s t = W_got q" "to_process (wqs s q) = u # us"
  shows "tp_inv ops contents (goto_point t (W_proc q u)
    (upd_wq q (\<lambda>w. w\<lparr>to_process := us\<rparr>) (s\<lparr>hbmap := h\<rparr>)))" (is "tp_inv ops contents ?s")
proof -
  have parts: "counts_inv s" "items_inv contents s" "sets_inv s" "wait_inv ops s"
    using assms(1) by (simp_all add: tp_inv_def)
  note fin = tp_inv_fin [OF assms(1)] and out = tp_inv_notin [OF assms(1), of t]
  let ?pc = "(tp_pc s)(t := W_proc q u)"
  have down: "tot (at_got q) (tp_pc s) = tot (at_got q) ?pc + 1"
    using tot_move_down [OF fin, of "at_got q" "W_proc q u" t] assms(2) by simp
  have other: "tot (at_got q') ?pc = tot (at_got q') (tp_pc s)" if "q' \<noteq> q" for q'
    using that assms(2) by (intro tot_move_same [OF fin]) simp_all
  have same: "tot busy ?pc = tot busy (tp_pc s)" "tot pausing ?pc = tot pausing (tp_pc s)"
    "tot draining ?pc = tot draining (tp_pc s)" "tot (at_fin q') ?pc = tot (at_fin q') (tp_pc s)" for q'
    using assms(2) by (intro tot_move_same [OF fin]; simp)+
  have hand: "tot (in_hand q') ?pc = tot (in_hand q') (tp_pc s) + (if q' = q then {#u#} else {#})" for q'
    using tot_move_up [OF fin, of "in_hand q'" t "W_proc q u"] assms(2) by simp
  have len: "length (to_process (wqs s q')) = tot (at_got q') (tp_pc s)" for q'
    using parts(1) by (simp add: counts_inv_def)
  have "length us = tot (at_got q) ?pc" using len [of q] assms(3) down by simp
  then have "counts_inv ?s" using parts(1) fin same other by (simp add: counts_inv_def)
  moreover have "items_inv contents ?s" using parts(2) assms(3) by (simp add: items_inv_def hand)
  moreover have "sets_inv ?s" using parts(3) out assms(2) by (auto simp: sets_inv_def)
  moreover have "live_inv ops ?s" by (rule live_awake [of _ t]) (use out assms(2) in simp_all)
  moreover have "wait_inv ops ?s"
    by (rule wait_move [OF parts(4)]) (use out assms(2) in \<open>auto simp: pool_empty_def split: if_splits\<close>)
  ultimately show ?thesis by (simp add: tp_inv_def)
qed

lemma inv_put:
  assumes "tp_inv ops contents s" "tp_pc s t = W_proc q u"
  shows "tp_inv ops contents (goto_point t (W_fin q) (void_process_put q u s))"
    (is "tp_inv ops contents ?s")
proof -
  have parts: "counts_inv s" "items_inv contents s" "sets_inv s" "wait_inv ops s"
    using assms(1) by (simp_all add: tp_inv_def)
  note fin = tp_inv_fin [OF assms(1)] and out = tp_inv_notin [OF assms(1), of t]
  let ?pc = "(tp_pc s)(t := W_fin q)"
  have same: "tot busy ?pc = tot busy (tp_pc s)" "tot pausing ?pc = tot pausing (tp_pc s)"
    "tot draining ?pc = tot draining (tp_pc s)" "tot (at_got q') ?pc = tot (at_got q') (tp_pc s)" for q'
    using assms(2) by (intro tot_move_same [OF fin]; simp)+
  have up: "tot (at_fin q') ?pc = tot (at_fin q') (tp_pc s) + (if q' = q then 1 else 0)" for q'
    using tot_move_up [OF fin, of "at_fin q'" t "W_fin q"] assms(2) by simp
  have hand: "tot (in_hand q') (tp_pc s) = tot (in_hand q') ?pc + (if q' = q then {#u#} else {#})" for q'
    using tot_move_down [OF fin, of "in_hand q'" "W_fin q" t] assms(2) by simp
  have "counts_inv ?s" using parts(1) fin same by (simp add: counts_inv_def up void_process_put_def)
  moreover have "items_inv contents ?s"
    using parts(2) by (simp add: items_inv_def hand void_process_put_def)
  moreover have "sets_inv ?s"
    using parts(3) out assms(2) by (auto simp: sets_inv_def void_process_put_def)
  moreover have "live_inv ops ?s"
    by (rule live_awake [of _ t]) (use out assms(2) in \<open>simp_all add: void_process_put_def\<close>)
  moreover have "wait_inv ops ?s"
    by (rule wait_move [OF parts(4)])
      (use out assms(2) in \<open>auto simp: pool_empty_def void_process_put_def split: if_splits\<close>)
  ultimately show ?thesis by (simp add: tp_inv_def)
qed

text \<open>Finishing an item, up to the head of the loop; the waiting callers are notified.\<close>

definition finish_item :: "nat \<Rightarrow> ('q, 'u) ThreadPool \<Rightarrow> ('q, 'u) ThreadPool" where
  "finish_item q s =
     (let u = hd (to_finish (wqs s q));
          s1 = upd_wq q (\<lambda>w. w\<lparr>to_finish := tl (to_finish w)\<rparr>) s;
          s2 = s1\<lparr>tp_finished := (tp_finished s1)(q := add_mset u (tp_finished s1 q))\<rparr>;
          s3 = s2\<lparr>processing := processing s2 - 1\<rparr>
      in if tp_pause s3 \<noteq> 0 \<or> tp_draining s3 \<noteq> 0 then s3\<lparr>tp_wait_cond := []\<rparr> else s3)"

lemma worker_finish_Ret:
  assumes "worker_finish ops e t q s = Ret () s'"
  shows "to_finish (wqs s q) \<noteq> [] \<and> worker_loop ops e t (finish_item q s) = Ret () s'"
  using assms
  by (auto simp: worker_finish_def void_process_finish_def finish_item_def outcome_inv Let_def)

lemma finish_item_fields [simp]:
  "tp_pc (finish_item q s) = tp_pc s"
  "tp_cond (finish_item q s) = tp_cond s"
  "tp_pause (finish_item q s) = tp_pause s"
  "tp_draining (finish_item q s) = tp_draining s"
  "tp_stop (finish_item q s) = tp_stop s"
  "work_queues (finish_item q s) = work_queues s"
  "tp_threads (finish_item q s) = tp_threads s"
  "tp_old_threads (finish_item q s) = tp_old_threads s"
  "tp_queued (finish_item q s) = tp_queued s"
  "tp_cleared (finish_item q s) = tp_cleared s"
  "processing (finish_item q s) = processing s - 1"
  "wqs (finish_item q s) = (wqs s)(q := (wqs s q)\<lparr>to_finish := tl (to_finish (wqs s q))\<rparr>)"
  "tp_finished (finish_item q s) = (tp_finished s)(q := add_mset (hd (to_finish (wqs s q))) (tp_finished s q))"
  "tp_wait_cond (finish_item q s) =
     (if tp_pause s \<noteq> 0 \<or> tp_draining s \<noteq> 0 then [] else tp_wait_cond s)"
  by (simp_all add: finish_item_def Let_def)

lemma no_waiter:
  assumes "counts_inv s" "sets_inv s" "tp_pause s = 0" "tp_draining s = 0"
  shows "tp_wait_cond s = []"
proof -
  have "\<not> client_waits (tp_pc s t)" for t
    using assms(1,3,4) tot_member [of "tp_pc s" pausing t] tot_member [of "tp_pc s" draining t]
    by (cases "tp_pc s t") (auto simp: counts_inv_def)
  then show ?thesis using assms(2) by (cases "tp_wait_cond s") (auto simp: sets_inv_def)
qed

lemma inv_finish:
  assumes "tp_inv ops contents s" "tp_pc s t = W_fin q"
  shows "tp_inv ops contents (goto_point t W_sleep (finish_item q s))" (is "tp_inv ops contents ?s")
proof -
  have parts: "counts_inv s" "items_inv contents s" "sets_inv s" "wait_inv ops s"
    using assms(1) by (simp_all add: tp_inv_def)
  note fin = tp_inv_fin [OF assms(1)] and out = tp_inv_notin [OF assms(1), of t]
  obtain u us where us: "to_finish (wqs s q) = u # us"
    using item_waiting(2) [OF parts(1) assms(2)] by (cases "to_finish (wqs s q)") auto
  let ?pc = "(tp_pc s)(t := W_sleep)"
  have same: "tot pausing ?pc = tot pausing (tp_pc s)" "tot draining ?pc = tot draining (tp_pc s)"
    "tot (at_got q') ?pc = tot (at_got q') (tp_pc s)" for q'
    using assms(2) by (intro tot_move_same [OF fin]; simp)+
  have hand: "tot (in_hand q') ?pc = tot (in_hand q') (tp_pc s)" for q'
    using assms(2) by (intro tot_move_same [OF fin]) simp_all
  have down: "tot busy (tp_pc s) = tot busy ?pc + 1"
    "tot (at_fin q') (tp_pc s) = tot (at_fin q') ?pc + (if q' = q then 1 else 0)" for q'
    using tot_move_down [OF fin, of busy W_sleep t] tot_move_down [OF fin, of "at_fin q'" W_sleep t]
      assms(2) by simp_all
  have len: "length (to_finish (wqs s q')) = tot (at_fin q') (tp_pc s)" for q'
    using parts(1) by (simp add: counts_inv_def)
  have "length us = tot (at_fin q) ?pc" using len [of q] us down(2) [of q] by simp
  then have "counts_inv ?s" using parts(1) fin same us down by (simp add: counts_inv_def)
  moreover have "items_inv contents ?s" using parts(2) us by (simp add: items_inv_def hand)
  moreover have "processing s \<noteq> 0" using down(1) parts(1) by (simp add: counts_inv_def)
  then have "sets_inv ?s" using parts(3) out assms(2) by (auto simp: sets_inv_def)
  moreover have "live_inv ops ?s" by (rule live_awake [of _ t]) (use out assms(2) in simp_all)
  moreover have "wait_inv ops ?s" using no_waiter [OF parts(1,3)] by (auto simp: wait_inv_def)
  ultimately show ?thesis by (simp add: tp_inv_def)
qed

lemma counts_same:
  assumes "counts_inv s" "tp_pc s' = tp_pc s" "processing s' = processing s" "tp_pause s' = tp_pause s"
    "tp_draining s' = tp_draining s" "\<And>q. to_process (wqs s' q) = to_process (wqs s q)"
    "\<And>q. to_finish (wqs s' q) = to_finish (wqs s q)"
  shows "counts_inv s'"
  using assms by (simp add: counts_inv_def)

lemma inv_wake_up:
  assumes "tp_inv ops contents s" "set ts \<subseteq> set (tp_cond s)"
  shows "tp_inv ops contents (s\<lparr>tp_cond := ts\<rparr>)" (is "tp_inv ops contents ?s")
proof -
  have parts: "counts_inv s" "items_inv contents s" "sets_inv s" "live_inv ops s" "wait_inv ops s"
    using assms(1) by (simp_all add: tp_inv_def)
  have "counts_inv ?s" by (rule counts_same [OF parts(1)]) simp_all
  moreover have "items_inv contents ?s" by (rule items_same [OF parts(2)]) simp_all
  moreover have "sets_inv ?s" using parts(3) assms(2) by (auto simp: sets_inv_def)
  moreover have "live_inv ops ?s"
    by (rule live_move [OF parts(4)]) (use assms(2) in \<open>simp_all add: work_pending_def\<close>)
  moreover have "wait_inv ops ?s" by (rule wait_move [OF parts(5)]) simp_all
  ultimately show ?thesis by (simp add: tp_inv_def)
qed

lemma inv_wait_wake_up:
  assumes "tp_inv ops contents s" "set ts \<subseteq> set (tp_wait_cond s)"
  shows "tp_inv ops contents (s\<lparr>tp_wait_cond := ts\<rparr>)" (is "tp_inv ops contents ?s")
proof -
  have parts: "counts_inv s" "items_inv contents s" "sets_inv s" "live_inv ops s" "wait_inv ops s"
    using assms(1) by (simp_all add: tp_inv_def)
  have "counts_inv ?s" by (rule counts_same [OF parts(1)]) simp_all
  moreover have "items_inv contents ?s" by (rule items_same [OF parts(2)]) simp_all
  moreover have "sets_inv ?s" using parts(3) assms(2) by (auto simp: sets_inv_def)
  moreover have "live_inv ops ?s"
    by (rule live_move [OF parts(4)]) (simp_all add: work_pending_def)
  moreover have "wait_inv ops ?s" by (rule wait_move [OF parts(5)]) (use assms(2) in simp_all)
  ultimately show ?thesis by (simp add: tp_inv_def)
qed

text \<open>Both ways of queueing an item: \<open>c\<close> is the queue with one item more.\<close>

definition put_item ::
  "tid list \<Rightarrow> nat \<Rightarrow> 'u \<Rightarrow> 'q \<Rightarrow> ('q, 'u) ThreadPool \<Rightarrow> ('q, 'u) ThreadPool" where
  "put_item woken q u c s = notify_workers woken (note_queued q u (upd_wq q (\<lambda>w. w\<lparr>wq_items := c\<rparr>) s))"

lemma put_item_fields [simp]:
  "tp_pc (put_item woken q u c s) = tp_pc s"
  "tp_cond (put_item woken q u c s) = filter (\<lambda>t. t \<notin> set woken) (tp_cond s)"
  "tp_wait_cond (put_item woken q u c s) = tp_wait_cond s"
  "tp_pause (put_item woken q u c s) = tp_pause s"
  "tp_draining (put_item woken q u c s) = tp_draining s"
  "tp_stop (put_item woken q u c s) = tp_stop s"
  "tp_threads (put_item woken q u c s) = tp_threads s"
  "tp_old_threads (put_item woken q u c s) = tp_old_threads s"
  "tp_queued (put_item woken q u c s) = (tp_queued s)(q := add_mset u (tp_queued s q))"
  "tp_finished (put_item woken q u c s) = tp_finished s"
  "tp_cleared (put_item woken q u c s) = tp_cleared s"
  "processing (put_item woken q u c s) = processing s"
  "wqs (put_item woken q u c s) = (wqs s)(q := (wqs s q)\<lparr>wq_items := c\<rparr>)"
  by (simp_all add: put_item_def notify_workers_def note_queued_def)

context work_queue
begin

lemma inv_put_item:
  assumes "tp_inv ops contents s" "tp_cond s = [] \<or> set woken \<inter> set (tp_cond s) \<noteq> {}"
    "contents c = add_mset u (contents (wq_items (wqs s q)))"
  shows "tp_inv ops contents (put_item woken q u c s)" (is "tp_inv ops contents ?s")
proof -
  have parts: "counts_inv s" "items_inv contents s" "sets_inv s" "live_inv ops s" "wait_inv ops s"
    using assms(1) by (simp_all add: tp_inv_def)
  have "counts_inv ?s" by (rule counts_same [OF parts(1)]) simp_all
  moreover have "items_inv contents ?s" using parts(2) assms(3) by (simp add: items_inv_def)
  moreover have "sets_inv ?s" using parts(3) by (auto simp: sets_inv_def)
  moreover have "live_inv ops ?s"
  proof (cases "tp_cond s = []")
    case True
    then show ?thesis by (auto simp: live_inv_def awake_worker_def)
  next
    case False
    then obtain t where t: "t \<in> set woken" "t \<in> set (tp_cond s)" using assms(2) by blast
    then have "alive (tp_pc s t)" using parts(3) by (auto simp: sets_inv_def)
    then show ?thesis by (intro live_awake [of _ t]) (use t in simp_all)
  qed
  moreover have "\<not> op_empty ops c" using assms(3) empty_iff by simp
  then have "wait_inv ops ?s"
    by (intro wait_move [OF parts(5)]) (auto simp: pool_empty_def split: if_splits)
  ultimately show ?thesis by (simp add: tp_inv_def)
qed

lemma inv_queue:
  assumes "tp_inv ops contents s" "tp_cond s = [] \<or> set woken \<inter> set (tp_cond s) \<noteq> {}"
  shows "tp_inv ops contents (wq_queue ops woken q u s)"
    "tp_inv ops contents (wq_queue_front ops woken q u s)"
proof -
  have eq: "wq_queue ops woken q u s = put_item woken q u (op_enqueue ops u (wq_items (wqs s q))) s"
    "wq_queue_front ops woken q u s = put_item woken q u (op_enqueue_front ops u (wq_items (wqs s q))) s"
    by (simp_all add: wq_queue_def wq_queue_front_def put_item_def upd_wq_def)
  show "tp_inv ops contents (wq_queue ops woken q u s)" "tp_inv ops contents (wq_queue_front ops woken q u s)"
    unfolding eq by (intro inv_put_item [OF assms]; simp add: enqueue enqueue_front)+
qed

end

text \<open>Starting and stopping.\<close>

lemma inv_new_worker:
  assumes "tp_inv ops contents s" "tp_pc s w = Outside"
  shows "tp_inv ops contents (goto_point w W_new (s\<lparr>tp_threads := tp_threads s @ [w]\<rparr>))"
    (is "tp_inv ops contents ?s")
proof -
  note out = tp_inv_notin [OF assms(1), of w]
  have parts: "counts_inv s" "items_inv contents s" "sets_inv s" "wait_inv ops s"
    using assms(1) by (simp_all add: tp_inv_def)
  have "counts_inv ?s" by (rule counts_move [OF parts(1), of _ w W_new]) (simp_all add: assms(2))
  moreover have "items_inv contents ?s"
    by (rule items_move [OF parts(2) tp_inv_fin [OF assms(1)], of _ w W_new]) (simp_all add: assms(2))
  moreover have "sets_inv ?s" using parts(3) out assms(2) by (auto simp: sets_inv_def)
  moreover have "live_inv ops ?s" by (rule live_awake [of _ w]) (use out assms(2) in simp_all)
  moreover have "wait_inv ops ?s"
    by (rule wait_move [OF parts(4)]) (use out assms(2) in \<open>auto simp: pool_empty_def\<close>)
  ultimately show ?thesis by (simp add: tp_inv_def)
qed

lemma inv_start_threads_tp:
  assumes "tp_inv ops contents s" "distinct ws" "\<forall>w \<in> set ws. tp_pc s w = Outside"
    "start_threads ws s = Ret () s'"
  shows "tp_inv ops contents s'"
  using assms
proof (induction ws arbitrary: s)
  case (Cons w ws)
  let ?s = "goto_point w W_new (s\<lparr>tp_threads := tp_threads s @ [w]\<rparr>)"
  have "tp_inv ops contents ?s" using Cons.prems(1,3) by (intro inv_new_worker) simp_all
  moreover have "\<forall>v \<in> set ws. tp_pc ?s v = Outside" using Cons.prems(2,3) by auto
  ultimately show ?case
    using Cons.IH [of ?s] Cons.prems by (auto simp: outcome_inv split: if_splits)
qed (simp split: if_splits)

lemma inv_start:
  "tp_inv ops contents s \<Longrightarrow> distinct ws \<Longrightarrow> \<forall>w \<in> set ws. tp_pc s w = Outside \<Longrightarrow> tp_start ws s = Ret () s' \<Longrightarrow>
   tp_inv ops contents s'"
  unfolding tp_start_def by (rule inv_start_threads_tp)

lemma inv_stop_begin:
  assumes "tp_inv ops contents s" "tp_pc s t = Outside" "tp_stop_begin t s = Ret () s'"
  shows "tp_inv ops contents s'"
proof -
  have parts: "counts_inv s" "items_inv contents s" "sets_inv s" "wait_inv ops s"
    using assms(1) by (simp_all add: tp_inv_def)
  note out = tp_inv_notin [OF assms(1), of t]
  have s': "s' = goto_point t C_stopping (s\<lparr>tp_stop := True, tp_cond := [], tp_old_threads := []\<rparr>)"
    using assms(3) by (auto simp: tp_stop_begin_def join_old_threads_def split: if_splits)
  have "counts_inv s'" by (rule counts_move [OF parts(1), of _ t C_stopping]) (simp_all add: assms(2) s')
  moreover have "items_inv contents s'"
    by (rule items_move [OF parts(2) tp_inv_fin [OF assms(1)], of _ t C_stopping]) (simp_all add: assms(2) s')
  moreover have "sets_inv s'" using parts(3) out assms(2) by (auto simp: sets_inv_def s')
  moreover have "live_inv ops s'" by (rule live_idle) (simp add: work_pending_def s')
  moreover have "wait_inv ops s'"
    by (rule wait_move [OF parts(4)]) (use out assms(2) in \<open>auto simp: pool_empty_def s'\<close>)
  ultimately show ?thesis by (simp add: tp_inv_def)
qed

lemma clear_queues_fields:
  "tp_pc (clear_queues ops s) = tp_pc s" "tp_cond (clear_queues ops s) = tp_cond s"
  "tp_wait_cond (clear_queues ops s) = tp_wait_cond s" "tp_pause (clear_queues ops s) = tp_pause s"
  "tp_draining (clear_queues ops s) = tp_draining s" "processing (clear_queues ops s) = processing s"
  "tp_threads (clear_queues ops s) = tp_threads s" "tp_old_threads (clear_queues ops s) = tp_old_threads s"
  "to_process (wqs (clear_queues ops s) q) = to_process (wqs s q)"
  "to_finish (wqs (clear_queues ops s) q) = to_finish (wqs s q)"
proof -
  let ?f = "fold (\<lambda>q. upd_wq q (\<lambda>w. w\<lparr>wq_items := op_clear ops (wq_items w)\<rparr>))"
  have "tp_pc (?f qs s) = tp_pc s \<and> tp_cond (?f qs s) = tp_cond s \<and>
    tp_wait_cond (?f qs s) = tp_wait_cond s \<and> tp_pause (?f qs s) = tp_pause s \<and>
    tp_draining (?f qs s) = tp_draining s \<and> processing (?f qs s) = processing s \<and>
    tp_threads (?f qs s) = tp_threads s \<and> tp_old_threads (?f qs s) = tp_old_threads s \<and>
    to_process (wqs (?f qs s) q) = to_process (wqs s q) \<and>
    to_finish (wqs (?f qs s) q) = to_finish (wqs s q)" for qs
    by (induction qs arbitrary: s) simp_all
  then show "tp_pc (clear_queues ops s) = tp_pc s" "tp_cond (clear_queues ops s) = tp_cond s"
    "tp_wait_cond (clear_queues ops s) = tp_wait_cond s" "tp_pause (clear_queues ops s) = tp_pause s"
    "tp_draining (clear_queues ops s) = tp_draining s" "processing (clear_queues ops s) = processing s"
    "tp_threads (clear_queues ops s) = tp_threads s" "tp_old_threads (clear_queues ops s) = tp_old_threads s"
    "to_process (wqs (clear_queues ops s) q) = to_process (wqs s q)"
    "to_finish (wqs (clear_queues ops s) q) = to_finish (wqs s q)"
    by (simp_all add: clear_queues_def)
qed

text \<open>With the default \<^verbatim>\<open>_clear\<close> a stopped pool keeps what was queued, for the next \<^verbatim>\<open>start()\<close>.\<close>

lemma clear_queues_default:
  assumes "op_clear ops = WorkQueueVal_clear"
  shows "clear_queues ops s = s"
proof -
  have "upd_wq q (\<lambda>w. w\<lparr>wq_items := op_clear ops (wq_items w)\<rparr>) s = s" for q and s :: "('a, 'b) ThreadPool"
    by (simp add: assms WorkQueueVal_clear_def upd_wq_def)
  then have "fold (\<lambda>q. upd_wq q (\<lambda>w. w\<lparr>wq_items := op_clear ops (wq_items w)\<rparr>)) qs s = s" for qs
    by (induction qs) simp_all
  then show ?thesis by (simp add: clear_queues_def)
qed

lemma inv_stop_finish:
  assumes "tp_inv ops contents s" "tp_pc s t = C_stopping" "tp_stop_finish ops t s = Ret () s'"
  shows "tp_inv ops contents s'"
proof -
  have parts: "counts_inv s" "items_inv contents s" "sets_inv s" "wait_inv ops s"
    using assms(1) by (simp_all add: tp_inv_def)
  note out = tp_inv_notin [OF assms(1), of t] and fin = tp_inv_fin [OF assms(1)]
  let ?c = "clear_queues ops (s\<lparr>tp_threads := []\<rparr>)"
  have s': "s' = goto_point t Outside (?c\<lparr>tp_stop := False, tp_cleared := True\<rparr>)"
    and exited: "\<forall>w \<in> set (tp_threads s). tp_pc s w = W_exit"
    using assms(3) by (auto simp: tp_stop_finish_def Let_def split: if_splits)
  have dead: "\<not> alive (tp_pc s u)" for u
  proof
    assume "alive (tp_pc s u)"
    moreover from this have "u \<in> set (tp_threads s)" using parts(3) unfolding sets_inv_def by blast
    then have "tp_pc s u = W_exit" using exited by blast
    ultimately show False by simp
  qed
  have "tot f ((tp_pc s)(t := Outside)) = tot f (tp_pc s)"
    if "f Outside = 0" "f C_stopping = 0" for f :: "'b tpoint \<Rightarrow> nat"
    using that assms(2) by (intro tot_move_same [OF fin]) simp_all
  then have "counts_inv s'" using parts(1) fin by (simp add: counts_inv_def s' clear_queues_fields)
  moreover have "items_inv contents s'" by (simp add: items_inv_def s')
  moreover have "sets_inv s'"
    using parts(3) out assms(2) dead by (auto simp: sets_inv_def s' clear_queues_fields)
  moreover have "live_inv ops s'" using dead by (auto simp: live_inv_def s' clear_queues_fields)
  moreover have "wait_inv ops s'"
    using parts(4) out assms(2) by (auto simp: wait_inv_def s' clear_queues_fields)
  ultimately show ?thesis by (simp add: tp_inv_def)
qed

text \<open>The list of queues.\<close>

lemma inv_work_queues:
  assumes "tp_inv ops contents s"
    "\<And>q. q \<in> set qs \<Longrightarrow> q \<in> set (work_queues s) \<or> pool_empty ops s q"
  shows "tp_inv ops contents (s\<lparr>work_queues := qs\<rparr>)" (is "tp_inv ops contents ?s")
proof -
  have parts: "counts_inv s" "items_inv contents s" "sets_inv s" "live_inv ops s" "wait_inv ops s"
    using assms(1) by (simp_all add: tp_inv_def)
  have "counts_inv ?s" by (rule counts_same [OF parts(1)]) simp_all
  moreover have "items_inv contents ?s" by (rule items_same [OF parts(2)]) simp_all
  moreover have "sets_inv ?s" using parts(3) by (auto simp: sets_inv_def)
  moreover have "live_inv ops ?s"
    by (rule live_move [OF parts(4)]) (use assms(2) in \<open>auto simp: work_pending_def\<close>)
  moreover have "wait_inv ops ?s" by (rule wait_move [OF parts(5)]) simp_all
  ultimately show ?thesis by (simp add: tp_inv_def)
qed

text \<open>A worker that uses its handle, and a queue that is constructed where none is in use.\<close>

lemma inv_same:
  assumes "tp_inv ops contents s" "tp_pc s' = tp_pc s" "tp_queued s' = tp_queued s"
    "tp_finished s' = tp_finished s" "tp_cleared s' = tp_cleared s" "processing s' = processing s"
    "tp_pause s' = tp_pause s" "tp_draining s' = tp_draining s" "tp_stop s' = tp_stop s"
    "tp_old_threads s' = tp_old_threads s" "tp_threads s' = tp_threads s" "tp_cond s' = tp_cond s"
    "tp_wait_cond s' = tp_wait_cond s" "work_queues s' = work_queues s"
    "\<And>q. wq_items (wqs s' q) = wq_items (wqs s q)"
    "\<And>q. to_process (wqs s' q) = to_process (wqs s q)" "\<And>q. to_finish (wqs s' q) = to_finish (wqs s q)"
  shows "tp_inv ops contents s'"
proof -
  have parts: "counts_inv s" "items_inv contents s" "sets_inv s" "live_inv ops s" "wait_inv ops s"
    using assms(1) by (simp_all add: tp_inv_def)
  have pe: "pool_empty ops s' q = pool_empty ops s q" for q using assms(15) by (simp add: pool_empty_def)
  have "counts_inv s'" by (rule counts_same [OF parts(1)]) (simp_all only: assms(2-17))
  moreover have "items_inv contents s'" using parts(2) unfolding items_inv_def assms(2-17) .
  moreover have "sets_inv s'" using parts(3) unfolding sets_inv_def assms(2-17) .
  moreover have "live_inv ops s'"
    by (rule live_move [OF parts(4)]) (simp_all add: work_pending_def assms(2-14) pe)
  moreover have "wait_inv ops s'" by (rule wait_move [OF parts(5)]) (simp_all add: assms(2-14) pe)
  ultimately show ?thesis by (simp add: tp_inv_def)
qed

lemma unused_queue:
  assumes "counts_inv s" "\<forall>t. \<not> works_on q (tp_pc s t)"
  shows "to_process (wqs s q) = []" "to_finish (wqs s q) = []"
proof -
  have "at_got q (tp_pc s t) = 0" "at_fin q (tp_pc s t) = 0" for t
    using assms(2) [rule_format, of t] by (cases "tp_pc s t"; simp)+
  then have "tot (at_got q) (tp_pc s) = 0" "tot (at_fin q) (tp_pc s) = 0" by (simp_all add: tot_def)
  then show "to_process (wqs s q) = []" "to_finish (wqs s q) = []"
    using assms(1) by (simp_all add: counts_inv_def flip: length_0_conv)
qed

lemma inv_new_queue:
  assumes "tp_inv ops contents s" "op_empty ops (wq_items (wqs s q))" "\<forall>t. \<not> works_on q (tp_pc s t)"
  shows "tp_inv ops contents (WorkQueueVal_ctor q n g sg s)"
proof -
  have "counts_inv s" using assms(1) by (simp add: tp_inv_def)
  then have "tp_inv ops contents
      (upd_wq q (\<lambda>w. (WorkQueue_ctor n g sg w)\<lparr>to_process := [], to_finish := []\<rparr>) s)"
    unfolding upd_wq_def using unused_queue [OF _ assms(3)]
    by (intro inv_same [OF assms(1)]) (simp_all add: WorkQueue_ctor_def)
  then show ?thesis unfolding WorkQueueVal_ctor_def add_work_queue_def
    using assms(2) by (intro inv_work_queues) (auto simp: pool_empty_def WorkQueue_ctor_def)
qed

text \<open>Pausing: the announcement, then the turns of the loop.\<close>

lemma inv_pause_announce:
  assumes "tp_inv ops contents s" "tp_pc s t = Outside"
  shows "tp_inv ops contents (goto_point t C_pausing (s\<lparr>tp_pause := tp_pause s + 1\<rparr>))"
    (is "tp_inv ops contents ?s")
proof -
  have parts: "counts_inv s" "items_inv contents s" "sets_inv s" "wait_inv ops s"
    using assms(1) by (simp_all add: tp_inv_def)
  note out = tp_inv_notin [OF assms(1), of t] and fin = tp_inv_fin [OF assms(1)]
  have up: "tot f ((tp_pc s)(t := C_pausing)) = tot f (tp_pc s) + f C_pausing"
    if "f Outside = 0" for f :: "'b tpoint \<Rightarrow> nat"
    using that assms(2) by (intro tot_move_up [OF fin]) simp_all
  have "counts_inv ?s" using parts(1) fin by (simp add: counts_inv_def up)
  moreover have "items_inv contents ?s"
    by (rule items_move [OF parts(2) fin, of _ t C_pausing]) (simp_all add: assms(2))
  moreover have "sets_inv ?s" using parts(3) out assms(2) by (auto simp: sets_inv_def)
  moreover have "live_inv ops ?s"
    by (rule live_idle) (use parts(1) in \<open>simp add: work_pending_def counts_inv_def\<close>)
  moreover have "wait_inv ops ?s" by (rule wait_move [OF parts(4)]) (use out assms(2) in auto)
  ultimately show ?thesis by (simp add: tp_inv_def)
qed

lemma inv_pause_turn:
  assumes "tp_inv ops contents s" "tp_pc s t = C_pausing" "t \<notin> set (tp_wait_cond s)"
  shows "tp_inv ops contents (pause_turn t s)"
proof -
  have parts: "counts_inv s" "items_inv contents s" "sets_inv s" "live_inv ops s" "wait_inv ops s"
    using assms(1) by (simp_all add: tp_inv_def)
  note out = tp_inv_notin(1) [OF assms(1), of t] and fin = tp_inv_fin [OF assms(1)]
  show ?thesis
  proof (cases "processing s = 0")
    case True
    let ?s = "goto_point t C_paused s"
    have "counts_inv ?s" by (rule counts_move [OF parts(1), of _ t C_paused]) (simp_all add: assms(2))
    moreover have "items_inv contents ?s"
      by (rule items_move [OF parts(2) fin, of _ t C_paused]) (simp_all add: assms(2))
    moreover have "sets_inv ?s" using parts(3) out assms(2,3) True by (auto simp: sets_inv_def)
    moreover have "live_inv ops ?s"
      by (rule live_move [OF parts(4)]) (use assms(2) in \<open>auto simp: work_pending_def\<close>)
    moreover have "wait_inv ops ?s" by (rule wait_move [OF parts(5)]) (use assms(3) in auto)
    ultimately show ?thesis using True by (simp add: tp_inv_def pause_turn_def)
  next
    case False
    let ?s = "goto_point t C_pausing (s\<lparr>tp_wait_cond := tp_wait_cond s @ [t]\<rparr>)"
    have "counts_inv ?s" by (rule counts_move [OF parts(1), of _ t C_pausing]) (simp_all add: assms(2))
    moreover have "items_inv contents ?s"
      by (rule items_move [OF parts(2) fin, of _ t C_pausing]) (simp_all add: assms(2))
    moreover have "sets_inv ?s" using parts(3) out assms(2) by (auto simp: sets_inv_def)
    moreover have "live_inv ops ?s"
      by (rule live_move [OF parts(4)]) (use assms(2) in \<open>auto simp: work_pending_def\<close>)
    moreover have "wait_inv ops ?s" by (rule wait_busy) (simp add: False)
    ultimately show ?thesis using False by (simp add: tp_inv_def pause_turn_def)
  qed
qed

lemma inv_unpause:
  assumes "tp_inv ops contents s" "tp_pc s t = C_paused"
  shows "tp_inv ops contents (goto_point t Outside (tp_unpause s))" (is "tp_inv ops contents ?s")
proof -
  have parts: "counts_inv s" "items_inv contents s" "sets_inv s" "wait_inv ops s"
    using assms(1) by (simp_all add: tp_inv_def)
  note out = tp_inv_notin [OF assms(1), of t] and fin = tp_inv_fin [OF assms(1)]
  have down: "tot f (tp_pc s) = tot f ((tp_pc s)(t := Outside)) + f C_paused"
    if "f Outside = 0" for f :: "'b tpoint \<Rightarrow> nat"
    using tot_move_down [OF fin, of f Outside t] that assms(2) by simp
  have "counts_inv ?s" using parts(1) fin by (simp add: counts_inv_def down tp_unpause_def)
  moreover have "items_inv contents ?s"
    by (rule items_move [OF parts(2) fin, of _ t Outside]) (simp_all add: assms(2) tp_unpause_def)
  moreover have "sets_inv ?s" using parts(3) out assms(2) by (auto simp: sets_inv_def tp_unpause_def)
  moreover have "live_inv ops ?s" by (auto simp: live_inv_def awake_worker_def tp_unpause_def)
  moreover have "wait_inv ops ?s"
    by (rule wait_move [OF parts(4)]) (use out assms(2) in \<open>auto simp: tp_unpause_def\<close>)
  ultimately show ?thesis by (simp add: tp_inv_def)
qed

text \<open>Draining.\<close>

lemma inv_drain_announce:
  assumes "tp_inv ops contents s" "tp_pc s t = Outside"
  shows "tp_inv ops contents (goto_point t (C_draining wq) (s\<lparr>tp_draining := tp_draining s + 1\<rparr>))"
    (is "tp_inv ops contents ?s")
proof -
  have parts: "counts_inv s" "items_inv contents s" "sets_inv s" "live_inv ops s" "wait_inv ops s"
    using assms(1) by (simp_all add: tp_inv_def)
  note out = tp_inv_notin [OF assms(1), of t] and fin = tp_inv_fin [OF assms(1)]
  have up: "tot f ((tp_pc s)(t := C_draining wq)) = tot f (tp_pc s) + f (C_draining wq)"
    if "f Outside = 0" for f :: "'b tpoint \<Rightarrow> nat"
    using that assms(2) by (intro tot_move_up [OF fin]) simp_all
  have "counts_inv ?s" using parts(1) fin by (simp add: counts_inv_def up)
  moreover have "items_inv contents ?s"
    by (rule items_move [OF parts(2) fin, of _ t "C_draining wq"]) (simp_all add: assms(2))
  moreover have "sets_inv ?s" using parts(3) out assms(2) by (auto simp: sets_inv_def)
  moreover have "live_inv ops ?s"
    by (rule live_move [OF parts(4)]) (use assms(2) in \<open>auto simp: work_pending_def\<close>)
  moreover have "wait_inv ops ?s" by (rule wait_move [OF parts(5)]) (use out assms(2) in auto)
  ultimately show ?thesis by (simp add: tp_inv_def)
qed

lemma inv_drain_turn:
  assumes "tp_inv ops contents s" "tp_pc s t = C_draining wq" "t \<notin> set (tp_wait_cond s)"
  shows "tp_inv ops contents (drain_turn ops t wq s)"
proof -
  have parts: "counts_inv s" "items_inv contents s" "sets_inv s" "live_inv ops s" "wait_inv ops s"
    using assms(1) by (simp_all add: tp_inv_def)
  note out = tp_inv_notin(1) [OF assms(1), of t] and fin = tp_inv_fin [OF assms(1)]
  show ?thesis
  proof (cases "drain_waits ops wq s")
    case True
    let ?s = "goto_point t (C_draining wq) (s\<lparr>tp_wait_cond := tp_wait_cond s @ [t]\<rparr>)"
    have "counts_inv ?s" by (rule counts_move [OF parts(1), of _ t "C_draining wq"]) (simp_all add: assms(2))
    moreover have "items_inv contents ?s"
      by (rule items_move [OF parts(2) fin, of _ t "C_draining wq"]) (simp_all add: assms(2))
    moreover have "sets_inv ?s" using parts(3) out assms(2) by (auto simp: sets_inv_def)
    moreover have "live_inv ops ?s"
      by (rule live_move [OF parts(4)]) (use assms(2) in \<open>auto simp: work_pending_def\<close>)
    moreover have "drain_waits ops wq' ?s = drain_waits ops wq' s" for wq'
      by (simp add: drain_waits_def split: option.splits)
    then have "wait_inv ops ?s" using parts(5) True assms(2,3) by (auto simp: wait_inv_def)
    ultimately show ?thesis using True by (simp add: tp_inv_def drain_turn_def)
  next
    case False
    let ?s = "goto_point t Outside (s\<lparr>tp_draining := tp_draining s - 1\<rparr>)"
    have down: "tot f (tp_pc s) = tot f ((tp_pc s)(t := Outside)) + f (C_draining wq)"
      if "f Outside = 0" for f :: "'b tpoint \<Rightarrow> nat"
      using tot_move_down [OF fin, of f Outside t] that assms(2) by simp
    have "counts_inv ?s" using parts(1) fin by (simp add: counts_inv_def down)
    moreover have "items_inv contents ?s"
      by (rule items_move [OF parts(2) fin, of _ t Outside]) (simp_all add: assms(2))
    moreover have "sets_inv ?s" using parts(3) out assms(2,3) by (auto simp: sets_inv_def)
    moreover have "live_inv ops ?s"
      by (rule live_move [OF parts(4)]) (use assms(2) in \<open>auto simp: work_pending_def\<close>)
    moreover have "wait_inv ops ?s" by (rule wait_move [OF parts(5)]) (use assms(3) in auto)
    ultimately show ?thesis using False by (simp add: tp_inv_def drain_turn_def)
  qed
qed

lemma goto_twice:
  "goto_point t p (goto_point t p' s) = goto_point t p s"
  "goto_point t p ((goto_point t p' s)\<lparr>tp_wait_cond := c\<rparr>) = goto_point t p (s\<lparr>tp_wait_cond := c\<rparr>)"
  "goto_point t p ((goto_point t p' s)\<lparr>tp_draining := n\<rparr>) = goto_point t p (s\<lparr>tp_draining := n\<rparr>)"
  by (rule ThreadPool.equality; simp add: goto_point_def)+

lemma drain_waits_goto [simp]: "drain_waits ops wq (goto_point t p s) = drain_waits ops wq s"
  by (simp add: drain_waits_def split: option.splits)

lemma turn_goto:
  "pause_turn t (goto_point t p s) = pause_turn t s"
  "drain_turn ops t wq (goto_point t p s) = drain_turn ops t wq s"
  by (simp_all add: pause_turn_def drain_turn_def goto_twice)

section \<open>Every step keeps the invariant\<close>

lemma worker_enter_Ret:
  assumes "worker_enter ops e t s = Ret () s'"
  shows "\<exists>h x. worker_loop ops e t (s\<lparr>hbmap := h, hb_of := x\<rparr>) = Ret () s'"
  using assms by (auto simp: worker_enter_def bind_eq_Ret_iff with_hb_Ret)

lemma worker_process_Ret:
  assumes "worker_process e t q s = Ret () s'"
  shows "\<exists>h u us. to_process (wqs s q) = u # us \<and> s' = goto_point t (W_proc q u)
    (upd_wq q (\<lambda>w. w\<lparr>to_process := us\<rparr>) (s\<lparr>hbmap := h\<rparr>))"
proof -
  obtain h where h: "to_process (wqs s q) \<noteq> []" "s' = goto_point t (W_proc q (hd (to_process (wqs s q))))
      (upd_wq q (\<lambda>w. w\<lparr>to_process := tl (to_process w)\<rparr>) (s\<lparr>hbmap := h\<rparr>))"
    using assms by (auto simp: worker_process_def reset_tp_timeout_def tp_handle_def TPHandle_ctor_def
        void_process_take_def with_hb_Ret outcome_inv)
  then obtain u us where "to_process (wqs s q) = u # us" by (cases "to_process (wqs s q)") auto
  then show ?thesis using h by (auto simp: upd_wq_def)
qed

context work_queue
begin

lemma tpstep_inv:
  assumes "tpstep ops s s'" "tp_inv ops contents s"
  shows "tp_inv ops contents s'"
  using assms
proof (induction rule: tpstep.induct)
  case (enter s t e s')
  obtain h x where "worker_loop ops e t (s\<lparr>hbmap := h, hb_of := x\<rparr>) = Ret () s'"
    using worker_enter_Ret enter(2) by blast
  moreover have "tp_old_threads s = []" using enter(3) by (simp add: tp_inv_def sets_inv_def)
  ultimately have "loop_effect ops t (goto_point t W_sleep (s\<lparr>hbmap := h, hb_of := x\<rparr>)) s'"
    unfolding loop_effect_goto by (intro worker_loop_effect) simp_all
  then show ?case
    using tp_inv_notin(1) [OF enter(3), of t] enter(1)
    by (intro inv_loop [OF inv_entered [OF enter(3,1), of x h], of t]) simp_all
next
  case (awake s t e s')
  then have "tp_old_threads s = []" by (simp add: tp_inv_def sets_inv_def)
  then show ?case using inv_loop [OF awake(4,1,2) worker_loop_effect [OF awake(3)]] by blast
next
  case (take s t q e s')
  then show ?case using worker_process_Ret [OF take(2)] inv_process_take [OF take(3,1)] by blast
next
  case (finish s t q e s')
  have "tp_old_threads (finish_item q s) = []" using finish(3) by (simp add: tp_inv_def sets_inv_def)
  then have "loop_effect ops t (goto_point t W_sleep (finish_item q s)) s'"
    unfolding loop_effect_goto using worker_finish_Ret [OF finish(2)] by (blast intro: worker_loop_effect)
  then show ?case
    using tp_inv_notin(1) [OF finish(3), of t] finish(1)
    by (intro inv_loop [OF inv_finish [OF finish(3,1)], of t]) simp_all
next
  case (add_queue s q)
  then show ?case unfolding add_work_queue_def by (intro inv_work_queues) (auto simp: pool_empty_def)
next
  case (remove_queue s q)
  then show ?case
    unfolding remove_work_queue_def using set_remove1_subset [of q "work_queues s"]
    by (intro inv_work_queues) auto
next
  case (delete_queue s q)
  then show ?case
    unfolding WorkQueueVal_dtor_def remove_work_queue_def using set_remove1_subset [of q "work_queues s"]
    by (intro inv_work_queues) auto
next
  case (beat s t q u now s')
  then show ?case by (auto simp: reset_tp_timeout_def with_hb_Ret intro: inv_same)
next
  case (suspend s t q u now s')
  then show ?case by (auto simp: suspent_tp_timeout_def with_hb_Ret intro: inv_same)
next
  case (wake s)
  then show ?case unfolding tp_wake_def by (intro inv_wake_up) simp_all
next
  case (pause s t)
  have "tp_inv ops contents (pause_turn t (goto_point t C_pausing (s\<lparr>tp_pause := tp_pause s + 1\<rparr>)))"
    using tp_inv_notin(2) [OF pause(2), of t] pause(1)
    by (intro inv_pause_turn inv_pause_announce [OF pause(2,1)]) simp_all
  then show ?case unfolding tp_pause_call_def turn_goto .
next
  case (drain s t wq)
  have "tp_inv ops contents (drain_turn ops t wq
      (goto_point t (C_draining wq) (s\<lparr>tp_draining := tp_draining s + 1\<rparr>)))"
    using tp_inv_notin(2) [OF drain(2), of t] drain(1)
    by (intro inv_drain_turn inv_drain_announce [OF drain(2,1)]) simp_all
  then show ?case unfolding tp_drain_call_def turn_goto .
qed (blast intro: inv_put inv_wake_up inv_wait_wake_up inv_queue inv_start inv_stop_begin
    inv_stop_finish inv_pause_turn inv_unpause inv_drain_turn inv_new_queue)+

end

end
