(* ===== verification/Threadpool_Props.thy ===== *)
theory Threadpool_Props
  imports Threadpool_System
begin

text \<open>
  The properties of the thread pool with the list queue of \<^verbatim>\<open>qa/test_threadpool.cc\<close> as the
  subclass of \<^verbatim>\<open>WorkQueueVal\<close>, for every state reachable from a new pool.
\<close>

section \<open>The list queue\<close>

definition test_ops :: "('u list, 'u) wq_ops" where
  "test_ops = \<lparr>op_enqueue = (\<lambda>u q. q @ [u]), op_enqueue_front = (\<lambda>u q. u # q),
     op_empty = (\<lambda>q. q = []), op_dequeue = (\<lambda>q. case q of [] \<Rightarrow> None | u # us \<Rightarrow> Some (u, us)),
     op_clear = (\<lambda>q. [])\<rparr>"

interpretation tq: work_queue test_ops mset
  by unfold_locales (auto simp: test_ops_def split: list.splits)

definition fresh_queues :: "(nat \<Rightarrow> ('u list, 'u) WorkQueueVal) \<Rightarrow> bool" where
  "fresh_queues qs \<longleftrightarrow> (\<forall>q. wq_items (qs q) = [] \<and> to_process (qs q) = [] \<and> to_finish (qs q) = [])"

inductive tp_reach :: "('u list, 'u) ThreadPool \<Rightarrow> bool" where
  start: "fresh_queues qs \<Longrightarrow> tp_reach (ThreadPool_ctor hb nm tn n grace suicide_grace qs)"
| step: "tp_reach s \<Longrightarrow> tpstep test_ops s s' \<Longrightarrow> tp_reach s'"

lemma ctor_inv:
  assumes "fresh_queues qs"
  shows "tp_inv test_ops mset (ThreadPool_ctor hb nm tn n grace suicide_grace qs)"
proof -
  let ?s = "ThreadPool_ctor hb nm tn n grace suicide_grace qs"
  have "counts_inv ?s" "items_inv mset ?s"
    using assms by (simp_all add: counts_inv_def items_inv_def fresh_queues_def fin_pc_def
        ThreadPool_ctor_def)
  moreover have "sets_inv ?s" "live_inv test_ops ?s" "wait_inv test_ops ?s"
    by (simp_all add: sets_inv_def live_inv_def wait_inv_def ThreadPool_ctor_def)
  ultimately show ?thesis by (simp add: tp_inv_def)
qed

lemma tp_reach_inv: "tp_reach s \<Longrightarrow> tp_inv test_ops mset s"
  by (induction rule: tp_reach.induct) (auto intro: ctor_inv tq.tpstep_inv)

lemma reach_parts:
  assumes "tp_reach s"
  shows "counts_inv s" "items_inv mset s" "sets_inv s" "live_inv test_ops s" "wait_inv test_ops s"
  using tp_reach_inv [OF assms] by (simp_all add: tp_inv_def)

section \<open>A run for the witnesses\<close>

definition tp0 :: "(nat list, nat) ThreadPool" where
  "tp0 = ThreadPool_ctor hb_demo ''pool'' ''tp'' 1 0 0
     (\<lambda>_. \<lparr>wq_name = [], wq_items = [], to_process = [], to_finish = [], wq_grace = 0, wq_suicide_grace = 0\<rparr>)"

text \<open>One queue with one item, and a caller that drains it; no worker has been started.\<close>

definition tp1 :: "(nat list, nat) ThreadPool" where
  "tp1 = wq_queue test_ops [] 0 42 (add_work_queue 0 tp0)"

lemma tp0_reach: "tp_reach tp0"
  unfolding tp0_def by (rule tp_reach.start) (simp add: fresh_queues_def)

lemma tp1_reach: "tp_reach tp1"
proof -
  have "tpstep test_ops tp0 (add_work_queue 0 tp0)"
    by (rule tpstep.add_queue) (simp add: tp0_def ThreadPool_ctor_def test_ops_def)
  then have "tp_reach (add_work_queue 0 tp0)" using tp0_reach tp_reach.step by blast
  moreover have "tpstep test_ops (add_work_queue 0 tp0) tp1"
    unfolding tp1_def by (rule tpstep.queue) (simp add: tp0_def ThreadPool_ctor_def add_work_queue_def)
  ultimately show ?thesis using tp_reach.step by blast
qed

section \<open>Items and counters\<close>

text \<open>
  C2: no item is lost, duplicated or invented. As long as \<^verbatim>\<open>stop()\<close> has not cleared the queues,
  the items ever queued on a queue are exactly those still in it, those dequeued and waiting
  to be processed, those being processed, those waiting to be finished and those finished.
\<close>
theorem pool_items_conserved:
  assumes "tp_reach s" "\<not> tp_cleared s"
  shows "tp_queued s q = mset (wq_items (wqs s q)) + mset (to_process (wqs s q)) +
    tot (in_hand q) (tp_pc s) + mset (to_finish (wqs s q)) + tp_finished s q"
  using reach_parts(2) [OF assms(1)] assms(2) by (simp add: items_inv_def)

theorem pool_items_conserved_witness: "tp_queued tp1 0 = {#42#}"
proof -
  have tp1: "\<not> tp_cleared tp1" "wq_items (wqs tp1 0) = [42]" "to_process (wqs tp1 0) = []"
    "to_finish (wqs tp1 0) = []" "tp_finished tp1 0 = {#}" "tot (in_hand 0) (tp_pc tp1) = {#}"
    by (simp_all add: tp1_def wq_queue_def notify_workers_def note_queued_def upd_wq_def add_work_queue_def
        tp0_def ThreadPool_ctor_def test_ops_def tot_def)
  then show ?thesis using pool_items_conserved [OF tp1_reach, of 0] by simp
qed

lemma tot_busy_card:
  assumes "fin_pc pc"
  shows "tot busy pc = card {t. busy (pc t) = 1}"
proof -
  have "tot busy pc = (\<Sum>t | busy (pc t) = 1. busy (pc t))"
    unfolding tot_def using assms busy_le_1
    by (intro sum.mono_neutral_right) (auto simp: fin_pc_def)
  then show ?thesis by simp
qed

lemma scan_returns: "\<exists>r s'. scan_queues test_ops n s = Ret r s'"
proof (induction n arbitrary: s)
  case (Suc n)
  obtain b s1 where "void_dequeue test_ops (work_queues s ! (next_work_queue s mod length (work_queues s)))
      (s\<lparr>next_work_queue := next_work_queue s mod length (work_queues s) + 1\<rparr>) = Ret b s1"
    using tq.void_dequeue_total by blast
  then show ?case using Suc.IH [of s1] by (cases b) (simp_all add: Let_def)
qed simp

text \<open>
  C17: the counter and the assertions. In every reachable state \<^verbatim>\<open>processing\<close> is the number of
  workers that have taken an item and not finished it; the assertions of \<^verbatim>\<open>_void_process\<close> and
  \<^verbatim>\<open>_void_process_finish\<close> hold at every worker that is about to run them; and the scan for work
  always returns.
\<close>
theorem pool_assertions_hold:
  assumes "tp_reach s"
  shows "processing s = int (card {t. busy (tp_pc s t) = 1}) \<and>
    (tp_pc s t = W_got q \<longrightarrow> (\<exists>u s'. void_process_take q s = Ret u s')) \<and>
    (tp_pc s t = W_fin q \<longrightarrow> (\<exists>u s'. void_process_finish q s = Ret u s')) \<and>
    (\<exists>r s'. scan_queues test_ops n s = Ret r s')"
proof (intro conjI impI)
  note parts = reach_parts [OF assms]
  show "processing s = int (card {t. busy (tp_pc s t) = 1})"
    using parts(1) tot_busy_card [of "tp_pc s"] by (simp add: counts_inv_def)
  show "\<exists>u s'. void_process_take q s = Ret u s'" if "tp_pc s t = W_got q"
    using item_waiting(1) [OF parts(1) that] by (simp add: void_process_take_def assert_that_def)
  show "\<exists>u s'. void_process_finish q s = Ret u s'" if "tp_pc s t = W_fin q"
    using item_waiting(2) [OF parts(1) that]
    by (simp add: void_process_finish_def assert_that_def Let_def)
  show "\<exists>r s'. scan_queues test_ops n s = Ret r s'" by (rule scan_returns)
qed

theorem pool_assertions_hold_witness:
  "processing tp1 = int (card {t. busy (tp_pc tp1 t) = 1})"
  using pool_assertions_hold [OF tp1_reach, of 7 0 0] by blast

text \<open>
  the scan finds work exactly when there is work. With at least one queue registered, the
  round-robin scan over \<open>2 n\<close> turns comes back with a queue exactly when some registered queue
  has an item, wherever the last scan stopped; it then has taken one item from that queue.
\<close>
theorem scan_finds_work:
  fixes s :: "('u list, 'u) ThreadPool"
  assumes "work_queues s \<noteq> []" "scan_queues test_ops (2 * length (work_queues s)) s = Ret r s'"
  shows "(r \<noteq> None \<longleftrightarrow> (\<exists>q \<in> set (work_queues s). wq_items (wqs s q) \<noteq> [])) \<and>
    (\<forall>q. r = Some q \<longrightarrow> q \<in> set (work_queues s) \<and>
       (\<exists>u. wq_items (wqs s q) = u # wq_items (wqs s' q) \<and>
            to_process (wqs s' q) = to_process (wqs s q) @ [u]))"
proof (cases r)
  case None
  then show ?thesis
    using scan_complete [of test_ops s s'] assms by (auto simp: pool_empty_def test_ops_def)
next
  case (Some q)
  then obtain u c k where "q \<in> set (work_queues s)" "\<not> pool_empty test_ops s q"
    "op_dequeue test_ops (wq_items (wqs s q)) = Some (u, c)" "s' = take_item q u c (s\<lparr>next_work_queue := k\<rparr>)"
    using scan_queues_Ret [OF assms(2,1)] by auto
  moreover from this have "wq_items (wqs s q) = u # c"
    by (auto simp: test_ops_def split: list.splits)
  ultimately show ?thesis using Some by (auto simp: take_item_def intro!: bexI [of _ q])
qed

theorem scan_finds_work_witness:
  "\<exists>s'. scan_queues test_ops 2 tp1 = Ret (Some 0) s'"
proof -
  have tp1: "work_queues tp1 = [0]" "wq_items (wqs tp1 0) = [42]"
    by (simp_all add: tp1_def wq_queue_def notify_workers_def note_queued_def upd_wq_def add_work_queue_def
        tp0_def ThreadPool_ctor_def test_ops_def)
  obtain r s' where r: "scan_queues test_ops 2 tp1 = Ret r s'"
    using tq.void_dequeue_total [of 0 tp1]
    by (simp add: numeral_2_eq_2 tp1 Let_def void_dequeue_def test_ops_def)
  then show ?thesis using scan_finds_work [of tp1 r s'] tp1 by auto
qed

section \<open>\<^verbatim>\<open>drain()\<close> and \<^verbatim>\<open>pause()\<close>\<close>

lemma counts_len:
  assumes "counts_inv s"
  shows "length (to_process (wqs s q)) = tot (at_got q) (tp_pc s)"
    "length (to_finish (wqs s q)) = tot (at_fin q) (tp_pc s)"
  using assms by (simp_all add: counts_inv_def)

lemma idle_queues:
  assumes "counts_inv s" "processing s = 0"
  shows "busy (tp_pc s u) = 0" "to_process (wqs s q) = []" "to_finish (wqs s q) = []"
    "tot (in_hand q) (tp_pc s) = {#}"
proof -
  have fin: "fin_pc (tp_pc s)" and zero: "tot busy (tp_pc s) = 0"
    using assms by (simp_all add: counts_inv_def)
  show b: "busy (tp_pc s u) = 0" for u using tot_member [OF fin, of busy u] zero by simp
  have "at_got q (tp_pc s u) = 0" "at_fin q (tp_pc s u) = 0" "in_hand q (tp_pc s u) = {#}" for u
    using b [of u] by (cases "tp_pc s u"; simp)+
  then have "tot (at_got q) (tp_pc s) = 0" "tot (at_fin q) (tp_pc s) = 0"
    "tot (in_hand q) (tp_pc s) = {#}" by (simp_all add: tot_def)
  then show "to_process (wqs s q) = []" "to_finish (wqs s q) = []" "tot (in_hand q) (tp_pc s) = {#}"
    using counts_len [OF assms(1), of q] by simp_all
qed

lemma drained:
  assumes "tp_reach s" "\<not> tp_cleared s" "\<not> drain_waits test_ops (Some q) s"
  shows "tp_finished s q = tp_queued s q \<and> (\<forall>u. busy (tp_pc s u) = 0)"
proof -
  have idle: "processing s = 0" "wq_items (wqs s q) = []"
    using assms(3) by (auto simp: drain_waits_def test_ops_def)
  show ?thesis
    using reach_parts(2) [OF assms(1)] assms(2) idle idle_queues [OF reach_parts(1) [OF assms(1)] idle(1)]
    by (simp add: items_inv_def)
qed

lemma drain_returned:
  assumes "(tp_pc s t = Outside \<and> s' = wq_drain test_ops t q s) \<or>
      (tp_pc s t = C_draining (Some q) \<and> t \<notin> set (tp_wait_cond s) \<and> s' = drain_turn test_ops t (Some q) s)"
    and "tp_pc s' t = Outside"
  shows "\<not> drain_waits test_ops (Some q) s" "tp_finished s' = tp_finished s" "tp_queued s' = tp_queued s"
    "tp_pc s' = (tp_pc s)(t := Outside)"
proof -
  have waits: "drain_waits test_ops (Some q) (s\<lparr>tp_draining := n\<rparr>) = drain_waits test_ops (Some q) s" for n
    by (simp add: drain_waits_def)
  show w: "\<not> drain_waits test_ops (Some q) s"
    using assms by (auto simp: wq_drain_def tp_drain_call_def drain_turn_def waits split: if_splits)
  show "tp_finished s' = tp_finished s" "tp_queued s' = tp_queued s" "tp_pc s' = (tp_pc s)(t := Outside)"
    using assms(1) w by (elim disjE; simp add: wq_drain_def tp_drain_call_def drain_turn_def waits)+
qed

text \<open>
  C21: \<^verbatim>\<open>pause()\<close>. From the return of a caller's \<^verbatim>\<open>pause()\<close> to its \<^verbatim>\<open>unpause()\<close>, in every reachable
  state, no worker has an item in hand, whatever is queued meanwhile; and a worker that runs
  its loop then does not take one.
\<close>
theorem pause_stops_processing:
  assumes "tp_reach s" "tp_pc s t = C_paused"
  shows "(\<forall>u. busy (tp_pc s u) = 0) \<and> tp_pause s \<noteq> 0 \<and>
    (\<forall>e u s'. worker_loop test_ops e u s = Ret () s' \<longrightarrow> busy (tp_pc s' u) = 0 \<and> wqs s' = wqs s)"
proof -
  note parts = reach_parts [OF assms(1)]
  have zero: "processing s = 0" using parts(3) assms(2) unfolding sets_inv_def by blast
  have p: "tp_pause s \<noteq> 0" using no_paused [OF parts(1), of t] assms(2) by auto
  have "busy (tp_pc s' u) = 0 \<and> wqs s' = wqs s" if "worker_loop test_ops e u s = Ret () s'" for e u s'
  proof -
    have "loop_effect test_ops u s s'"
      using worker_loop_effect [OF that] parts(3) by (simp add: sets_inv_def)
    then show ?thesis using p by (auto simp: loop_effect_def)
  qed
  then show ?thesis using p idle_queues(1) [OF parts(1) zero] by blast
qed

theorem pause_stops_processing_witness:
  "tp_pause (tp_pause_call 7 tp1) \<noteq> 0"
proof -
  have o: "tp_pc tp1 7 = Outside" and z: "tp_pc (tp_pause_call 7 tp1) 7 = C_paused"
    by (simp_all add: tp1_def wq_queue_def notify_workers_def note_queued_def upd_wq_def add_work_queue_def
        tp0_def ThreadPool_ctor_def tp_pause_call_def pause_turn_def)
  have "tp_reach (tp_pause_call 7 tp1)" using tp_reach.step [OF tp1_reach tpstep.pause [OF o]] .
  from pause_stops_processing [OF this z] show ?thesis by blast
qed

section \<open>Nothing is forgotten\<close>

text \<open>
  C13: no work is forgotten. In every reachable state in which some registered queue has an
  item, the pool is neither paused nor stopping and there is a worker at all, some worker is
  awake: it is processing, or it will run its loop (and so the scan) without needing another
  notification.
\<close>
theorem no_forgotten_work:
  assumes "tp_reach s" "q \<in> set (work_queues s)" "wq_items (wqs s q) \<noteq> []" "tp_pause s = 0"
    "\<not> tp_stop s" "alive (tp_pc s t)"
  shows "\<exists>u. alive (tp_pc s u) \<and> u \<notin> set (tp_cond s)"
proof -
  have "work_pending test_ops s"
    using assms(2-5) by (auto simp: work_pending_def pool_empty_def test_ops_def)
  then show ?thesis
    using reach_parts(4) [OF assms(1)] assms(6) by (auto simp: live_inv_def awake_worker_def)
qed

theorem no_forgotten_work_witness:
  "\<exists>s. tp_reach s \<and> wq_items (wqs s 0) = [42 :: nat] \<and> (\<exists>u. alive (tp_pc s u) \<and> u \<notin> set (tp_cond s))"
proof -
  let ?s = "goto_point 9 W_new (tp1\<lparr>tp_threads := [9]\<rparr>)"
  have f: "tp_pc tp1 9 = Outside" "tp_threads tp1 = []" "tp_num_threads tp1 = 1" "tp_thread_name tp1 = ''tp''"
    "work_queues tp1 = [0]" "wq_items (wqs tp1 0) = [42]" "tp_pause tp1 = 0" "\<not> tp_stop tp1"
    by (simp_all add: tp1_def wq_queue_def notify_workers_def note_queued_def upd_wq_def add_work_queue_def
        tp0_def ThreadPool_ctor_def test_ops_def)
  have "tp_start [9] tp1 = Ret () ?s" by (simp add: f tp_start_def c_str_def assert_that_def goto_point_def)
  then have r: "tp_reach ?s"
    using tp_reach.step [OF tp1_reach tpstep.start [of "[9]"]] f(1) by simp
  have "\<exists>u. alive (tp_pc ?s u) \<and> u \<notin> set (tp_cond ?s)"
    by (rule no_forgotten_work [OF r, of 0 9]) (simp_all add: f)
  then show ?thesis using r f(6) by (intro exI [of _ ?s]) simp
qed

text \<open>
  no caller is forgotten. As long as \<^verbatim>\<open>stop()\<close> has not cleared the queues, a caller asleep in
  \<^verbatim>\<open>pause()\<close> or \<^verbatim>\<open>drain()\<close> really has something to wait for: whenever its condition became true,
  it was notified.
\<close>
theorem no_forgotten_caller:
  assumes "tp_reach s" "\<not> tp_cleared s" "t \<in> set (tp_wait_cond s)"
  shows "(tp_pc s t = C_pausing \<and> processing s \<noteq> 0) \<or>
    (\<exists>wq. tp_pc s t = C_draining wq \<and> drain_waits test_ops wq s)"
proof -
  have "client_waits (tp_pc s t)" using reach_parts(3) [OF assms(1)] assms(3) by (simp add: sets_inv_def)
  then show ?thesis
    using reach_parts(5) [OF assms(1)] assms(2,3) by (cases "tp_pc s t") (auto simp: wait_inv_def)
qed

definition tp2 :: "(nat list, nat) ThreadPool" where
  "tp2 = tp_drain_call test_ops 7 (Some 0) tp1"

lemma tp2_facts:
  "tp_reach tp2" "\<not> tp_cleared tp2" "tp_wait_cond tp2 = [7]" "tp_pc tp2 = (\<lambda>_. Outside)(7 := C_draining (Some 0))"
  "tp_threads tp2 = []" "tp_old_threads tp2 = []" "work_queues tp2 = [0]" "processing tp2 = 0"
proof -
  have "tp_pc tp1 7 = Outside"
    by (simp add: tp1_def wq_queue_def notify_workers_def note_queued_def upd_wq_def add_work_queue_def
        tp0_def ThreadPool_ctor_def)
  then show "tp_reach tp2" unfolding tp2_def by (intro tp_reach.step [OF tp1_reach] tpstep.drain)
  show "\<not> tp_cleared tp2" "tp_wait_cond tp2 = [7]" "tp_pc tp2 = (\<lambda>_. Outside)(7 := C_draining (Some 0))"
    "tp_threads tp2 = []" "tp_old_threads tp2 = []" "work_queues tp2 = [0]" "processing tp2 = 0"
    by (simp_all add: tp2_def tp1_def wq_queue_def notify_workers_def note_queued_def upd_wq_def add_work_queue_def
        tp0_def ThreadPool_ctor_def tp_drain_call_def drain_turn_def drain_waits_def test_ops_def goto_point_def)
qed

theorem no_forgotten_caller_witness: "drain_waits test_ops (Some 0) tp2"
  using no_forgotten_caller [OF tp2_facts(1,2), of 7] by (simp add: tp2_facts(3,4))

text \<open>
  \<^verbatim>\<open>stop()\<close> forgets a draining caller. There is a reachable state in which the pool has been
  stopped and its queues cleared, the condition a caller of \<^verbatim>\<open>drain()\<close> waits for is true, no
  worker exists, and yet the caller is still asleep: \<^verbatim>\<open>stop()\<close> clears the queues without
  notifying \<^verbatim>\<open>_wait_cond\<close>.
\<close>
theorem drain_stuck_after_stop:
  "\<exists>s :: (nat list, nat) ThreadPool. tp_reach s \<and> 7 \<in> set (tp_wait_cond s) \<and>
     tp_pc s 7 = C_draining (Some 0) \<and> \<not> drain_waits test_ops (Some 0) s \<and> (\<forall>u. \<not> alive (tp_pc s u))"
proof -
  let ?a = "goto_point 8 C_stopping (tp2\<lparr>tp_stop := True, tp_cond := [], tp_old_threads := []\<rparr>)"
  have "tp_stop_begin 8 tp2 = Ret () ?a"
    by (simp add: tp_stop_begin_def join_old_threads_def tp2_facts)
  then have "tpstep test_ops tp2 ?a" by (intro tpstep.stop [of tp2 8]) (simp_all add: tp2_facts)
  then have a: "tp_reach ?a" by (rule tp_reach.step [OF tp2_facts(1)])
  obtain b where b: "tp_stop_finish test_ops 8 ?a = Ret () b" "tp_wait_cond b = [7]"
    "tp_pc b = (\<lambda>_. Outside)(7 := C_draining (Some 0))" "\<not> drain_waits test_ops (Some 0) b"
    by (simp add: tp_stop_finish_def tp2_facts clear_queues_def drain_waits_def test_ops_def fun_eq_iff)
  have "tp_reach b" using tp_reach.step [OF a tpstep.stopped [OF _ b(1)]] by simp
  then show ?thesis using b by (intro exI [of _ b]) auto
qed

end
