(* ===== verification/Heartbeat_Client.thy ===== *)
theory Heartbeat_Client
  imports Heartbeat
begin

text \<open>
  What both thread pools rely on in the heartbeat map: a relation between the map, the handle
  each thread keeps and the set of threads that are registered; what every call of the map does
  to it; and, as an interface, what follows for a client all of whose steps keep it.
\<close>

definition hb_rel :: "heartbeat_map \<Rightarrow> (tid \<Rightarrow> nat) \<Rightarrow> tid set \<Rightarrow> bool" where
  "hb_rel m h T \<longleftrightarrow> hb_inv m \<and> hb_writer m = None \<and> inj_on h T \<and> set (m_workers m) = h ` T"

section \<open>The calls of the map\<close>

lemma handle_update_rel:
  assumes "handles m a = Some c" "m' = m\<lparr>handles := (handles m)(a \<mapsto> c')\<rparr>" "hb_rel m h T"
  shows "hb_rel m' h T"
proof -
  have "dom (handles m') = dom (handles m)" using assms(1,2) by auto
  then have "hb_inv m'" using assms(2,3) by (simp add: hb_rel_def hb_inv_def workers_inv_def)
  then show ?thesis using assms(2,3) by (simp add: hb_rel_def hb_writer_def)
qed

lemma reset_timeout_rel:
  assumes "reset_timeout now a g sg m = Ret () m'" "hb_rel m h T"
  shows "hb_rel m' h T"
proof -
  obtain c c' where "handles m a = Some c" "m' = m\<lparr>handles := (handles m)(a \<mapsto> c')\<rparr>"
    using assms(1)
    by (auto simp: reset_timeout_def check_handle_def Let_def split: option.splits if_splits)
  then show ?thesis by (rule handle_update_rel [OF _ _ assms(2)])
qed

lemma clear_timeout_rel:
  assumes "clear_timeout now a m = Ret () m'" "hb_rel m h T"
  shows "hb_rel m' h T"
proof -
  obtain c c' where "handles m a = Some c" "m' = m\<lparr>handles := (handles m)(a \<mapsto> c')\<rparr>"
    using assms(1)
    by (auto simp: clear_timeout_def check_handle_def Let_def split: option.splits if_splits)
  then show ?thesis by (rule handle_update_rel [OF _ _ assms(2)])
qed

lemma reset_timeout_defined:
  assumes "hb_rel m h T" "t \<in> T"
  shows "reset_timeout now (h t) g sg m \<noteq> Undef"
proof -
  have "h t \<in> set (m_workers m)" using assms by (simp add: hb_rel_def)
  then have "h t \<in> dom (handles m)" using assms(1) by (auto simp: hb_rel_def hb_inv_def workers_inv_def)
  then obtain c where "handles m (h t) = Some c" by blast
  then show ?thesis by (simp add: reset_timeout_def check_handle_def Let_def)
qed

lemma add_worker_rel:
  assumes "add_worker t bt name i m = Ret a m'" "hb_rel m h T" "t \<notin> T"
  shows "hb_rel m' (h(t := a)) (insert t T)"
proof -
  have inv: "hb_inv m" "hb_writer m = None" using assms(2) by (simp_all add: hb_rel_def)
  have a: "a = next_addr m" "m_workers m' = a # m_workers m" "hb_inv m'" "hb_writer m' = None"
    using add_worker_run [OF inv, of t bt name i] assms(1) by auto
  have "a \<notin> set (m_workers m)" using inv(1) a(1) by (auto simp: hb_inv_def workers_inv_def)
  then have "a \<notin> h ` T" using assms(2) by (simp add: hb_rel_def)
  moreover have "(h(t := a)) ` T = h ` T" using assms(3) by auto
  moreover have "inj_on (h(t := a)) T"
    using assms(2,3) by (auto simp: hb_rel_def inj_on_def)
  ultimately show ?thesis using assms(2,3) a(2-4) by (simp add: hb_rel_def)
qed

lemma remove_worker_rel:
  assumes "remove_worker t bt (h t) m = Ret () m'" "hb_rel m h T" "t \<in> T"
  shows "hb_rel m' h (T - {t})"
proof -
  have inv: "hb_inv m" "hb_writer m = None" "h t \<in> set (m_workers m)"
    using assms(2,3) by (simp_all add: hb_rel_def)
  have dist: "distinct (m_workers m)" using inv(1) by (simp add: hb_inv_def workers_inv_def)
  have a: "m_workers m' = remove1 (h t) (m_workers m)" "hb_inv m'" "hb_writer m' = None"
    using remove_worker_run [OF inv(1-3), of t bt] assms(1) by auto
  have "set (m_workers m') = h ` T - {h t}" using a(1) dist assms(2) by (simp add: hb_rel_def)
  also have "\<dots> = h ` (T - {t})" using assms(2,3) by (auto simp: hb_rel_def inj_on_def)
  finally show ?thesis using assms(2) a by (auto simp: hb_rel_def intro: inj_on_subset)
qed

section \<open>Calls that return\<close>

text \<open>At the time a worker reads the clock, no handle has passed its suicide timeout.\<close>

definition hb_in_time :: "heartbeat_map \<Rightarrow> time \<Rightarrow> bool" where
  "hb_in_time m now \<longleftrightarrow> (\<forall>p. \<not> dead m now p)"

lemma registered_handle:
  assumes "hb_rel m h T" "t \<in> T"
  shows "\<exists>c. handles m (h t) = Some c"
proof -
  have "h t \<in> set (m_workers m)" using assms by (simp add: hb_rel_def)
  then show ?thesis using assms(1) by (auto simp: hb_rel_def hb_inv_def workers_inv_def)
qed

lemma reset_returns:
  assumes "hb_rel m h T" "t \<in> T" "hb_in_time m now"
  shows "\<exists>m'. reset_timeout now (h t) g sg m = Ret () m'"
proof -
  obtain c where c: "handles m (h t) = Some c" using registered_handle [OF assms(1,2)] by blast
  then have "\<not> expired (suicide_timeout c) now" using assms(3) by (auto simp: hb_in_time_def dead_def)
  then show ?thesis using reset_timeout_run [OF c] by blast
qed

lemma in_time_min: "hb_in_time m time_min"
proof -
  have "sint time_min = - (2 ^ 63)" by (simp add: time_min_def)
  then show ?thesis using sint_ge [where ?'a = 64] by (auto simp: hb_in_time_def dead_def expired_def not_less)
qed

section \<open>Clients of the map\<close>

locale heartbeat_client =
  fixes step :: "'s \<Rightarrow> 's \<Rightarrow> bool" and hbm :: "'s \<Rightarrow> heartbeat_map" and hbo :: "'s \<Rightarrow> tid \<Rightarrow> nat"
    and regs :: "'s \<Rightarrow> tid set"
  assumes step_rel: "step s s' \<Longrightarrow> hb_rel (hbm s) (hbo s) (regs s) \<Longrightarrow> hb_rel (hbm s') (hbo s') (regs s')"
begin

lemma run_rel:
  assumes "step\<^sup>*\<^sup>* s s'" "hb_rel (hbm s) (hbo s) (regs s)"
  shows "hb_rel (hbm s') (hbo s') (regs s')"
  using assms by (induction rule: rtranclp_induct) (auto intro: step_rel)

lemma fresh_rel:
  assumes "hb_inv (hbm s)" "hb_writer (hbm s) = None" "m_workers (hbm s) = []" "regs s = {}"
  shows "hb_rel (hbm s) (hbo s) (regs s)"
  using assms by (simp add: hb_rel_def)

lemma handles_owned:
  assumes "hb_rel (hbm s) (hbo s) (regs s)"
  shows "length (m_workers (hbm s)) = card (regs s)" "inj_on (hbo s) (regs s)"
    "t \<in> regs s \<Longrightarrow> reset_timeout now (hbo s t) g sg (hbm s) \<noteq> Undef"
    "t \<in> regs s \<Longrightarrow> \<exists>m. remove_worker t bt (hbo s t) (hbm s) = Ret () m"
    "regs s = {} \<Longrightarrow> HeartbeatMap_dtor (hbm s) = Ret () (hbm s)"
proof -
  have inv: "hb_inv (hbm s)" "hb_writer (hbm s) = None" "inj_on (hbo s) (regs s)"
    "set (m_workers (hbm s)) = hbo s ` regs s"
    using assms by (simp_all add: hb_rel_def)
  have dist: "distinct (m_workers (hbm s))" using inv(1) by (simp add: hb_inv_def workers_inv_def)
  show "length (m_workers (hbm s)) = card (regs s)"
    using inv(3,4) dist by (metis card_image distinct_card)
  show "inj_on (hbo s) (regs s)" by (rule inv(3))
  show "reset_timeout now (hbo s t) g sg (hbm s) \<noteq> Undef" if "t \<in> regs s"
    by (rule reset_timeout_defined [OF assms that])
  show "\<exists>m. remove_worker t bt (hbo s t) (hbm s) = Ret () m" if "t \<in> regs s"
    using remove_worker_run [OF inv(1,2), of "hbo s t" t bt] inv(4) that by auto
  show "HeartbeatMap_dtor (hbm s) = Ret () (hbm s)" if "regs s = {}"
    using inv(4) that by (simp add: HeartbeatMap_dtor_def assert_that_def)
qed

end

end
