(* ===== verification/Threadpool_Heartbeat.thy ===== *)
theory Threadpool_Heartbeat
  imports Threadpool_Props Heartbeat_Client
begin

text \<open>
  The thread pool as a client of the heartbeat map: every worker between its registration and
  its exit has exactly one live handle of its own, and the map lists no other.
\<close>

fun has_hb :: "'u tpoint \<Rightarrow> bool" where
  "has_hb W_sleep = True"
| "has_hb (W_got q) = True"
| "has_hb (W_proc q u) = True"
| "has_hb (W_fin q) = True"
| "has_hb _ = False"

definition hb_threads :: "('q, 'u) ThreadPool \<Rightarrow> tid set" where
  "hb_threads s = {t. has_hb (tp_pc s t)}"

definition hb_ok :: "('q, 'u) ThreadPool \<Rightarrow> bool" where
  "hb_ok s \<longleftrightarrow> hb_rel (hbmap s) (hb_of s) (hb_threads s)"

lemma hb_threads_goto:
  "hb_threads (goto_point t p s) = (if has_hb p then insert t (hb_threads s) else hb_threads s - {t})"
  by (auto simp: hb_threads_def)

lemma hb_fields [simp]:
  "hbmap (goto_point t p s) = hbmap s" "hb_of (goto_point t p s) = hb_of s"
  "hbmap (upd_wq q f s) = hbmap s" "hb_of (upd_wq q f s) = hb_of s"
  "hb_threads (upd_wq q f s) = hb_threads s"
  by (simp_all add: goto_point_def upd_wq_def hb_threads_def)

lemma hb_threads_cong: "tp_pc s' = tp_pc s \<Longrightarrow> hb_threads s' = hb_threads s"
  by (simp add: hb_threads_def)

lemma hb_threads_upd:
  "hb_threads (s\<lparr>tp_cond := x\<rparr>) = hb_threads s" "hb_threads (s\<lparr>tp_wait_cond := x\<rparr>) = hb_threads s"
  "hb_threads (s\<lparr>tp_queued := y\<rparr>) = hb_threads s" "hb_threads (s\<lparr>work_queues := z\<rparr>) = hb_threads s"
  "hb_threads (s\<lparr>tp_pause := i\<rparr>) = hb_threads s" "hb_threads (s\<lparr>tp_draining := i\<rparr>) = hb_threads s"
  by (simp_all add: hb_threads_def)

lemma hb_ok_cong:
  "hb_ok s \<Longrightarrow> hbmap s' = hbmap s \<Longrightarrow> hb_of s' = hb_of s \<Longrightarrow> hb_threads s' = hb_threads s \<Longrightarrow> hb_ok s'"
  by (simp add: hb_ok_def)

section \<open>The sections of a worker\<close>

lemma worker_sleep_hb:
  assumes "worker_sleep e t s = Ret () s'" "hb_rel (hbmap s) (hb_of s) (insert t (hb_threads s))"
  shows "hb_ok s'"
  using assms reset_timeout_rel [of _ "hb_of s t"]
  by (auto simp: worker_sleep_def bind_eq_Ret_iff with_hb_Ret hb_ok_def hb_threads_goto)
    (simp_all add: hb_threads_def)

lemma worker_loop_hb:
  assumes "worker_loop ops e t s = Ret () s'" "hb_rel (hbmap s) (hb_of s) (insert t (hb_threads s))"
  shows "hb_ok s'"
proof (cases "tp_stop s")
  case True
  then obtain h where h: "remove_worker t (we_bt e) (hb_of s t) (hbmap s) = Ret () h"
    "s' = goto_point t W_exit (s\<lparr>hbmap := h\<rparr>)"
    using assms(1) by (auto simp: worker_loop_def bind_eq_Ret_iff with_hb_Ret)
  have "insert t (hb_threads s) - {t} = hb_threads s - {t}" by auto
  then show ?thesis
    using remove_worker_rel [OF h(1) assms(2)] h(2) by (simp add: hb_ok_def hb_threads_goto)
      (simp add: hb_threads_def)
next
  case False
  let ?s = "s\<lparr>tp_old_threads := []\<rparr>"
  have rel: "hb_rel (hbmap ?s) (hb_of ?s) (insert t (hb_threads ?s))"
    using assms(2) by (simp add: hb_threads_def)
  consider (sleep) "worker_sleep e t ?s = Ret () s'"
    | (scan) found s1 where "work_queues s \<noteq> []"
      "scan_queues ops (2 * length (work_queues s)) ?s = Ret found s1"
      "(case found of Some q \<Rightarrow> Ret () (goto_point t (W_got q) (s1\<lparr>processing := processing s1 + 1\<rparr>))
        | None \<Rightarrow> worker_sleep e t s1) = Ret () s'"
    using assms(1) False
    by (auto simp: worker_loop_def join_old_threads_def bind_eq_Ret_iff split: if_splits)
  then show ?thesis
  proof cases
    case sleep
    then show ?thesis using worker_sleep_hb rel by blast
  next
    case scan
    have same: "hbmap s1 = hbmap ?s \<and> hb_of s1 = hb_of ?s \<and> hb_threads s1 = hb_threads ?s"
      using scan_queues_Ret [OF scan(2)] scan(1) by (auto simp: take_item_def) (simp_all add: hb_threads_def)
    show ?thesis
    proof (cases found)
      case None
      then show ?thesis using scan(3) worker_sleep_hb [of e t s1 s'] rel same by (simp only: option.case)
    next
      case (Some q)
      then have "s' = goto_point t (W_got q) (s1\<lparr>processing := processing s1 + 1\<rparr>)" using scan(3) by simp
      then show ?thesis using rel same by (simp add: hb_ok_def hb_threads_goto) (simp add: hb_threads_def)
    qed
  qed
qed


section \<open>Every step\<close>

lemma start_threads_hb:
  assumes "start_threads ws s = Ret () s'" "\<forall>w \<in> set ws. \<not> has_hb (tp_pc s w)"
  shows "hbmap s' = hbmap s \<and> hb_of s' = hb_of s \<and> hb_threads s' = hb_threads s"
  using assms
proof (induction ws arbitrary: s)
  case (Cons w ws)
  let ?s = "goto_point w W_new (s\<lparr>tp_threads := tp_threads s @ [w]\<rparr>)"
  have same: "hb_threads ?s = hb_threads s" using Cons.prems(2) by (auto simp: hb_threads_def)
  show ?case
  proof (cases "length (tp_threads s) < tp_num_threads s")
    case True
    then have "start_threads ws ?s = Ret () s'" using Cons.prems(1) by (auto simp: bind_eq_Ret_iff assert_that_def split: if_splits)
    from Cons.IH [OF this] Cons.prems(2) same show ?thesis by simp
  qed (use Cons.prems(1) in simp)
qed (simp split: if_splits)

lemma clear_queues_hb:
  "hbmap (clear_queues ops s) = hbmap s \<and> hb_of (clear_queues ops s) = hb_of s \<and>
   tp_pc (clear_queues ops s) = tp_pc s"
proof -
  have "hbmap (fold (\<lambda>q. upd_wq q f) qs s) = hbmap s \<and> hb_of (fold (\<lambda>q. upd_wq q f) qs s) = hb_of s \<and>
      tp_pc (fold (\<lambda>q. upd_wq q f) qs s) = tp_pc s" for f qs
    by (induction qs arbitrary: s) simp_all
  then show ?thesis by (simp add: clear_queues_def)
qed

lemma in_hb_threads: "t \<in> hb_threads s \<longleftrightarrow> has_hb (tp_pc s t)"
  by (simp add: hb_threads_def)

lemma worker_enter_hb:
  assumes "worker_enter ops e t s = Ret () s'" "tp_pc s t = W_new" "hb_ok s"
  shows "hb_ok s'"
proof -
  obtain a m where a: "add_worker t (we_bt e) (tp_name s @ '' thread '' @ we_name e) t (hbmap s) = Ret a m"
    "worker_loop ops e t (s\<lparr>hbmap := m, hb_of := (hb_of s)(t := a)\<rparr>) = Ret () s'"
    using assms(1) by (auto simp: worker_enter_def bind_eq_Ret_iff with_hb_Ret)
  have "hb_rel m ((hb_of s)(t := a)) (insert t (hb_threads s))"
    using add_worker_rel [OF a(1)] assms(2,3) by (simp add: hb_ok_def in_hb_threads)
  then show ?thesis by (intro worker_loop_hb [OF a(2)]) (simp add: hb_threads_def)
qed

lemma worker_process_hb:
  assumes "worker_process e t q s = Ret () s'" "tp_pc s t = W_got q" "hb_ok s"
  shows "hb_ok s'"
proof -
  obtain m g where m: "reset_timeout (we_now e) (hb_of s t) (wq_grace (wqs s q)) (wq_suicide_grace (wqs s q))
      (hbmap s) = Ret () m" "\<exists>u. s' = goto_point t (W_proc q u) (upd_wq q g (s\<lparr>hbmap := m\<rparr>))"
    using assms(1) by (auto simp: worker_process_def reset_tp_timeout_def tp_handle_def TPHandle_ctor_def void_process_take_def
        bind_eq_Ret_iff with_hb_Ret assert_that_def split: if_splits)
  have "hb_rel m (hb_of s) (hb_threads s)"
    using reset_timeout_rel [OF m(1)] assms(3) by (simp add: hb_ok_def)
  moreover have "hb_threads s' = hb_threads s"
    using m(2) assms(2) by (auto simp: hb_threads_goto in_hb_threads)
  ultimately show ?thesis using m(2) by (auto simp: hb_ok_def)
qed

lemma worker_finish_hb:
  assumes "worker_finish ops e t q s = Ret () s'" "tp_pc s t = W_fin q" "hb_ok s"
  shows "hb_ok s'"
proof -
  let ?s = "finish_item q s"
  have loop: "worker_loop ops e t ?s = Ret () s'" using worker_finish_Ret [OF assms(1)] by blast
  have "hbmap ?s = hbmap s" "hb_of ?s = hb_of s" by (simp_all add: finish_item_def Let_def)
  moreover have "hb_threads ?s = hb_threads s" by (intro hb_threads_cong) simp
  moreover have "t \<in> hb_threads s" using assms(2) by (simp add: in_hb_threads)
  ultimately show ?thesis
    using assms(3) by (intro worker_loop_hb [OF loop]) (simp add: hb_ok_def insert_absorb)
qed

lemmas caller_defs = tp_wake_def wq_queue_def wq_queue_front_def notify_workers_def note_queued_def
  add_work_queue_def remove_work_queue_def WorkQueueVal_ctor_def WorkQueueVal_dtor_def tp_pause_call_def pause_turn_def tp_unpause_def
  tp_drain_call_def drain_turn_def

lemma tpstep_hb:
  assumes "tpstep ops s s'" "hb_ok s"
  shows "hb_ok s'"
  using assms
proof (induction rule: tpstep.induct)
  case (enter s t e s')
  then show ?case using worker_enter_hb by blast
next
  case (awake s t e s')
  then have "insert t (hb_threads s) = hb_threads s" by (auto simp: in_hb_threads)
  then show ?case using awake by (intro worker_loop_hb [of ops e t s]) (simp_all add: hb_ok_def)
next
  case (take s t q e s')
  then show ?case using worker_process_hb by blast
next
  case (processed s t q u)
  then show ?case
    by (intro hb_ok_cong [OF processed(2)]) (auto simp: void_process_put_def hb_threads_def)
next
  case (finish s t q e s')
  then show ?case using worker_finish_hb by blast
next
  case (beat s t q u now s')
  then obtain h where "reset_timeout now (hb_of s t) (wq_grace (wqs s q)) (wq_suicide_grace (wqs s q)) (hbmap s) =
      Ret () h" "s' = s\<lparr>hbmap := h\<rparr>"
    by (auto simp: reset_tp_timeout_def tp_handle_def TPHandle_ctor_def with_hb_Ret)
  then show ?case using reset_timeout_rel beat(3) by (auto simp: hb_ok_def hb_threads_def)
next
  case (suspend s t q u now s')
  then obtain h where "clear_timeout now (hb_of s t) (hbmap s) = Ret () h" "s' = s\<lparr>hbmap := h\<rparr>"
    by (auto simp: suspent_tp_timeout_def tp_handle_def TPHandle_ctor_def with_hb_Ret)
  then show ?case using clear_timeout_rel suspend(3) by (auto simp: hb_ok_def hb_threads_def)
next
  case (start ws s s')
  then have "\<forall>w \<in> set ws. \<not> has_hb (tp_pc s w)" by simp
  then show ?case using start_threads_hb [OF start(3) [unfolded tp_start_def]] start(4) by (simp add: hb_ok_def)
next
  case (stop s t s')
  then show ?case
    by (intro hb_ok_cong [OF stop(3)])
      (auto simp: tp_stop_begin_def join_old_threads_def hb_threads_def bind_eq_Ret_iff split: if_splits)
next
  case (stopped s t s')
  then show ?case
    by (intro hb_ok_cong [OF stopped(3)])
      (auto simp: tp_stop_finish_def Let_def hb_threads_def clear_queues_hb split: if_splits)
qed (erule hb_ok_cong; simp add: caller_defs hb_threads_upd hb_threads_goto in_hb_threads)+

interpretation tph: heartbeat_client "tpstep ops" hbmap hb_of hb_threads for ops
  by unfold_locales (use tpstep_hb in \<open>auto simp: hb_ok_def\<close>)

section \<open>Sections return\<close>

lemma worker_sleep_returns:
  assumes "hb_rel (hbmap s) (hb_of s) T" "t \<in> T" "hb_in_time (hbmap s) (we_now e)"
  shows "\<exists>s'. worker_sleep e t s = Ret () s'"
  using reset_returns [OF assms, of "tp_grace s" "tp_suicide_grace s"]
  by (auto simp: worker_sleep_def with_hb_def)

lemma worker_loop_returns:
  assumes "tp_old_threads s = []" "hb_rel (hbmap s) (hb_of s) T" "t \<in> T" "hb_in_time (hbmap s) (we_now e)"
  shows "\<exists>s'. worker_loop test_ops e t s = Ret () s'"
proof (cases "tp_stop s")
  case True
  have inv: "hb_inv (hbmap s)" "hb_writer (hbmap s) = None" "hb_of s t \<in> set (m_workers (hbmap s))"
    using assms(2,3) by (simp_all add: hb_rel_def)
  show ?thesis using remove_worker_run [OF inv, of t "we_bt e"] True
    by (auto simp: worker_loop_def with_hb_def)
next
  case False
  have old: "join_old_threads s = Ret () s" using assms(1) by (simp add: join_old_threads_def)
  have sleep: "\<exists>s'. worker_sleep e t s = Ret () s'" by (rule worker_sleep_returns [OF assms(2-4)])
  show ?thesis
  proof (cases "work_queues s = [] \<or> tp_pause s \<noteq> 0")
    case True
    then show ?thesis using sleep old False by (auto simp: worker_loop_def)
  next
    case scan: False
    obtain r x where x: "scan_queues test_ops (2 * length (work_queues s)) s = Ret r x" using scan_returns by blast
    show ?thesis
    proof (cases r)
      case None
      then obtain k where "x = s\<lparr>next_work_queue := k\<rparr>"
        using scan_queues_Ret [OF x] scan by auto
      then have "\<exists>s'. worker_sleep e t x = Ret () s'" using assms(2-4) by (intro worker_sleep_returns) simp_all
      then show ?thesis using x None scan False old by (auto simp: worker_loop_def)
    qed (use x scan False old in \<open>simp add: worker_loop_def\<close>)
  qed
qed

lemma worker_enter_returns:
  assumes "tp_old_threads s = []" "hb_ok s" "tp_pc s t = W_new" "hb_in_time (hbmap s) (we_now e)"
  shows "\<exists>s'. worker_enter test_ops e t s = Ret () s'"
proof -
  let ?n = "tp_name s @ '' thread '' @ we_name e"
  have "hb_inv (hbmap s)" "hb_writer (hbmap s) = None" using assms(2) by (simp_all add: hb_ok_def hb_rel_def)
  from add_worker_run [OF this, of t "we_bt e" ?n t] obtain m where
    m: "add_worker t (we_bt e) ?n t (hbmap s) = Ret (next_addr (hbmap s)) m"
    "handles m = (handles (hbmap s))(next_addr (hbmap s) \<mapsto> (new_handle ?n)\<lparr>hh_thread_id := t\<rparr>)" by blast
  let ?s = "s\<lparr>hbmap := m, hb_of := (hb_of s)(t := next_addr (hbmap s))\<rparr>"
  have "hb_rel m (hb_of ?s) (insert t (hb_threads s))"
    using add_worker_rel [OF m(1)] assms(2,3) by (simp add: hb_ok_def in_hb_threads)
  moreover have "hb_in_time m (we_now e)"
    using assms(4) by (auto simp: hb_in_time_def dead_def m(2) new_handle_def expired_def)
  ultimately have "\<exists>s'. worker_loop test_ops e t ?s = Ret () s'"
    using assms(1) by (intro worker_loop_returns [of _ "insert t (hb_threads s)"]) simp_all
  then show ?thesis using m(1) by (simp add: worker_enter_def with_hb_def)
qed

lemma worker_process_returns:
  assumes "hb_ok s" "tp_pc s t = W_got q" "to_process (wqs s q) \<noteq> []" "hb_in_time (hbmap s) (we_now e)"
  shows "\<exists>s'. worker_process e t q s = Ret () s'"
proof -
  have "t \<in> hb_threads s" using assms(2) by (simp add: in_hb_threads)
  from reset_returns [OF assms(1) [unfolded hb_ok_def] this assms(4)] obtain m where
    "reset_timeout (we_now e) (hb_of s t) (wq_grace (wqs s q)) (wq_suicide_grace (wqs s q)) (hbmap s) = Ret () m"
    by blast
  then show ?thesis using assms(3)
    by (simp add: worker_process_def reset_tp_timeout_def tp_handle_def TPHandle_ctor_def with_hb_def void_process_take_def assert_that_def)
qed

lemma worker_finish_returns:
  assumes "tp_old_threads s = []" "hb_ok s" "tp_pc s t = W_fin q" "to_finish (wqs s q) \<noteq> []"
    "hb_in_time (hbmap s) (we_now e)"
  shows "\<exists>s'. worker_finish test_ops e t q s = Ret () s'"
proof -
  have same: "hbmap (finish_item q s) = hbmap s" "hb_of (finish_item q s) = hb_of s"
    by (simp_all add: finish_item_def Let_def)
  have "worker_finish test_ops e t q s = worker_loop test_ops e t (finish_item q s)"
    using assms(4) by (simp add: worker_finish_def void_process_finish_def finish_item_def assert_that_def Let_def)
  moreover have "\<exists>s'. worker_loop test_ops e t (finish_item q s) = Ret () s'"
    using assms(1-3,5)
    by (intro worker_loop_returns [of _ "hb_threads s"]) (simp_all add: same hb_ok_def in_hb_threads)
  ultimately show ?thesis by simp
qed

end
