(* ===== verification/Schedule.thy ===== *)
theory Schedule
  imports Prelude
begin

text \<open>
  Threads that take turns. A program gives the next section of every thread as a function that
  blocks when the thread has none; a schedule is a list of such turns. The interface \<open>schedule\<close>
  asks for a number that every turn lowers; both thread pools provide one. The interface
  \<open>thread_turns\<close> asks for such a number per thread. The interface
  \<open>simulation\<close> relates a step relation to a more abstract one, again for both pools.
\<close>

fun run_turns ::
  "('e \<Rightarrow> 't \<Rightarrow> 's \<Rightarrow> (unit, 's) outcome) \<Rightarrow> ('e \<times> 't) list \<Rightarrow> 's \<Rightarrow> (unit, 's) outcome" where
  "run_turns turn [] s = Ret () s"
| "run_turns turn (x # xs) s = bind (turn (fst x) (snd x) s) (\<lambda>_ s. run_turns turn xs s)"

definition no_turn :: "('e \<Rightarrow> 't \<Rightarrow> 's \<Rightarrow> (unit, 's) outcome) \<Rightarrow> 'e \<Rightarrow> 's \<Rightarrow> bool" where
  "no_turn turn e s \<longleftrightarrow> (\<forall>t s'. turn e t s \<noteq> Ret () s')"

lemma run_turns_steps:
  assumes "\<And>e t s s'. turn e t s = Ret () s' \<Longrightarrow> step s s'" "run_turns turn xs s = Ret () s'"
  shows "step\<^sup>*\<^sup>* s s'"
  using assms(2)
proof (induction xs arbitrary: s)
  case (Cons x xs)
  obtain s1 where "turn (fst x) (snd x) s = Ret () s1" "run_turns turn xs s1 = Ret () s'"
    using Cons.prems by (auto simp: bind_eq_Ret_iff)
  then show ?case using Cons.IH assms(1) by (metis converse_rtranclp_into_rtranclp)
qed simp

locale schedule =
  fixes turn :: "'e \<Rightarrow> 't \<Rightarrow> 's \<Rightarrow> (unit, 's) outcome" and good :: "'s \<Rightarrow> bool" and left :: "'s \<Rightarrow> nat"
  assumes turn_good: "turn e t s = Ret () s' \<Longrightarrow> good s \<Longrightarrow> good s'"
    and turn_left: "turn e t s = Ret () s' \<Longrightarrow> good s \<Longrightarrow> left s' < left s"
begin

lemma run_bound:
  assumes "run_turns turn xs s = Ret () s'" "good s"
  shows "good s' \<and> length xs + left s' \<le> left s"
  using assms
proof (induction xs arbitrary: s)
  case (Cons x xs)
  obtain s1 where s1: "turn (fst x) (snd x) s = Ret () s1" "run_turns turn xs s1 = Ret () s'"
    using Cons.prems(1) by (auto simp: bind_eq_Ret_iff)
  show ?case
    using Cons.IH [OF s1(2) turn_good [OF s1(1) Cons.prems(2)]] turn_left [OF s1(1) Cons.prems(2)] by simp
qed simp

text \<open>From every state there is a schedule after which no thread has a turn.\<close>

lemma schedule_exists:
  assumes "good s"
  shows "\<exists>xs s'. run_turns turn xs s = Ret () s' \<and> no_turn turn e s'"
  using assms
proof (induction "left s" arbitrary: s rule: less_induct)
  case less
  show ?case
  proof (cases "no_turn turn e s")
    case True
    then show ?thesis by (intro exI [of _ "[]"]) simp
  next
    case False
    then obtain t s1 where t: "turn e t s = Ret () s1" by (auto simp: no_turn_def)
    obtain xs s' where "run_turns turn xs s1 = Ret () s'" "no_turn turn e s'"
      using less.hyps [OF turn_left [OF t less.prems] turn_good [OF t less.prems]] by blast
    then show ?thesis using t by (intro exI [of _ "(e, t) # xs"]) simp
  qed
qed

end

section \<open>The turns of one thread\<close>

definition turns_by :: "'t \<Rightarrow> ('e \<times> 't) list \<Rightarrow> nat" where
  "turns_by t xs = length (filter (\<lambda>x. snd x = t) xs)"

text \<open>Each thread has a number of its own that its turns lower and no other's raise.\<close>

locale thread_turns =
  fixes turn :: "'e \<Rightarrow> 't \<Rightarrow> 's \<Rightarrow> (unit, 's) outcome" and good :: "'s \<Rightarrow> bool" and share :: "'s \<Rightarrow> 't \<Rightarrow> nat"
  assumes share_good: "turn e t s = Ret () s' \<Longrightarrow> good s \<Longrightarrow> good s'"
    and share_own: "turn e t s = Ret () s' \<Longrightarrow> good s \<Longrightarrow> share s' t < share s t"
    and share_other: "turn e t s = Ret () s' \<Longrightarrow> good s \<Longrightarrow> u \<noteq> t \<Longrightarrow> share s' u \<le> share s u"
begin

lemma turns_bound:
  assumes "run_turns turn xs s = Ret () s'" "good s"
  shows "turns_by t xs + share s' t \<le> share s t"
  using assms
proof (induction xs arbitrary: s)
  case (Cons x xs)
  obtain s1 where s1: "turn (fst x) (snd x) s = Ret () s1" "run_turns turn xs s1 = Ret () s'"
    using Cons.prems(1) by (auto simp: bind_eq_Ret_iff)
  have "turns_by t xs + share s' t \<le> share s1 t"
    by (rule Cons.IH [OF s1(2) share_good [OF s1(1) Cons.prems(2)]])
  then show ?case
    using share_own [OF s1(1) Cons.prems(2)] share_other [OF s1(1) Cons.prems(2), of t]
    by (cases "snd x = t") (auto simp: turns_by_def)
qed (simp add: turns_by_def)

end

text \<open>A sum over threads drops when one thread's share drops and no other's grows.\<close>

lemma sum_drops:
  fixes f g :: "'a \<Rightarrow> nat"
  assumes "finite A" "t \<in> A" "g t < f t" "\<And>u. u \<in> A \<Longrightarrow> u \<noteq> t \<Longrightarrow> g u \<le> f u"
  shows "sum g A < sum f A"
proof (rule sum_strict_mono_ex1 [OF assms(1)])
  show "\<forall>u\<in>A. g u \<le> f u" using assms(3,4) less_imp_le by metis
qed (use assms(2,3) in blast)

section \<open>Simulations\<close>

locale simulation =
  fixes cstep :: "'c \<Rightarrow> 'c \<Rightarrow> bool" and cinv :: "'c \<Rightarrow> bool" and astep :: "'a \<Rightarrow> 'a \<Rightarrow> bool" and abs :: "'c \<Rightarrow> 'a"
  assumes step_inv: "cinv s \<Longrightarrow> cstep s s' \<Longrightarrow> cinv s'"
    and step_sim: "cinv s \<Longrightarrow> cstep s s' \<Longrightarrow> astep\<^sup>*\<^sup>* (abs s) (abs s')"
begin

lemma run_sim:
  assumes "cstep\<^sup>*\<^sup>* s s'" "cinv s"
  shows "cinv s'" "astep\<^sup>*\<^sup>* (abs s) (abs s')"
proof -
  have "cinv s' \<and> astep\<^sup>*\<^sup>* (abs s) (abs s')"
    using assms by (induction rule: rtranclp_induct) (auto intro: step_inv rtranclp_trans [OF _ step_sim])
  then show "cinv s'" "astep\<^sup>*\<^sup>* (abs s) (abs s')" by simp_all
qed

text \<open>What holds of every state the abstract machine reaches holds of the concrete one.\<close>

lemma transfer:
  assumes "cstep\<^sup>*\<^sup>* s s'" "cinv s" "P (abs s)" "\<And>w w'. P w \<Longrightarrow> astep w w' \<Longrightarrow> P w'"
  shows "P (abs s')"
  using run_sim(2) [OF assms(1,2)] by (induction rule: rtranclp_induct) (use assms(3,4) in auto)

end

end
