(* ===== verification/Threadpool_Live.thy ===== *)
theory Threadpool_Live
  imports Threadpool_Heartbeat Schedule
begin

text \<open>
  Progress of the thread pool. A worker runs from section to section (\<open>worker_turn\<close>); a schedule
  is a list of such turns. Every schedule is finite, with a bound that can be read off the
  state, and at its end all the work of the registered queues is done. A \<^verbatim>\<open>drain()\<close> returns only when that is so.
\<close>

section \<open>Turns of the workers\<close>

text \<open>
  The next section of worker \<open>t\<close>, whichever it is, and \<^verbatim>\<open>_process\<close> returning. A worker asleep in
  \<^verbatim>\<open>_cond\<close> and a thread that is not a worker have none.
\<close>

definition worker_turn ::
  "('q, 'u) wq_ops \<Rightarrow> wenv \<Rightarrow> tid \<Rightarrow> ('q, 'u) ThreadPool \<Rightarrow> (unit, ('q, 'u) ThreadPool) outcome" where
  "worker_turn ops e t s =
     (case tp_pc s t of
        W_new \<Rightarrow> worker_enter ops e t s
      | W_sleep \<Rightarrow> if t \<in> set (tp_cond s) then Block s else worker_loop ops e t s
      | W_got q \<Rightarrow> worker_process e t q s
      | W_proc q u \<Rightarrow> Ret () (goto_point t (W_fin q) (void_process_put q u s))
      | W_fin q \<Rightarrow> worker_finish ops e t q s
      | _ \<Rightarrow> Block s)"

lemma worker_turn_step: "worker_turn ops e t s = Ret () s' \<Longrightarrow> tpstep ops s s'"
  by (cases "tp_pc s t") (auto simp: worker_turn_def split: if_splits intro: tpstep.intros)

text \<open>
  The three kinds of turn: a pass of the loop from a state \<open>x\<close> in which the worker stands at its
  head, taking an item, and the return of \<^verbatim>\<open>_process\<close>.
\<close>

definition at_head :: "tid \<Rightarrow> ('q, 'u) ThreadPool \<Rightarrow> ('q, 'u) ThreadPool \<Rightarrow> bool" where
  "at_head t s x \<longleftrightarrow>
     (tp_pc s t = W_new \<and> (\<exists>h y. x = goto_point t W_sleep (s\<lparr>hbmap := h, hb_of := y\<rparr>))) \<or>
     (tp_pc s t = W_sleep \<and> t \<notin> set (tp_cond s) \<and> x = s) \<or>
     (\<exists>q. tp_pc s t = W_fin q \<and> x = goto_point t W_sleep (finish_item q s))"

lemma worker_turn_cases:
  assumes "worker_turn ops e t s = Ret () s'" "tp_old_threads s = []"
  obtains (loop) x where "at_head t s x" "loop_effect ops t x s'"
  | (take) q u us h where "tp_pc s t = W_got q" "to_process (wqs s q) = u # us"
      "s' = goto_point t (W_proc q u) (upd_wq q (\<lambda>w. w\<lparr>to_process := us\<rparr>) (s\<lparr>hbmap := h\<rparr>))"
  | (put) q u where "tp_pc s t = W_proc q u" "s' = goto_point t (W_fin q) (void_process_put q u s)"
proof (cases "tp_pc s t")
  case W_new
  then have "worker_enter ops e t s = Ret () s'" using assms(1) by (simp add: worker_turn_def)
  then obtain h y where "worker_loop ops e t (s\<lparr>hbmap := h, hb_of := y\<rparr>) = Ret () s'"
    using worker_enter_Ret by blast
  then have "loop_effect ops t (goto_point t W_sleep (s\<lparr>hbmap := h, hb_of := y\<rparr>)) s'"
    unfolding loop_effect_goto using assms(2) by (intro worker_loop_effect) simp_all
  then show ?thesis using W_new by (intro loop) (auto simp: at_head_def)
next
  case W_sleep
  then have "worker_loop ops e t s = Ret () s'" "t \<notin> set (tp_cond s)"
    using assms(1) by (simp_all add: worker_turn_def split: if_splits)
  then show ?thesis using W_sleep worker_loop_effect assms(2) by (intro loop) (auto simp: at_head_def)
next
  case (W_got q)
  then have "worker_process e t q s = Ret () s'" using assms(1) by (simp add: worker_turn_def)
  then show ?thesis using worker_process_Ret W_got take by blast
next
  case (W_proc q u)
  then show ?thesis using assms(1) put by (simp add: worker_turn_def)
next
  case (W_fin q)
  then have "worker_loop ops e t (finish_item q s) = Ret () s'"
    using assms(1) worker_finish_Ret by (fastforce simp: worker_turn_def)
  then have "loop_effect ops t (goto_point t W_sleep (finish_item q s)) s'"
    unfolding loop_effect_goto using assms(2) by (intro worker_loop_effect) simp_all
  then show ?thesis using W_fin by (intro loop) (auto simp: at_head_def)
qed (use assms(1) in \<open>simp_all add: worker_turn_def\<close>)

section \<open>A bound on the turns\<close>

fun turns :: "'u tpoint \<Rightarrow> nat" where
  "turns W_new = 1"
| "turns W_sleep = 1"
| "turns (W_got q) = 3"
| "turns (W_proc q u) = 2"
| "turns (W_fin q) = 1"
| "turns _ = 0"

definition turns_left :: "('q, 'u) ThreadPool \<Rightarrow> nat" where
  "turns_left s = (\<Sum>t | tp_pc s t \<noteq> Outside. if t \<in> set (tp_cond s) then 0 else turns (tp_pc s t))"

definition items_left :: "('q \<Rightarrow> 'u multiset) \<Rightarrow> ('q, 'u) ThreadPool \<Rightarrow> nat" where
  "items_left contents s = (\<Sum>q \<in> set (work_queues s). size (contents (wq_items (wqs s q))))"

definition work_left :: "('q \<Rightarrow> 'u multiset) \<Rightarrow> ('q, 'u) ThreadPool \<Rightarrow> nat" where
  "work_left contents s = 3 * items_left contents s + turns_left s"

lemma sum_one_changed:
  fixes f g :: "'a \<Rightarrow> nat"
  assumes "finite A" "t \<in> A" "\<And>u. u \<in> A \<Longrightarrow> u \<noteq> t \<Longrightarrow> g u = f u"
  shows "sum g A + f t = sum f A + g t"
proof -
  have "sum g (A - {t}) = sum f (A - {t})" using assms(3) by (intro sum.cong) auto
  then show ?thesis using sum.remove [OF assms(1,2), of f] sum.remove [OF assms(1,2), of g] by simp
qed

lemma turns_left_move:
  assumes "fin_pc (tp_pc s)" "tp_pc s t \<noteq> Outside" "p \<noteq> Outside" "t \<notin> set (tp_cond s)"
    "tp_pc s' = (tp_pc s)(t := p)" "set (tp_cond s') - {t} = set (tp_cond s)"
  shows "turns_left s' + turns (tp_pc s t) =
    turns_left s + (if t \<in> set (tp_cond s') then 0 else turns p)"
proof -
  let ?A = "{u. tp_pc s u \<noteq> Outside}"
  let ?f = "\<lambda>u. if u \<in> set (tp_cond s) then 0 else turns (tp_pc s u)"
  let ?g = "\<lambda>u. if u \<in> set (tp_cond s') then 0 else turns (tp_pc s' u)"
  have "{u. tp_pc s' u \<noteq> Outside} = ?A" using assms(2,3,5) by auto
  moreover have "sum ?g ?A + ?f t = sum ?f ?A + ?g t"
    using assms by (intro sum_one_changed) (auto simp: fin_pc_def)
  ultimately show ?thesis using assms(4,5) by (simp add: turns_left_def)
qed

lemma items_left_same:
  assumes "work_queues s' = work_queues s" "\<And>q. wq_items (wqs s' q) = wq_items (wqs s q)"
  shows "items_left contents s' = items_left contents s"
  using assms by (simp add: items_left_def)

lemma items_left_changed:
  assumes "work_queues s' = work_queues s" "q \<in> set (work_queues s)"
    "\<And>p. p \<noteq> q \<Longrightarrow> wq_items (wqs s' p) = wq_items (wqs s p)"
  shows "items_left contents s' + size (contents (wq_items (wqs s q))) =
    items_left contents s + size (contents (wq_items (wqs s' q)))"
  unfolding items_left_def assms(1) using assms(2,3) by (intro sum_one_changed) simp_all

lemma at_head_fields:
  assumes "at_head t s x"
  shows "tp_pc x = (tp_pc s)(t := W_sleep)" "tp_cond x = tp_cond s" "work_queues x = work_queues s"
    "wq_items (wqs x q) = wq_items (wqs s q)" "tp_stop x = tp_stop s" "tp_pause x = tp_pause s"
    "tp_cleared x = tp_cleared s" "tp_queued x = tp_queued s" "turns (tp_pc s t) = 1" "tp_pc s t \<noteq> Outside"
proof -
  consider (enter) h y where "tp_pc s t = W_new" "x = goto_point t W_sleep (s\<lparr>hbmap := h, hb_of := y\<rparr>)"
    | (awake) "tp_pc s t = W_sleep" "x = s"
    | (finish) p where "tp_pc s t = W_fin p" "x = goto_point t W_sleep (finish_item p s)"
    using assms unfolding at_head_def by blast
  then have "tp_pc x = (tp_pc s)(t := W_sleep) \<and> tp_cond x = tp_cond s \<and> work_queues x = work_queues s \<and>
    wq_items (wqs x q) = wq_items (wqs s q) \<and> tp_stop x = tp_stop s \<and> tp_pause x = tp_pause s \<and>
    tp_cleared x = tp_cleared s \<and> tp_queued x = tp_queued s \<and> turns (tp_pc s t) = 1 \<and> tp_pc s t \<noteq> Outside"
    by cases (simp_all add: fun_upd_idem)
  then show "tp_pc x = (tp_pc s)(t := W_sleep)" "tp_cond x = tp_cond s" "work_queues x = work_queues s"
    "wq_items (wqs x q) = wq_items (wqs s q)" "tp_stop x = tp_stop s" "tp_pause x = tp_pause s"
    "tp_cleared x = tp_cleared s" "tp_queued x = tp_queued s" "turns (tp_pc s t) = 1" "tp_pc s t \<noteq> Outside"
    by blast+
qed

lemma at_head_notin:
  assumes "at_head t s x" "tp_inv ops contents s"
  shows "t \<notin> set (tp_cond s)"
  using assms tp_inv_notin(1) [OF assms(2), of t] by (auto simp: at_head_def)

context work_queue
begin

lemma loop_work_left:
  assumes "loop_effect ops t x s'" "fin_pc (tp_pc x)" "tp_pc x t = W_sleep" "t \<notin> set (tp_cond x)"
  shows "work_left contents s' < work_left contents x"
proof -
  note move = turns_left_move [OF assms(2) _ _ assms(4), where s' = s']
  consider (exit) h where "s' = goto_point t W_exit (x\<lparr>hbmap := h\<rparr>)"
    | (sleep) h k where "s' = goto_point t W_sleep (x\<lparr>next_work_queue := k, hbmap := h, tp_cond := tp_cond x @ [t]\<rparr>)"
    | (got) q u c k where "q \<in> set (work_queues x)" "\<not> pool_empty ops x q"
      "op_dequeue ops (wq_items (wqs x q)) = Some (u, c)" "s' = goto_point t (W_got q)
          ((take_item q u c (x\<lparr>next_work_queue := k\<rparr>))\<lparr>processing := processing x + 1\<rparr>)"
    using assms(1) unfolding loop_effect_def by blast
  then show ?thesis
  proof cases
    case exit
    then have "turns_left s' + 1 = turns_left x" using move [of W_exit] assms(3,4) by simp
    moreover have "items_left contents s' = items_left contents x"
      using exit by (intro items_left_same) simp_all
    ultimately show ?thesis by (simp add: work_left_def)
  next
    case sleep
    then have "turns_left s' + 1 = turns_left x" using move [of W_sleep] assms(3,4) by simp
    moreover have "items_left contents s' = items_left contents x"
      using sleep by (intro items_left_same) simp_all
    ultimately show ?thesis by (simp add: work_left_def)
  next
    case got
    then have "turns_left s' = turns_left x + 2"
      using move [of "W_got q"] assms(3,4) by (simp add: take_item_def)
    moreover have "items_left contents s' + size (contents (wq_items (wqs x q))) =
        items_left contents x + size (contents (wq_items (wqs s' q)))"
      using got(1,4) by (intro items_left_changed) (simp_all add: take_item_def)
    moreover have "size (contents (wq_items (wqs x q))) = size (contents (wq_items (wqs s' q))) + 1"
      using got dequeue_contents by (simp add: take_item_def pool_empty_def)
    ultimately show ?thesis by (simp add: work_left_def)
  qed
qed

lemma at_head_work_left:
  assumes "at_head t s x" "tp_inv ops contents s"
  shows "work_left contents x = work_left contents s"
proof -
  note f = at_head_fields [OF assms(1)]
  have "turns_left x + turns (tp_pc s t) = turns_left s + (if t \<in> set (tp_cond x) then 0 else turns (tp_pc x t))"
    unfolding f(1) fun_upd_same
    by (rule turns_left_move [OF tp_inv_fin [OF assms(2)] f(10) _ at_head_notin [OF assms] f(1)])
      (use f(2) at_head_notin [OF assms] in simp_all)
  then have "turns_left x = turns_left s" using f(1,2,9) at_head_notin [OF assms] by simp
  then show ?thesis using items_left_same [of x s contents] f(3,4) by (simp add: work_left_def)
qed

lemma worker_turn_work_left:
  assumes "worker_turn ops e t s = Ret () s'" "tp_inv ops contents s"
  shows "work_left contents s' < work_left contents s"
proof -
  note fin = tp_inv_fin [OF assms(2)] and out = tp_inv_notin(1) [OF assms(2), of t]
  have "tp_old_threads s = []" using assms(2) by (simp add: tp_inv_def sets_inv_def)
  from assms(1) this show ?thesis
  proof (cases rule: worker_turn_cases)
    case (loop x)
    then show ?thesis
      using loop_work_left [OF loop(2)] at_head_fields(1,2) [OF loop(1)] at_head_notin [OF loop(1) assms(2)] fin
        at_head_work_left [OF loop(1) assms(2)] by simp
  next
    case (take q u us h)
    then have "turns_left s' + 3 = turns_left s + 2"
      using turns_left_move [OF fin, of t "W_proc q u" s'] out by simp
    moreover have "items_left contents s' = items_left contents s"
      using take by (intro items_left_same) simp_all
    ultimately show ?thesis by (simp add: work_left_def)
  next
    case (put q u)
    then have "turns_left s' + 2 = turns_left s + 1"
      using turns_left_move [OF fin, of t "W_fin q" s'] out by (simp add: void_process_put_def)
    moreover have "items_left contents s' = items_left contents s"
      using put by (intro items_left_same) (simp_all add: void_process_put_def)
    ultimately show ?thesis by (simp add: work_left_def)
  qed
qed

end

interpretation tpw: schedule "worker_turn test_ops" "tp_inv test_ops mset" "work_left mset"
  by unfold_locales (use tq.tpstep_inv worker_turn_step tq.worker_turn_work_left in blast)+

section \<open>When no worker has a turn left\<close>

lemma worker_turn_frame:
  assumes "worker_turn ops e t s = Ret () s'" "tp_old_threads s = []"
  shows "tp_pause s' = tp_pause s" "tp_stop s' = tp_stop s" "work_queues s' = work_queues s"
    "tp_cleared s' = tp_cleared s" "tp_queued s' = tp_queued s"
    "\<not> tp_stop s \<Longrightarrow> alive (tp_pc s u) \<Longrightarrow> alive (tp_pc s' u)"
proof -
  have "tp_pause s' = tp_pause s \<and> tp_stop s' = tp_stop s \<and> work_queues s' = work_queues s \<and>
    tp_cleared s' = tp_cleared s \<and> tp_queued s' = tp_queued s \<and>
    (\<not> tp_stop s \<and> alive (tp_pc s u) \<longrightarrow> alive (tp_pc s' u))"
    using assms
  proof (cases rule: worker_turn_cases)
    case (loop x)
    note f = at_head_fields [OF loop(1)]
    show ?thesis
      using loop(2) f(1-8) unfolding loop_effect_def take_item_def by (elim disjE exE conjE) (simp_all)
  qed (simp_all add: void_process_put_def)
  then show "tp_pause s' = tp_pause s" "tp_stop s' = tp_stop s" "work_queues s' = work_queues s"
    "tp_cleared s' = tp_cleared s" "tp_queued s' = tp_queued s"
    "\<not> tp_stop s \<Longrightarrow> alive (tp_pc s u) \<Longrightarrow> alive (tp_pc s' u)"
    by simp_all
qed

text \<open>What a schedule leaves alone; the pool is reachable and its heartbeats are in order.\<close>

definition running :: "('u list, 'u) ThreadPool \<Rightarrow> bool" where
  "running s \<longleftrightarrow> tp_reach s \<and> hb_ok s \<and> \<not> tp_cleared s \<and> tp_pause s = 0 \<and> \<not> tp_stop s \<and>
     (\<exists>w. alive (tp_pc s w))"

lemma running_old: "running s \<Longrightarrow> tp_old_threads s = []"
  using reach_parts(3) by (auto simp: running_def sets_inv_def)

lemma worker_turn_running:
  assumes "worker_turn test_ops e t s = Ret () s'" "running s"
  shows "running s' \<and> work_queues s' = work_queues s \<and> tp_queued s' = tp_queued s"
proof -
  note frame = worker_turn_frame [OF assms(1) running_old [OF assms(2)]]
  have step: "tpstep test_ops s s'" by (rule worker_turn_step [OF assms(1)])
  obtain w where "alive (tp_pc s w)" using assms(2) by (auto simp: running_def)
  then have "alive (tp_pc s' w)" using frame(6) assms(2) by (simp add: running_def)
  moreover have "tp_reach s'" "hb_ok s'"
    using assms(2) step tp_reach.step tpstep_hb by (auto simp: running_def)
  ultimately show ?thesis using frame(1-5) assms(2) by (auto simp: running_def)
qed

lemma run_workers_running:
  assumes "run_turns (worker_turn test_ops) xs s = Ret () s'" "running s"
  shows "running s' \<and> work_queues s' = work_queues s \<and> tp_queued s' = tp_queued s"
  using assms
proof (induction xs arbitrary: s)
  case (Cons x xs)
  obtain s1 where s1: "worker_turn test_ops (fst x) (snd x) s = Ret () s1"
    "run_turns (worker_turn test_ops) xs s1 = Ret () s'"
    using Cons.prems(1) by (auto simp: bind_eq_Ret_iff)
  show ?case using worker_turn_running [OF s1(1) Cons.prems(2)] Cons.IH [OF s1(2)] by simp
qed simp

lemma awake_has_turn:
  assumes "tp_reach s" "hb_ok s" "hb_in_time (hbmap s) (we_now e)" "alive (tp_pc s t)" "t \<notin> set (tp_cond s)"
  shows "\<exists>s'. worker_turn test_ops e t s = Ret () s'"
proof -
  note parts = reach_parts [OF assms(1)]
  have old: "tp_old_threads s = []" using parts(3) by (simp add: sets_inv_def)
  show ?thesis
  proof (cases "tp_pc s t")
    case W_new
    then show ?thesis using worker_enter_returns [OF old assms(2) _ assms(3)] by (simp add: worker_turn_def)
  next
    case W_sleep
    then show ?thesis
      using worker_loop_returns [OF old assms(2) [unfolded hb_ok_def] _ assms(3), of t] assms(5)
      by (simp add: worker_turn_def in_hb_threads)
  next
    case (W_got q)
    then show ?thesis
      using worker_process_returns [OF assms(2) W_got item_waiting(1) [OF parts(1) W_got] assms(3)]
      by (simp add: worker_turn_def)
  next
    case (W_fin q)
    then show ?thesis
      using worker_finish_returns [OF old assms(2) W_fin item_waiting(2) [OF parts(1) W_fin] assms(3)]
      by (simp add: worker_turn_def)
  qed (use assms(4) in \<open>simp_all add: worker_turn_def\<close>)
qed

lemma no_turn_idle:
  assumes "running s" "hb_in_time (hbmap s) (we_now e)" "no_turn (worker_turn test_ops) e s"
  shows "processing s = 0" "q \<in> set (work_queues s) \<Longrightarrow> wq_items (wqs s q) = []"
proof -
  have reach: "tp_reach s" and ok: "hb_ok s" using assms(1) by (simp_all add: running_def)
  note parts = reach_parts [OF reach]
  have asleep: "t \<in> set (tp_cond s)" if "alive (tp_pc s t)" for t
    using awake_has_turn [OF reach ok assms(2) that] assms(3) by (auto simp: no_turn_def)
  have "busy (tp_pc s t) = 0" for t
  proof (cases "alive (tp_pc s t)")
    case True
    then have "tp_pc s t = W_sleep" using asleep parts(3) by (simp add: sets_inv_def)
    then show ?thesis by simp
  qed (cases "tp_pc s t"; simp)
  then have "tot busy (tp_pc s) = 0" by (simp add: tot_def)
  then show "processing s = 0" using parts(1) by (simp add: counts_inv_def)
  assume q: "q \<in> set (work_queues s)"
  show "wq_items (wqs s q) = []"
  proof (rule ccontr)
    assume "wq_items (wqs s q) \<noteq> []"
    then have "work_pending test_ops s"
      using q assms(1) by (auto simp: work_pending_def running_def pool_empty_def test_ops_def)
    then have "\<exists>t. awake_worker s t" using parts(4) assms(1) by (auto simp: live_inv_def running_def)
    then show False using asleep by (auto simp: awake_worker_def)
  qed
qed

lemma no_turn_done:
  assumes "running s" "hb_in_time (hbmap s) (we_now e)" "no_turn (worker_turn test_ops) e s" "q \<in> set (work_queues s)"
  shows "tp_finished s q = tp_queued s q"
    "tp_pc s c = C_draining (Some q) \<Longrightarrow> c \<notin> set (tp_wait_cond s)"
    "tp_pc (drain_turn test_ops c (Some q) s) c = Outside"
proof -
  note idle = no_turn_idle(1) [OF assms(1-3)] no_turn_idle(2) [OF assms]
  have reach: "tp_reach s" "\<not> tp_cleared s" using assms(1) by (simp_all add: running_def)
  have quiet: "\<not> drain_waits test_ops (Some q) s" using idle by (simp add: drain_waits_def test_ops_def)
  show "tp_finished s q = tp_queued s q" using drained [OF reach quiet] by blast
  show "c \<notin> set (tp_wait_cond s)" if "tp_pc s c = C_draining (Some q)"
    using reach_parts(5) [OF reach(1)] reach(2) that quiet by (auto simp: wait_inv_def)
  show "tp_pc (drain_turn test_ops c (Some q) s) c = Outside" using quiet by (simp add: drain_turn_def)
qed

lemma run_tp_reach:
  assumes "(tpstep test_ops)\<^sup>*\<^sup>* (ThreadPool_ctor hb nm tn n g sg qs) s" "fresh_queues qs"
  shows "tp_reach s"
  using assms(1)
  by (induction rule: rtranclp_induct) (auto intro: tp_reach.intros assms(2))

lemma run_hb_ok:
  assumes "hb_inv hb" "hb_writer hb = None" "m_workers hb = []"
    "(tpstep ops)\<^sup>*\<^sup>* (ThreadPool_ctor hb nm tn n g sg qs) s"
  shows "hb_ok s"
  unfolding hb_ok_def using assms(1-3) by (intro tph.run_rel [OF assms(4)] tph.fresh_rel)
    (simp_all add: hb_threads_def ThreadPool_ctor_def)

section \<open>All queued work gets done\<close>

text \<open>
  C6: The pool finishes its work. Take any state of a pool built over a free heartbeat map
  in which the pool is neither paused nor stopping, was not stopped before, and has a worker,
  and let the workers run, in any order, with nothing else happening. They take at most
  \<open>work_left\<close> turns. When none of them has a turn left, and no suicide timeout has passed, then
  nothing is being processed, every registered queue is empty, every item ever queued on it is
  finished, and every caller waiting to drain it is awake and returns with its next turn.
\<close>
theorem pool_finishes_work:
  assumes "hb_inv hb" "hb_writer hb = None" "m_workers hb = []" "fresh_queues qs"
    and "(tpstep test_ops)\<^sup>*\<^sup>* (ThreadPool_ctor hb nm tn n g sg qs) s"
    and "\<not> tp_cleared s" "tp_pause s = 0" "\<not> tp_stop s" "alive (tp_pc s w)"
    and "run_turns (worker_turn test_ops) xs s = Ret () s'"
  shows "length xs \<le> work_left mset s \<and>
    (hb_in_time (hbmap s') (we_now e) \<and> (\<forall>t r. worker_turn test_ops e t s' \<noteq> Ret () r) \<longrightarrow>
      processing s' = 0 \<and> (\<forall>q \<in> set (work_queues s). wq_items (wqs s' q) = [] \<and>
        tp_finished s' q = tp_queued s q \<and>
        (\<forall>c. tp_pc s' c = C_draining (Some q) \<longrightarrow> c \<notin> set (tp_wait_cond s') \<and>
           tp_pc (drain_turn test_ops c (Some q) s') c = Outside)))"
proof (intro conjI impI)
  have run: "running s"
    using run_tp_reach [OF assms(5,4)] run_hb_ok [OF assms(1-3,5)] assms(6-9) by (auto simp: running_def)
  then show "length xs \<le> work_left mset s"
    using tpw.run_bound [OF assms(10) tp_reach_inv] by (auto simp: running_def)
  assume quiet: "hb_in_time (hbmap s') (we_now e) \<and> (\<forall>t r. worker_turn test_ops e t s' \<noteq> Ret () r)"
  then have "no_turn (worker_turn test_ops) e s'" "hb_in_time (hbmap s') (we_now e)" by (simp_all add: no_turn_def)
  moreover have "running s'" and same: "work_queues s' = work_queues s" "tp_queued s' = tp_queued s"
    using run_workers_running [OF assms(10) run] by simp_all
  ultimately have "processing s' = 0"
    "q \<in> set (work_queues s) \<Longrightarrow> wq_items (wqs s' q) = []"
    "q \<in> set (work_queues s) \<Longrightarrow> tp_finished s' q = tp_queued s q"
    "q \<in> set (work_queues s) \<Longrightarrow> tp_pc s' c = C_draining (Some q) \<Longrightarrow> c \<notin> set (tp_wait_cond s')"
    "q \<in> set (work_queues s) \<Longrightarrow> tp_pc (drain_turn test_ops c (Some q) s') c = Outside" for q c
    using no_turn_idle [of s' e] no_turn_done [of s' e] by simp_all
  then show "processing s' = 0" "\<forall>q \<in> set (work_queues s). wq_items (wqs s' q) = [] \<and>
        tp_finished s' q = tp_queued s q \<and>
        (\<forall>c. tp_pc s' c = C_draining (Some q) \<longrightarrow> c \<notin> set (tp_wait_cond s') \<and>
           tp_pc (drain_turn test_ops c (Some q) s') c = Outside)"
    by simp_all
qed

definition tp3 :: "(nat list, nat) ThreadPool" where
  "tp3 = goto_point 9 W_new (tp2\<lparr>tp_threads := [9]\<rparr>)"

lemma tp3_run: "(tpstep test_ops)\<^sup>*\<^sup>* tp0 tp3"
proof -
  have a: "tpstep test_ops tp0 (add_work_queue 0 tp0)"
    by (rule tpstep.add_queue) (simp add: tp0_def ThreadPool_ctor_def test_ops_def)
  have b: "tpstep test_ops (add_work_queue 0 tp0) tp1"
    unfolding tp1_def by (rule tpstep.queue) (simp add: tp0_def ThreadPool_ctor_def add_work_queue_def)
  have c: "tpstep test_ops tp1 tp2"
    unfolding tp2_def by (rule tpstep.drain) (simp add: tp1_def wq_queue_def notify_workers_def note_queued_def
        upd_wq_def add_work_queue_def tp0_def ThreadPool_ctor_def)
  have "tp_num_threads tp2 = 1" "tp_thread_name tp2 = ''tp''"
    by (simp_all add: tp2_def tp1_def wq_queue_def notify_workers_def note_queued_def upd_wq_def
        add_work_queue_def tp0_def ThreadPool_ctor_def tp_drain_call_def drain_turn_def goto_point_def)
  then have "tp_start [9] tp2 = Ret () tp3"
    by (simp add: tp3_def tp2_facts tp_start_def c_str_def assert_that_def goto_point_def)
  then have d: "tpstep test_ops tp2 tp3" by (intro tpstep.start [of "[9]"]) (simp_all add: tp2_facts)
  show ?thesis
    by (rule converse_rtranclp_into_rtranclp [OF a converse_rtranclp_into_rtranclp
          [OF b converse_rtranclp_into_rtranclp [OF c r_into_rtranclp [of "tpstep test_ops", OF d]]]])
qed

lemma tp3_facts:
  "\<not> tp_cleared tp3" "tp_pause tp3 = 0" "\<not> tp_stop tp3" "tp_pc tp3 9 = W_new" "work_queues tp3 = [0]"
  "tp_queued tp3 0 = {#42#}" "work_left mset tp3 = 4"
proof -
  have pc: "tp_pc tp3 = (\<lambda>_. Outside)(7 := C_draining (Some 0), 9 := W_new)"
    by (simp add: tp3_def tp2_facts)
  then have "{t. tp_pc tp3 t \<noteq> Outside} = {7, 9}" by auto
  moreover have f: "\<not> tp_cleared tp3" "tp_pause tp3 = 0" "\<not> tp_stop tp3" "work_queues tp3 = [0]"
    "tp_queued tp3 0 = {#42#}" "tp_cond tp3 = []" "wq_items (wqs tp3 0) = [42]"
    by (simp_all add: tp3_def tp2_def tp1_def wq_queue_def notify_workers_def note_queued_def upd_wq_def
        add_work_queue_def tp0_def ThreadPool_ctor_def tp_drain_call_def drain_turn_def drain_waits_def
        test_ops_def goto_point_def)
  ultimately show "work_left mset tp3 = 4"
    using pc by (simp add: work_left_def items_left_def turns_left_def)
  show "\<not> tp_cleared tp3" "tp_pause tp3 = 0" "\<not> tp_stop tp3" "tp_pc tp3 9 = W_new" "work_queues tp3 = [0]"
    "tp_queued tp3 0 = {#42#}" using f pc by simp_all
qed

theorem pool_finishes_work_witness:
  "\<exists>xs s'. run_turns (worker_turn test_ops) xs tp3 = Ret () s' \<and> length xs \<le> 4 \<and> processing s' = 0 \<and>
     tp_finished s' 0 = {#42#}"
proof -
  let ?e = "\<lparr>we_now = time_min, we_bt = bt_demo, we_name = ''9''\<rparr>"
  have qs: "fresh_queues (\<lambda>_. \<lparr>wq_name = [], wq_items = [], to_process = [], to_finish = [],
      wq_grace = 0, wq_suicide_grace = 0\<rparr>)" by (simp add: fresh_queues_def)
  have hb: "m_workers hb_demo = []" by (simp add: hb_demo_def HeartbeatMap_ctor_def)
  have inv: "tp_inv test_ops mset tp3"
    using run_tp_reach [OF tp3_run [unfolded tp0_def] qs] by (rule tp_reach_inv)
  obtain xs s' where xs: "run_turns (worker_turn test_ops) xs tp3 = Ret () s'" "no_turn (worker_turn test_ops) ?e s'"
    using tpw.schedule_exists [OF inv] by blast
  have "hb_in_time (hbmap s') (we_now ?e)" by (simp add: in_time_min)
  then have "length xs \<le> work_left mset tp3 \<and> processing s' = 0 \<and> tp_finished s' 0 = tp_queued tp3 0"
    using pool_finishes_work [OF hb_demo_inv hb qs tp3_run [unfolded tp0_def] tp3_facts(1-3) _ xs(1), of 9 ?e] xs(2)
    by (simp add: tp3_facts(4,5) no_turn_def)
  then show ?thesis using xs(1) tp3_facts(6,7) by (intro exI [of _ xs] exI [of _ s']) simp
qed

section \<open>\<^verbatim>\<open>drain()\<close>\<close>

lemma worker_turn_callers:
  assumes "worker_turn ops e t s = Ret () s'" "tp_old_threads s = []" "\<not> alive (tp_pc s c)"
  shows "tp_pc s' c = tp_pc s c"
proof -
  have "c \<noteq> t" using assms(1,3) by (cases "tp_pc s t") (auto simp: worker_turn_def)
  then have head: "at_head t s x \<Longrightarrow> tp_pc x c = tp_pc s c" for x
    by (auto simp: at_head_def finish_item_def Let_def)
  from assms(1,2) show ?thesis
  proof (cases rule: worker_turn_cases)
    case (loop x)
    then show ?thesis using head [OF loop(1)] \<open>c \<noteq> t\<close> by (auto simp: loop_effect_def take_item_def)
  qed (use \<open>c \<noteq> t\<close> in \<open>simp_all add: void_process_put_def\<close>)
qed

lemma run_workers_callers:
  assumes "run_turns (worker_turn test_ops) xs s = Ret () s'" "running s" "\<not> alive (tp_pc s c)"
  shows "tp_pc s' c = tp_pc s c"
  using assms
proof (induction xs arbitrary: s)
  case (Cons x xs)
  obtain s1 where s1: "worker_turn test_ops (fst x) (snd x) s = Ret () s1"
    "run_turns (worker_turn test_ops) xs s1 = Ret () s'"
    using Cons.prems(1) by (auto simp: bind_eq_Ret_iff)
  have "tp_pc s1 c = tp_pc s c" by (rule worker_turn_callers [OF s1(1) running_old [OF Cons.prems(2)] Cons.prems(3)])
  then show ?case using worker_turn_running [OF s1(1) Cons.prems(2)] Cons.IH [OF s1(2)] Cons.prems(3) by simp
qed simp

text \<open>
  C5: \<^verbatim>\<open>drain()\<close>. Take any reachable state of a pool in which no \<^verbatim>\<open>stop()\<close> has cleared the queues so
  far, since a \<^verbatim>\<open>stop()\<close> drops the items that are still queued. When a call of \<^verbatim>\<open>drain()\<close> on a queue returns there, at
  once or after having waited, every item ever queued on that queue has been processed and finished, and no worker is
  processing an item of any queue.
\<close>
theorem drain_returns_when_done:
  assumes "tp_reach s" "\<not> tp_cleared s"
    and "(tp_pc s t = Outside \<and> s' = wq_drain test_ops t q s) \<or>
      (tp_pc s t = C_draining (Some q) \<and> t \<notin> set (tp_wait_cond s) \<and> s' = drain_turn test_ops t (Some q) s)"
    and "tp_pc s' t = Outside"
  shows "tp_finished s' q = tp_queued s' q \<and> (\<forall>u. busy (tp_pc s' u) = 0)"
  using drained [OF assms(1,2)] drain_returned [OF assms(3,4)] by auto

text \<open>Thread 7 waits in \<^verbatim>\<open>drain()\<close> for item 42; the worker processes the item, and the call returns.\<close>

theorem drain_returns_when_done_witness:
  "\<exists>xs s s'. tp_pc tp3 7 = C_draining (Some 0) \<and> drain_waits test_ops (Some 0) tp3 \<and>
     run_turns (worker_turn test_ops) xs tp3 = Ret () s \<and> s' = drain_turn test_ops 7 (Some 0) s \<and>
     tp_pc s' 7 = Outside \<and> tp_finished s' 0 = {#42#} \<and> busy (tp_pc s' 9) = 0"
proof -
  let ?e = "\<lparr>we_now = time_min, we_bt = bt_demo, we_name = ''9''\<rparr>"
  have qs: "fresh_queues (\<lambda>_. \<lparr>wq_name = [], wq_items = [], to_process = [], to_finish = [],
      wq_grace = 0, wq_suicide_grace = 0\<rparr>)" by (simp add: fresh_queues_def)
  have hb: "m_workers hb_demo = []" by (simp add: hb_demo_def HeartbeatMap_ctor_def)
  have reach: "tp_reach tp3" by (rule run_tp_reach [OF tp3_run [unfolded tp0_def] qs])
  have "hb_ok tp3" by (rule run_hb_ok [OF hb_demo_inv hb tp3_run [unfolded tp0_def]])
  then have run: "running tp3" using reach tp3_facts(1-4) by (auto simp: running_def intro!: exI [of _ 9])
  obtain xs s where xs: "run_turns (worker_turn test_ops) xs tp3 = Ret () s" "no_turn (worker_turn test_ops) ?e s"
    using tpw.schedule_exists [OF tp_reach_inv [OF reach]] by blast
  have s: "running s" "work_queues s = [0]" "tp_queued s 0 = {#42#}"
    using run_workers_running [OF xs(1) run] tp3_facts(5,6) by simp_all
  have pc3: "tp_pc tp3 7 = C_draining (Some 0)" "drain_waits test_ops (Some 0) tp3"
    by (simp_all add: tp3_def tp2_def tp1_def wq_queue_def notify_workers_def note_queued_def upd_wq_def
        add_work_queue_def tp0_def ThreadPool_ctor_def tp_drain_call_def drain_turn_def drain_waits_def
        test_ops_def goto_point_def)
  then have pc: "tp_pc s 7 = C_draining (Some 0)" using run_workers_callers [OF xs(1) run, of 7] by simp
  have "hb_in_time (hbmap s) (we_now ?e)" by (simp add: in_time_min)
  note end_state = no_turn_done [OF s(1) this xs(2), of 0]
  have out: "7 \<notin> set (tp_wait_cond s)" "tp_pc (drain_turn test_ops 7 (Some 0) s) 7 = Outside"
    using end_state(2,3) [of 7] s(2) pc by simp_all
  have keeps: "tp_queued (drain_turn test_ops 7 (Some 0) s) = tp_queued s" by (simp add: drain_turn_def)
  have "tp_finished (drain_turn test_ops 7 (Some 0) s) 0 = {#42#} \<and> busy (tp_pc (drain_turn test_ops 7 (Some 0) s) 9) = 0"
    using drain_returns_when_done [of s 7 "drain_turn test_ops 7 (Some 0) s" 0] s(1,3) pc out keeps by (simp add: running_def)
  then show ?thesis using pc3 xs(1) out(2) by blast
qed

text \<open>
  The destructor of a queue does not wait for the items a worker has taken from it: there is a run
  in which a queue is destroyed while a worker is about to process one of its items.
\<close>

lemma tp3_got:
  "\<exists>e s. worker_turn test_ops e 9 tp3 = Ret () s \<and> tp_pc s 9 = W_got 0 \<and> work_queues s = [0]"
proof -
  let ?e = "\<lparr>we_now = time_min, we_bt = bt_demo, we_name = ''9''\<rparr>"
  have qs: "fresh_queues (\<lambda>_. \<lparr>wq_name = [], wq_items = [], to_process = [], to_finish = [],
      wq_grace = 0, wq_suicide_grace = 0\<rparr>)" by (simp add: fresh_queues_def)
  have hb: "m_workers hb_demo = []" by (simp add: hb_demo_def HeartbeatMap_ctor_def)
  have reach: "tp_reach tp3" by (rule run_tp_reach [OF tp3_run [unfolded tp0_def] qs])
  have ok: "hb_ok tp3" by (rule run_hb_ok [OF hb_demo_inv hb tp3_run [unfolded tp0_def]])
  have out: "9 \<notin> set (tp_cond tp3)" using reach_parts(3) [OF reach] by (auto simp: sets_inv_def tp3_facts(4))
  have old: "tp_old_threads tp3 = []" using reach_parts(3) [OF reach] by (simp add: sets_inv_def)
  have item: "\<not> pool_empty test_ops tp3 0"
    using tp3_facts(7) by (auto simp: pool_empty_def work_left_def items_left_def test_ops_def tp3_def tp2_def
        tp1_def wq_queue_def notify_workers_def note_queued_def upd_wq_def add_work_queue_def tp_drain_call_def
        drain_turn_def goto_point_def)
  have "\<exists>s. worker_turn test_ops ?e 9 tp3 = Ret () s"
    by (rule awake_has_turn [OF reach ok _ _ out]) (simp_all add: in_time_min tp3_facts(4))
  then obtain s where s: "worker_turn test_ops ?e 9 tp3 = Ret () s" by blast
  from s old have "tp_pc s 9 = W_got 0"
  proof (cases rule: worker_turn_cases)
    case (loop x)
    have x: "work_queues x = [0]" "\<not> pool_empty test_ops x 0" "\<not> tp_stop x" "tp_pause x = 0"
      using at_head_fields(3-6) [OF loop(1)] tp3_facts(2,3,5) item by (simp_all add: pool_empty_def)
    then show ?thesis using loop(2) unfolding loop_effect_def take_item_def by auto
  qed (simp_all add: tp3_facts(4))
  then show ?thesis using s worker_turn_frame(3) [OF s old] tp3_facts(5) by auto
qed

lemma queue_destroyed_in_use:
  "\<exists>s :: (nat list, nat) ThreadPool. tp_reach s \<and> tp_pc s 9 = W_got 0 \<and> tp_reach (WorkQueueVal_dtor 0 s) \<and>
     work_queues (WorkQueueVal_dtor 0 s) = [] \<and> tp_pc (WorkQueueVal_dtor 0 s) 9 = W_got 0"
proof -
  obtain e s where s: "worker_turn test_ops e 9 tp3 = Ret () s" "tp_pc s 9 = W_got 0" "work_queues s = [0]"
    using tp3_got by blast
  have "tp_reach tp3"
    by (rule run_tp_reach [OF tp3_run [unfolded tp0_def]]) (simp add: fresh_queues_def)
  then have r: "tp_reach s" using worker_turn_step [OF s(1)] tp_reach.step by blast
  then have "tp_reach (WorkQueueVal_dtor 0 s)" using tp_reach.step tpstep.delete_queue by blast
  then show ?thesis
    using r s(2,3) by (intro exI [of _ s]) (simp add: WorkQueueVal_dtor_def remove_work_queue_def)
qed

end
