(* ===== verification/Threadpool_Spec.thy ===== *)
theory Threadpool_Spec
  imports Threadpool_Live
begin

text \<open>
  What the thread pool promises its clients, as a machine that knows nothing of workers, locks,
  condition variables or heartbeats: per queue the items that are pending, running and done, and
  where each caller of \<^verbatim>\<open>pause()\<close> and \<^verbatim>\<open>drain()\<close> is. Every step of the pool is a sequence of
  steps of this machine.
\<close>

section \<open>The abstract pool\<close>

datatype caller = Elsewhere | Pausing | Paused | Draining "nat option"

record 'u work_spec =
  ws_pending :: "nat \<Rightarrow> 'u multiset"
  ws_running :: "nat \<Rightarrow> 'u multiset"
  ws_done :: "nat \<Rightarrow> 'u multiset"
  ws_caller :: "tid \<Rightarrow> caller"

definition ws_start :: "'u work_spec" where
  "ws_start = \<lparr>ws_pending = (\<lambda>_. {#}), ws_running = (\<lambda>_. {#}), ws_done = (\<lambda>_. {#}), ws_caller = (\<lambda>_. Elsewhere)\<rparr>"

text \<open>
  An item is begun only while no caller is in \<^verbatim>\<open>pause()\<close> or between \<^verbatim>\<open>pause()\<close> and \<^verbatim>\<open>unpause()\<close>.
  \<^verbatim>\<open>pause()\<close> returns only when nothing runs, \<^verbatim>\<open>drain()\<close> when in addition its queue is empty.
  \<^verbatim>\<open>stop()\<close> drops the pending items of the queues \<open>Q\<close>, when nothing runs.
\<close>

inductive wwork :: "'u work_spec \<Rightarrow> 'u work_spec \<Rightarrow> bool" where
  begin_item: "ws_pending w q = add_mset u p \<Longrightarrow> \<forall>t. ws_caller w t \<noteq> Pausing \<and> ws_caller w t \<noteq> Paused \<Longrightarrow>
     wwork w (w\<lparr>ws_pending := (ws_pending w)(q := p),
                ws_running := (ws_running w)(q := add_mset u (ws_running w q))\<rparr>)"
| complete: "ws_running w q = add_mset u r \<Longrightarrow>
     wwork w (w\<lparr>ws_running := (ws_running w)(q := r),
                ws_done := (ws_done w)(q := add_mset u (ws_done w q))\<rparr>)"

definition submitted :: "nat \<Rightarrow> 'u \<Rightarrow> 'u work_spec \<Rightarrow> 'u work_spec" where
  "submitted q u w = w\<lparr>ws_pending := (ws_pending w)(q := add_mset u (ws_pending w q))\<rparr>"

inductive wspec :: "'u work_spec \<Rightarrow> 'u work_spec \<Rightarrow> bool" where
  work: "wwork w w' \<Longrightarrow> wspec w w'"
| submit: "wspec w (submitted q u w)"
| drop: "\<forall>q. ws_running w q = {#} \<Longrightarrow>
     wspec w (w\<lparr>ws_pending := (\<lambda>q. if q \<in> Q then {#} else ws_pending w q)\<rparr>)"
| pause: "ws_caller w t = Elsewhere \<Longrightarrow> wspec w (w\<lparr>ws_caller := (ws_caller w)(t := Pausing)\<rparr>)"
| paused: "ws_caller w t = Pausing \<Longrightarrow> \<forall>q. ws_running w q = {#} \<Longrightarrow>
     wspec w (w\<lparr>ws_caller := (ws_caller w)(t := Paused)\<rparr>)"
| unpause: "ws_caller w t = Paused \<Longrightarrow> wspec w (w\<lparr>ws_caller := (ws_caller w)(t := Elsewhere)\<rparr>)"
| drain: "ws_caller w t = Elsewhere \<Longrightarrow> wspec w (w\<lparr>ws_caller := (ws_caller w)(t := Draining wq)\<rparr>)"
| drained: "ws_caller w t = Draining wq \<Longrightarrow> \<forall>q. ws_running w q = {#} \<Longrightarrow>
     \<forall>q. wq = Some q \<longrightarrow> ws_pending w q = {#} \<Longrightarrow>
     wspec w (w\<lparr>ws_caller := (ws_caller w)(t := Elsewhere)\<rparr>)"

text \<open>At the abstract level a paused pool runs nothing.\<close>

definition paused_quiet :: "'u work_spec \<Rightarrow> bool" where
  "paused_quiet w \<longleftrightarrow> (\<forall>t q. ws_caller w t = Paused \<longrightarrow> ws_running w q = {#})"

lemma wwork_paused_quiet: "wwork w w' \<Longrightarrow> paused_quiet w \<Longrightarrow> paused_quiet w'"
  by (induction rule: wwork.induct) (auto simp: paused_quiet_def)

lemma wspec_paused_quiet: "wspec w w' \<Longrightarrow> paused_quiet w \<Longrightarrow> paused_quiet w'"
  by (induction rule: wspec.induct)
    (auto simp: paused_quiet_def submitted_def split: if_splits dest: wwork_paused_quiet [unfolded paused_quiet_def])

lemma work_runs: "wwork\<^sup>*\<^sup>* w w' \<Longrightarrow> wspec\<^sup>*\<^sup>* w w'"
  by (induction rule: rtranclp_induct) (auto intro: rtranclp.rtrancl_into_rtrancl wspec.work)

section \<open>The abstraction\<close>

fun caller_of :: "'u tpoint \<Rightarrow> caller" where
  "caller_of C_pausing = Pausing"
| "caller_of C_paused = Paused"
| "caller_of (C_draining wq) = Draining wq"
| "caller_of _ = Elsewhere"

definition pool_abs :: "('u list, 'u) ThreadPool \<Rightarrow> 'u work_spec" where
  "pool_abs s =
     \<lparr>ws_pending = (\<lambda>q. mset (wq_items (wqs s q))),
      ws_running = (\<lambda>q. mset (to_process (wqs s q)) + tot (in_hand q) (tp_pc s) + mset (to_finish (wqs s q))),
      ws_done = tp_finished s,
      ws_caller = (\<lambda>t. caller_of (tp_pc s t))\<rparr>"

lemma pool_abs_ctor: "fresh_queues qs \<Longrightarrow> pool_abs (ThreadPool_ctor hb nm tn n g sg qs) = ws_start"
  by (simp add: pool_abs_def ws_start_def fresh_queues_def ThreadPool_ctor_def)

lemma pool_abs_same:
  assumes "tp_pc s' = tp_pc s" "tp_finished s' = tp_finished s" "\<And>q. wq_items (wqs s' q) = wq_items (wqs s q)"
    "\<And>q. to_process (wqs s' q) = to_process (wqs s q)" "\<And>q. to_finish (wqs s' q) = to_finish (wqs s q)"
  shows "pool_abs s' = pool_abs s"
  using assms by (simp add: pool_abs_def)

lemma pool_abs_goto:
  assumes "fin_pc (tp_pc s)" "\<And>q. in_hand q p = in_hand q (tp_pc s t)" "caller_of p = caller_of (tp_pc s t)"
  shows "pool_abs (goto_point t p s) = pool_abs s"
  using assms by (simp add: pool_abs_def tot_move_same fun_eq_iff)

lemma pool_abs_caller:
  assumes "fin_pc (tp_pc s)" "\<And>q. in_hand q p = in_hand q (tp_pc s t)"
  shows "pool_abs (goto_point t p s) = (pool_abs s)\<lparr>ws_caller := (ws_caller (pool_abs s))(t := caller_of p)\<rparr>"
  using assms by (simp add: pool_abs_def tot_move_same fun_eq_iff)

lemma nothing_runs:
  assumes "counts_inv s" "processing s = 0"
  shows "ws_running (pool_abs s) q = {#}"
  using idle_queues [OF assms] by (simp add: pool_abs_def)

section \<open>The workers\<close>

lemma loop_sim:
  assumes "loop_effect test_ops t x s'" "tp_inv test_ops mset x" "tp_pc x t = W_sleep"
  shows "wwork\<^sup>*\<^sup>* (pool_abs x) (pool_abs s')"
proof -
  note fin = tp_inv_fin [OF assms(2)]
  have counts: "counts_inv x" using assms(2) by (simp add: tp_inv_def)
  consider (idle) p y where "s' = goto_point t p y" "pool_abs y = pool_abs x" "tp_pc y = tp_pc x" "p = W_exit \<or> p = W_sleep"
    | (got) q u c k where "tp_pause x = 0" "q \<in> set (work_queues x)" "\<not> pool_empty test_ops x q"
      "op_dequeue test_ops (wq_items (wqs x q)) = Some (u, c)" "s' = goto_point t (W_got q)
          ((take_item q u c (x\<lparr>next_work_queue := k\<rparr>))\<lparr>processing := processing x + 1\<rparr>)"
    using assms(1) unfolding loop_effect_def by (elim disjE conjE exE) (fastforce intro: pool_abs_same)+
  then show ?thesis
  proof cases
    case idle
    then have "pool_abs s' = pool_abs x"
      using pool_abs_goto [of y p t] fin assms(3) by auto
    then show ?thesis by simp
  next
    case got
    have pending: "ws_pending (pool_abs x) q = add_mset u (mset c)"
      using got(3,4) tq.dequeue_contents by (simp add: pool_empty_def pool_abs_def)
    have "tot (in_hand p) ((tp_pc x)(t := W_got q)) = tot (in_hand p) (tp_pc x)" for p
      using assms(3) by (intro tot_move_same [OF fin]) simp_all
    then have "pool_abs s' = (pool_abs x)\<lparr>ws_pending := (ws_pending (pool_abs x))(q := mset c),
        ws_running := (ws_running (pool_abs x))(q := add_mset u (ws_running (pool_abs x) q))\<rparr>"
      using got(5) assms(3) by (simp add: pool_abs_def take_item_def fun_eq_iff)
    moreover have "ws_caller (pool_abs x) v \<noteq> Pausing \<and> ws_caller (pool_abs x) v \<noteq> Paused" for v
      using no_paused [OF counts got(1), of v] by (cases "tp_pc x v") (simp_all add: pool_abs_def)
    ultimately have "wwork (pool_abs x) (pool_abs s')" using wwork.begin_item [OF pending] by simp
    then show ?thesis by blast
  qed
qed

lemma finish_sim:
  assumes "tp_inv test_ops mset s" "tp_pc s t = W_fin q"
  shows "wwork (pool_abs s) (pool_abs (goto_point t W_sleep (finish_item q s)))"
proof -
  note fin = tp_inv_fin [OF assms(1)]
  have "counts_inv s" using assms(1) by (simp add: tp_inv_def)
  then obtain u us where us: "to_finish (wqs s q) = u # us"
    using item_waiting(2) assms(2) by (metis neq_Nil_conv)
  let ?r = "mset (to_process (wqs s q)) + tot (in_hand q) (tp_pc s) + mset us"
  have "tot (in_hand p) ((tp_pc s)(t := W_sleep)) = tot (in_hand p) (tp_pc s)" for p
    using assms(2) by (intro tot_move_same [OF fin]) simp_all
  then have "pool_abs (goto_point t W_sleep (finish_item q s)) =
      (pool_abs s)\<lparr>ws_running := (ws_running (pool_abs s))(q := ?r),
        ws_done := (ws_done (pool_abs s))(q := add_mset u (ws_done (pool_abs s) q))\<rparr>"
    using us assms(2) by (simp add: pool_abs_def fun_eq_iff)
  moreover have "ws_running (pool_abs s) q = add_mset u ?r" using us by (simp add: pool_abs_def)
  ultimately show ?thesis by (simp only: wwork.complete)
qed

lemma head_sim:
  assumes "at_head t s x" "tp_inv test_ops mset s"
  shows "wwork\<^sup>*\<^sup>* (pool_abs s) (pool_abs x)" "tp_inv test_ops mset x"
proof -
  note fin = tp_inv_fin [OF assms(2)]
  consider (enter) h y where "tp_pc s t = W_new" "x = goto_point t W_sleep (s\<lparr>hbmap := h, hb_of := y\<rparr>)"
    | (awake) "x = s" | (finish) q where "tp_pc s t = W_fin q" "x = goto_point t W_sleep (finish_item q s)"
    using assms(1) unfolding at_head_def by blast
  then have "wwork\<^sup>*\<^sup>* (pool_abs s) (pool_abs x) \<and> tp_inv test_ops mset x"
  proof cases
    case enter
    have "pool_abs x = pool_abs (s\<lparr>hbmap := h, hb_of := y\<rparr>)"
      using enter fin by (simp add: pool_abs_goto)
    also have "\<dots> = pool_abs s" by (rule pool_abs_same) simp_all
    finally show ?thesis using enter inv_entered [OF assms(2)] by simp
  next
    case finish
    then show ?thesis using finish_sim [OF assms(2)] inv_finish [OF assms(2)] by blast
  qed (use assms(2) in simp)
  then show "wwork\<^sup>*\<^sup>* (pool_abs s) (pool_abs x)" "tp_inv test_ops mset x" by simp_all
qed

lemma worker_turn_sim:
  assumes "worker_turn test_ops e t s = Ret () s'" "tp_inv test_ops mset s"
  shows "wwork\<^sup>*\<^sup>* (pool_abs s) (pool_abs s')"
proof -
  note fin = tp_inv_fin [OF assms(2)]
  have "tp_old_threads s = []" using assms(2) by (simp add: tp_inv_def sets_inv_def)
  from assms(1) this show ?thesis
  proof (cases rule: worker_turn_cases)
    case (loop x)
    then show ?thesis
      using head_sim [OF loop(1) assms(2)] loop_sim [OF loop(2)] at_head_fields(1) [OF loop(1)]
      by (simp add: rtranclp_trans [of wwork])
  next
    case (take q u us h)
    have "tot (in_hand p) ((tp_pc s)(t := W_proc q u)) = tot (in_hand p) (tp_pc s) + (if p = q then {#u#} else {#})"
      for p using tot_move_up [OF fin, of "in_hand p" t "W_proc q u"] take(1) by simp
    then have "pool_abs s' = pool_abs s" using take by (simp add: pool_abs_def fun_eq_iff)
    then show ?thesis by simp
  next
    case (put q u)
    have "tot (in_hand p) (tp_pc s) = tot (in_hand p) ((tp_pc s)(t := W_fin q)) + (if p = q then {#u#} else {#})"
      for p using tot_move_down [OF fin, of "in_hand p" "W_fin q" t] put(1) by simp
    then have "pool_abs s' = pool_abs s" using put by (simp add: pool_abs_def fun_eq_iff void_process_put_def)
    then show ?thesis by simp
  qed
qed

section \<open>The callers\<close>

lemma start_threads_abs:
  assumes "start_threads ws s = Ret () s'" "fin_pc (tp_pc s)" "\<forall>w \<in> set ws. tp_pc s w = Outside" "distinct ws"
  shows "pool_abs s' = pool_abs s"
  using assms
proof (induction ws arbitrary: s)
  case (Cons w ws)
  let ?s = "goto_point w W_new (s\<lparr>tp_threads := tp_threads s @ [w]\<rparr>)"
  show ?case
  proof (cases "length (tp_threads s) < tp_num_threads s")
    case True
    then have "start_threads ws ?s = Ret () s'"
      using Cons.prems(1) by (auto simp: bind_eq_Ret_iff assert_that_def split: if_splits)
    moreover have "\<forall>v \<in> set ws. tp_pc ?s v = Outside" using Cons.prems(3,4) by auto
    ultimately have "pool_abs s' = pool_abs ?s" using Cons.prems(2,4)
      by (intro Cons.IH) (simp_all del: fun_upd_apply)
    also have "\<dots> = pool_abs (s\<lparr>tp_threads := tp_threads s @ [w]\<rparr>)"
      using Cons.prems by (intro pool_abs_goto) simp_all
    also have "\<dots> = pool_abs s" by (rule pool_abs_same) simp_all
    finally show ?thesis .
  qed (use Cons.prems(1) in simp)
qed (simp split: if_splits)

lemma clear_queues_test:
  "wq_items (wqs (clear_queues test_ops s) q) = (if q \<in> set (work_queues s) then [] else wq_items (wqs s q))"
  "tp_finished (clear_queues test_ops s) = tp_finished s"
proof -
  let ?f = "fold (\<lambda>q. upd_wq q (\<lambda>w. w\<lparr>wq_items := []\<rparr>))"
  have "wq_items (wqs (?f qs s) q) = (if q \<in> set qs then [] else wq_items (wqs s q)) \<and>
      tp_finished (?f qs s) = tp_finished s" for qs
    by (induction qs arbitrary: s) simp_all
  then show "wq_items (wqs (clear_queues test_ops s) q) =
      (if q \<in> set (work_queues s) then [] else wq_items (wqs s q))"
    "tp_finished (clear_queues test_ops s) = tp_finished s"
    by (simp_all add: clear_queues_def test_ops_def)
qed

lemma stop_finish_sim:
  assumes "tp_stop_finish test_ops t s = Ret () s'" "tp_pc s t = C_stopping" "tp_inv test_ops mset s"
  shows "wspec (pool_abs s) (pool_abs s')"
proof -
  note fin = tp_inv_fin [OF assms(3)]
  have parts: "counts_inv s" "sets_inv s" using assms(3) by (simp_all add: tp_inv_def)
  let ?c = "clear_queues test_ops (s\<lparr>tp_threads := []\<rparr>)"
  have s': "s' = goto_point t Outside (?c\<lparr>tp_stop := False, tp_cleared := True\<rparr>)"
    and exited: "\<forall>w \<in> set (tp_threads s). tp_pc s w = W_exit"
    using assms(1) by (auto simp: tp_stop_finish_def Let_def split: if_splits)
  have "busy (tp_pc s u) = 0" for u
  proof (cases "alive (tp_pc s u)")
    case True
    then have "u \<in> set (tp_threads s)" using parts(2) by (simp add: sets_inv_def)
    then show ?thesis using exited by simp
  qed (cases "tp_pc s u"; simp)
  then have "processing s = 0" using parts(1) by (simp add: counts_inv_def tot_def)
  then have idle: "ws_running (pool_abs s) q = {#}" for q using nothing_runs [OF parts(1)] by simp
  have cleared: "tp_pc ?c = tp_pc s" "tp_finished ?c = tp_finished s" "to_process (wqs ?c q) = to_process (wqs s q)"
    "to_finish (wqs ?c q) = to_finish (wqs s q)"
    "wq_items (wqs ?c q) = (if q \<in> set (work_queues s) then [] else wq_items (wqs s q))" for q
    by (simp_all add: clear_queues_fields clear_queues_test)
  have "tot (in_hand q) ((tp_pc s)(t := Outside)) = tot (in_hand q) (tp_pc s)" for q
    using assms(2) by (intro tot_move_same [OF fin]) simp_all
  then have hand: "tot (in_hand q) (\<lambda>u. if u = t then Outside else tp_pc s u) = tot (in_hand q) (tp_pc s)" for q
    unfolding fun_upd_def .
  have "pool_abs s' = (pool_abs s)\<lparr>ws_pending := (\<lambda>q. if q \<in> set (work_queues s) then {#}
      else ws_pending (pool_abs s) q)\<rparr>"
    by (intro work_spec.equality ext) (simp_all add: pool_abs_def s' cleared assms(2) fun_upd_def hand)
  then show ?thesis using wspec.drop [of "pool_abs s" "set (work_queues s)"] idle by simp
qed

lemma pause_turn_sim:
  assumes "tp_inv test_ops mset s" "tp_pc s t = C_pausing"
  shows "wspec\<^sup>*\<^sup>* (pool_abs s) (pool_abs (pause_turn t s))"
proof (cases "processing s = 0")
  case True
  have "counts_inv s" using assms(1) by (simp add: tp_inv_def)
  then have "\<forall>q. ws_running (pool_abs s) q = {#}" using nothing_runs True by blast
  then have "wspec (pool_abs s) ((pool_abs s)\<lparr>ws_caller := (ws_caller (pool_abs s))(t := Paused)\<rparr>)"
    by (intro wspec.paused) (simp_all add: pool_abs_def assms(2))
  then show ?thesis
    using True pool_abs_caller [OF tp_inv_fin [OF assms(1)], of C_paused t] assms(2) by (simp add: pause_turn_def)
next
  case False
  let ?s = "s\<lparr>tp_wait_cond := tp_wait_cond s @ [t]\<rparr>"
  have "pool_abs (goto_point t C_pausing ?s) = pool_abs ?s"
    using tp_inv_fin [OF assms(1)] assms(2) by (intro pool_abs_goto) simp_all
  also have "\<dots> = pool_abs s" by (rule pool_abs_same) simp_all
  finally show ?thesis using False by (simp add: pause_turn_def)
qed

lemma drain_turn_sim:
  assumes "tp_inv test_ops mset s" "tp_pc s t = C_draining wq"
  shows "wspec\<^sup>*\<^sup>* (pool_abs s) (pool_abs (drain_turn test_ops t wq s))"
proof (cases "drain_waits test_ops wq s")
  case False
  let ?s = "s\<lparr>tp_draining := tp_draining s - 1\<rparr>"
  have "counts_inv s" using assms(1) by (simp add: tp_inv_def)
  moreover have idle: "processing s = 0" "\<forall>q. wq = Some q \<longrightarrow> wq_items (wqs s q) = []"
    using False by (auto simp: drain_waits_def test_ops_def)
  ultimately have "\<forall>q. ws_running (pool_abs s) q = {#}" using nothing_runs by blast
  then have "wspec (pool_abs s) ((pool_abs s)\<lparr>ws_caller := (ws_caller (pool_abs s))(t := Elsewhere)\<rparr>)"
    by (intro wspec.drained [of _ t wq]) (use idle(2) assms(2) in \<open>simp_all add: pool_abs_def\<close>)
  moreover have "pool_abs ?s = pool_abs s" by (rule pool_abs_same) simp_all
  moreover have "pool_abs (goto_point t Outside ?s) = (pool_abs ?s)\<lparr>ws_caller := (ws_caller (pool_abs ?s))(t := Elsewhere)\<rparr>"
    using pool_abs_caller [of ?s Outside t] tp_inv_fin [OF assms(1)] assms(2) by simp
  ultimately show ?thesis using False by (simp add: drain_turn_def)
next
  case True
  let ?s = "s\<lparr>tp_wait_cond := tp_wait_cond s @ [t]\<rparr>"
  have "pool_abs (goto_point t (C_draining wq) ?s) = pool_abs ?s"
    using tp_inv_fin [OF assms(1)] assms(2) by (intro pool_abs_goto) simp_all
  also have "\<dots> = pool_abs s" by (rule pool_abs_same) simp_all
  finally show ?thesis using True by (simp add: drain_turn_def)
qed

text \<open>Announcing a call: the counter goes up, and the caller stands at the head of its loop.\<close>

lemma announce_sim:
  assumes "tp_inv test_ops mset s" "tp_pc s t = Outside"
  shows "wspec (pool_abs s) (pool_abs (goto_point t C_pausing (s\<lparr>tp_pause := n\<rparr>)))"
    "wspec (pool_abs s) (pool_abs (goto_point t (C_draining wq) (s\<lparr>tp_draining := n\<rparr>)))"
proof -
  have same: "pool_abs (s\<lparr>tp_pause := n\<rparr>) = pool_abs s" "pool_abs (s\<lparr>tp_draining := n\<rparr>) = pool_abs s"
    by (rule pool_abs_same; simp)+
  have idle: "ws_caller (pool_abs s) t = Elsewhere" using assms(2) by (simp add: pool_abs_def)
  have fin: "fin_pc (tp_pc (s\<lparr>tp_pause := n\<rparr>))" "fin_pc (tp_pc (s\<lparr>tp_draining := n\<rparr>))"
    using tp_inv_fin [OF assms(1)] by simp_all
  show "wspec (pool_abs s) (pool_abs (goto_point t C_pausing (s\<lparr>tp_pause := n\<rparr>)))"
    using pool_abs_caller [OF fin(1), of C_pausing t] wspec.pause [OF idle] assms(2) same by simp
  show "wspec (pool_abs s) (pool_abs (goto_point t (C_draining wq) (s\<lparr>tp_draining := n\<rparr>)))"
    using pool_abs_caller [OF fin(2), of "C_draining wq" t] wspec.drain [OF idle] assms(2) same by simp
qed

lemma call_sim:
  assumes "tp_inv test_ops mset s" "tp_pc s t = Outside"
  shows "wspec\<^sup>*\<^sup>* (pool_abs s) (pool_abs (tp_pause_call t s))"
    "wspec\<^sup>*\<^sup>* (pool_abs s) (pool_abs (tp_drain_call test_ops t wq s))"
proof -
  let ?p = "goto_point t C_pausing (s\<lparr>tp_pause := tp_pause s + 1\<rparr>)"
  let ?d = "goto_point t (C_draining wq) (s\<lparr>tp_draining := tp_draining s + 1\<rparr>)"
  have "wspec\<^sup>*\<^sup>* (pool_abs ?p) (pool_abs (pause_turn t ?p))"
    using inv_pause_announce [OF assms] by (intro pause_turn_sim) simp_all
  then show "wspec\<^sup>*\<^sup>* (pool_abs s) (pool_abs (tp_pause_call t s))"
    unfolding tp_pause_call_def turn_goto using announce_sim(1) [OF assms] by (metis converse_rtranclp_into_rtranclp)
  have "wspec\<^sup>*\<^sup>* (pool_abs ?d) (pool_abs (drain_turn test_ops t wq ?d))"
    using inv_drain_announce [OF assms] by (intro drain_turn_sim) simp_all
  then show "wspec\<^sup>*\<^sup>* (pool_abs s) (pool_abs (tp_drain_call test_ops t wq s))"
    unfolding tp_drain_call_def turn_goto using announce_sim(2) [OF assms] by (metis converse_rtranclp_into_rtranclp)
qed

lemma queue_abs:
  "pool_abs (wq_queue test_ops woken q u s) = submitted q u (pool_abs s)"
  "pool_abs (wq_queue_front test_ops woken q u s) = submitted q u (pool_abs s)"
  by (simp_all add: pool_abs_def submitted_def wq_queue_def wq_queue_front_def notify_workers_def
      note_queued_def upd_wq_def test_ops_def fun_eq_iff)

lemma new_queue_abs:
  assumes "tp_inv test_ops mset s" "\<forall>t. \<not> works_on q (tp_pc s t)"
  shows "pool_abs (WorkQueueVal_ctor q n g sg s) = pool_abs s"
proof -
  have "counts_inv s" using assms(1) by (simp add: tp_inv_def)
  from unused_queue [OF this assms(2)] show ?thesis
    by (intro pool_abs_same) (simp_all add: WorkQueueVal_ctor_def add_work_queue_def upd_wq_def WorkQueue_ctor_def)
qed

section \<open>Every step\<close>

lemma unpause_sim:
  assumes "tp_inv test_ops mset s" "tp_pc s t = C_paused"
  shows "wspec (pool_abs s) (pool_abs (goto_point t Outside (tp_unpause s)))"
proof -
  have "pool_abs (tp_unpause s) = pool_abs s" by (rule pool_abs_same) (simp_all add: tp_unpause_def)
  moreover have "ws_caller (pool_abs s) t = Paused" using assms(2) by (simp add: pool_abs_def)
  ultimately show ?thesis
    using pool_abs_caller [of "tp_unpause s" Outside t] wspec.unpause tp_inv_fin [OF assms(1)] assms(2)
    by (simp add: tp_unpause_def)
qed

lemma stop_begin_abs:
  assumes "tp_stop_begin t s = Ret () s'" "tp_pc s t = Outside" "tp_inv test_ops mset s"
  shows "pool_abs s' = pool_abs s"
proof -
  let ?s = "s\<lparr>tp_stop := True, tp_cond := [], tp_old_threads := []\<rparr>"
  have "s' = goto_point t C_stopping ?s"
    using assms(1) by (auto simp: tp_stop_begin_def join_old_threads_def bind_eq_Ret_iff split: if_splits)
  then have "pool_abs s' = pool_abs ?s"
    using assms(2) tp_inv_fin [OF assms(3)] by (simp add: pool_abs_goto)
  also have "\<dots> = pool_abs s" by (rule pool_abs_same) simp_all
  finally show ?thesis .
qed

text \<open>Steps that the abstract machine does not see.\<close>

lemma pool_abs_updates:
  "pool_abs (tp_wake s) = pool_abs s" "pool_abs (s\<lparr>tp_cond := ts\<rparr>) = pool_abs s"
  "pool_abs (s\<lparr>tp_wait_cond := ts\<rparr>) = pool_abs s" "pool_abs (add_work_queue q s) = pool_abs s"
  "pool_abs (remove_work_queue q s) = pool_abs s" "pool_abs (WorkQueueVal_dtor q s) = pool_abs s"
  "reset_tp_timeout now h s = Ret () s' \<Longrightarrow> pool_abs s' = pool_abs s"
  "suspent_tp_timeout now h s = Ret () s' \<Longrightarrow> pool_abs s' = pool_abs s"
  by (rule pool_abs_same; auto simp: tp_wake_def add_work_queue_def remove_work_queue_def WorkQueueVal_dtor_def
      reset_tp_timeout_def suspent_tp_timeout_def with_hb_Ret)+

lemma turn_runs:
  "worker_turn test_ops e t s = Ret () s' \<Longrightarrow> tp_inv test_ops mset s \<Longrightarrow> wspec\<^sup>*\<^sup>* (pool_abs s) (pool_abs s')"
  by (intro work_runs worker_turn_sim)

lemma tpstep_sim:
  assumes "tpstep test_ops s s'" "tp_inv test_ops mset s"
  shows "wspec\<^sup>*\<^sup>* (pool_abs s) (pool_abs s')"
  using assms
proof (induction rule: tpstep.induct)
  case (enter s t e s')
  then show ?case by (intro turn_runs [of e t]) (simp_all add: worker_turn_def)
next
  case (awake s t e s')
  then show ?case by (intro turn_runs [of e t]) (simp_all add: worker_turn_def)
next
  case (take s t q e s')
  then show ?case by (intro turn_runs [of e t]) (simp_all add: worker_turn_def)
next
  case (processed s t q u)
  then show ?case by (intro turn_runs [of undefined t]) (simp_all add: worker_turn_def)
next
  case (finish s t q e s')
  then show ?case by (intro turn_runs [of e t]) (simp_all add: worker_turn_def)
next
  case (queue s woken q item)
  then show ?case by (simp add: queue_abs r_into_rtranclp [of wspec, OF wspec.submit])
next
  case (queue_front s woken q item)
  then show ?case by (simp add: queue_abs r_into_rtranclp [of wspec, OF wspec.submit])
next
  case (start ws s s')
  then show ?case using start_threads_abs [OF start(3) [unfolded tp_start_def]] tp_inv_fin by fastforce
next
  case (stopped s t s')
  then show ?case by (intro r_into_rtranclp stop_finish_sim)
next
  case (unpause s t)
  then show ?case by (intro r_into_rtranclp unpause_sim)
qed (simp_all add: pool_abs_updates stop_begin_abs new_queue_abs, (blast intro: pause_turn_sim drain_turn_sim call_sim)+)

interpretation tps: simulation "tpstep test_ops" "tp_inv test_ops mset" wspec pool_abs
  by unfold_locales (auto intro: tq.tpstep_inv tpstep_sim)

lemma pool_paused_quiet:
  assumes "(tpstep test_ops)\<^sup>*\<^sup>* (ThreadPool_ctor hb nm tn n g sg qs) s" "fresh_queues qs"
  shows "paused_quiet (pool_abs s)"
proof (rule tps.transfer [OF assms(1) ctor_inv [OF assms(2)]])
  show "paused_quiet (pool_abs (ThreadPool_ctor hb nm tn n g sg qs))"
    by (simp add: pool_abs_ctor assms(2) paused_quiet_def ws_start_def)
qed (rule wspec_paused_quiet)

text \<open>
  C7: The thread pool implements its specification. Every run of a new pool, whatever its workers
  and callers do and in whatever order, is a run of the abstract machine; a turn of a worker
  only begins and completes items, and never while some caller is pausing or has paused the
  pool; and \<^verbatim>\<open>queue()\<close> and \<^verbatim>\<open>queue_front()\<close> submit exactly the one item.
\<close>
theorem pool_refines_spec:
  assumes "fresh_queues qs" "(tpstep test_ops)\<^sup>*\<^sup>* (ThreadPool_ctor hb nm tn n g sg qs) s"
  shows "wspec\<^sup>*\<^sup>* ws_start (pool_abs s) \<and>
    (\<forall>s'. tpstep test_ops s s' \<longrightarrow> wspec\<^sup>*\<^sup>* (pool_abs s) (pool_abs s')) \<and>
    (\<forall>e t s'. worker_turn test_ops e t s = Ret () s' \<longrightarrow> wwork\<^sup>*\<^sup>* (pool_abs s) (pool_abs s')) \<and>
    pool_abs (wq_queue test_ops woken q u s) = submitted q u (pool_abs s) \<and>
    pool_abs (wq_queue_front test_ops woken q u s) = submitted q u (pool_abs s)"
proof -
  have inv: "tp_inv test_ops mset s" by (rule tps.run_sim(1) [OF assms(2) ctor_inv [OF assms(1)]])
  have "wspec\<^sup>*\<^sup>* ws_start (pool_abs s)"
    using tps.run_sim(2) [OF assms(2) ctor_inv [OF assms(1)]] by (simp add: pool_abs_ctor assms(1))
  then show ?thesis by (simp add: tpstep_sim [OF _ inv] worker_turn_sim [OF _ inv] queue_abs)
qed

theorem pool_refines_spec_witness:
  "wspec\<^sup>*\<^sup>* ws_start (pool_abs tp3) \<and> ws_pending (pool_abs tp3) 0 = {#42#} \<and>
   ws_caller (pool_abs tp3) 7 = Draining (Some 0)"
proof -
  have "fresh_queues (\<lambda>_. \<lparr>wq_name = [], wq_items = [], to_process = [], to_finish = [],
      wq_grace = 0, wq_suicide_grace = 0\<rparr>)" by (simp add: fresh_queues_def)
  from pool_refines_spec [OF this tp3_run [unfolded tp0_def]]
  have "wspec\<^sup>*\<^sup>* ws_start (pool_abs tp3)" by blast
  moreover have "wq_items (wqs tp3 0) = [42]" "tp_pc tp3 7 = C_draining (Some 0)"
    by (simp_all add: tp3_def tp2_def tp1_def wq_queue_def notify_workers_def note_queued_def upd_wq_def
        add_work_queue_def tp0_def ThreadPool_ctor_def tp_drain_call_def drain_turn_def drain_waits_def
        test_ops_def goto_point_def)
  ultimately show ?thesis by (simp add: pool_abs_def)
qed

end
