(* ===== verification/Work_Thread.thy ===== *)
theory Work_Thread
  imports Threadpool_Props
begin

text \<open>
  The threads of the pool as the objects the source keeps them in: \<^verbatim>\<open>ThreadPool::WorkThread\<close>
  (\<^verbatim>\<open>thread/threadpool.h\<close>), a subclass of \<^verbatim>\<open>ThreadBase\<close>. \<^verbatim>\<open>start_threads()\<close> creates such objects and calls
  their \<^verbatim>\<open>create()\<close>, \<^verbatim>\<open>stop()\<close> calls their \<^verbatim>\<open>join()\<close>; seen from the pool's state alone, these are
  the operations of the pool's model.
\<close>

section \<open>State and operations\<close>

text \<open>The pool, the thread that runs \<^verbatim>\<open>start()\<close> or \<^verbatim>\<open>stop()\<close>, and the objects in \<^verbatim>\<open>_threads\<close>.\<close>

record ('q, 'u) host =
  h_pool :: "('q, 'u) ThreadPool"
  h_caller :: tworld
  h_objs :: "ThreadBase list"

definition WorkThread_ctor :: ThreadBase where
  "WorkThread_ctor = ThreadBase_ctor"

text \<open>\<open>cr\<close> is the result of \<^verbatim>\<open>pthread_create\<close>; the pool knows a thread by its identifier.\<close>

definition add_object :: "('q, 'u) host \<Rightarrow> tworld \<Rightarrow> ('q, 'u) host" where
  "add_object h w =
     (let p = h_pool h; i = thread_id (th w)
      in h\<lparr>h_caller := w, h_objs := h_objs h @ [th w],
           h_pool := goto_point i W_new (p\<lparr>tp_threads := tp_threads p @ [i]\<rparr>)\<rparr>)"

definition new_work_thread ::
  "(int option \<Rightarrow> errno + nat) \<Rightarrow> ('q, 'u) host \<Rightarrow> (unit, ('q, 'u) host) outcome" where
  "new_work_thread cr h =
     lift_state (add_object h)
       (thread_create cr (tp_thread_name (h_pool h)) 0 ((h_caller h)\<lparr>th := WorkThread_ctor\<rparr>))"

fun start_work_threads ::
  "(int option \<Rightarrow> errno + nat) list \<Rightarrow> ('q, 'u) host \<Rightarrow> (unit, ('q, 'u) host) outcome" where
  "start_work_threads [] h = (if length (h_objs h) < tp_num_threads (h_pool h) then Block h else Ret () h)"
| "start_work_threads (cr # crs) h =
     (if length (h_objs h) < tp_num_threads (h_pool h) then
        bind (new_work_thread cr h) (\<lambda>_ h. start_work_threads crs h)
      else Ret () h)"

text \<open>
  The loop of \<^verbatim>\<open>stop()\<close> over the objects: \<^verbatim>\<open>pthread_join\<close> waits until the thread has ended and answers
  \<open>jr\<close>; the object is deleted, and at the end the set is cleared.
\<close>

fun join_work_threads ::
  "(nat \<Rightarrow> errno) \<Rightarrow> ThreadBase list \<Rightarrow> ('q, 'u) host \<Rightarrow> (unit, ('q, 'u) host) outcome" where
  "join_work_threads jr [] h = Ret () (h\<lparr>h_objs := [], h_pool := (h_pool h)\<lparr>tp_threads := []\<rparr>\<rparr>)"
| "join_work_threads jr (b # bs) h =
     (if tp_pc (h_pool h) (thread_id b) \<noteq> W_exit then Block h
      else
        bind (lift_state (\<lambda>w. h\<lparr>h_caller := w\<rparr>) (thread_join jr ((h_caller h)\<lparr>th := b\<rparr>))) (\<lambda>_ h.
        join_work_threads jr bs h))"

text \<open>
  What a new thread runs: \<^verbatim>\<open>_entry_func\<close> calls \<^verbatim>\<open>entry_wrapper\<close> on the object, which names the thread
  and calls \<^verbatim>\<open>entry()\<close>, that is \<^verbatim>\<open>pool->worker(this)\<close>, here up to the first release of the lock.
\<close>

definition WorkThread_entry ::
  "('q, 'u) wq_ops \<Rightarrow> wenv \<Rightarrow> tid \<Rightarrow> ('q, 'u) ThreadPool \<Rightarrow> (unit, ('q, 'u) ThreadPool) outcome" where
  "WorkThread_entry ops e t p = worker_enter ops e t p"

definition entry_func ::
  "errno \<Rightarrow> ('q, 'u) wq_ops \<Rightarrow> wenv \<Rightarrow> tworld \<Rightarrow> ('q, 'u) ThreadPool \<Rightarrow>
   (unit, tworld \<times> ('q, 'u) ThreadPool) outcome" where
  "entry_func r ops e w p =
     bind (lift_state (\<lambda>w. (w, p)) (entry_wrapper r (Ret ()) w)) (\<lambda>_ (w, p).
     lift_state (\<lambda>p. (w, p)) (WorkThread_entry ops e (thread_id (th w)) p))"

section \<open>The objects and the pool\<close>

definition host_ok :: "('q, 'u) host \<Rightarrow> bool" where
  "host_ok h \<longleftrightarrow> map thread_id (h_objs h) = tp_threads (h_pool h) \<and> 0 \<notin> set (tp_threads (h_pool h)) \<and>
     (\<forall>b \<in> set (h_objs h). thread_name b = c_str (tp_thread_name (h_pool h)))"

lemma host_ok_length: "host_ok h \<Longrightarrow> length (h_objs h) = length (tp_threads (h_pool h))"
  by (metis host_ok_def length_map)

text \<open>One creation: the name is too long or \<^verbatim>\<open>pthread_create\<close> fails, or the object is there.\<close>

definition created :: "nat \<Rightarrow> ('q, 'u) host \<Rightarrow> ('q, 'u) host" where
  "created i h = add_object h ((h_caller h)\<lparr>th := WorkThread_ctor\<lparr>thread_name := c_str (tp_thread_name (h_pool h)),
     thread_id := i\<rparr>, spawned := spawned (h_caller h) @ [(i, sigmask (h_caller h) \<union> all_signals)]\<rparr>)"

lemma new_work_thread_eq:
  assumes "\<And>e. cr None = Inl e \<Longrightarrow> e \<noteq> 0"
  shows "new_work_thread cr h = (if 16 \<le> length (c_str (tp_thread_name (h_pool h))) then Abort
    else case cr None of Inl e \<Rightarrow> Abort | Inr i \<Rightarrow> Ret () (created i h))"
  using assms
  by (auto simp: new_work_thread_def created_def thread_create_def try_create_def block_all_signals_def
      restore_signals_def assert_that_def Let_def split: sum.splits)

lemma start_threads_name: "start_threads ws s = Ret () s' \<Longrightarrow> tp_thread_name s' = tp_thread_name s"
proof (induction ws arbitrary: s)
  case (Cons w ws)
  then show ?case
    by (auto simp: bind_eq_Ret_iff assert_that_def goto_point_def split: if_splits dest!: Cons.IH)
qed (simp split: if_splits)

lemma created_fields [simp]:
  "h_pool (created i h) = goto_point i W_new ((h_pool h)\<lparr>tp_threads := tp_threads (h_pool h) @ [i]\<rparr>)"
  "sigmask (h_caller (created i h)) = sigmask (h_caller h)"
  "spawned (h_caller (created i h)) = spawned (h_caller h) @ [(i, sigmask (h_caller h) \<union> all_signals)]"
  "map thread_id (h_objs (created i h)) = map thread_id (h_objs h) @ [i]"
  by (simp_all add: created_def add_object_def Let_def)

lemma created_ok: "host_ok h \<Longrightarrow> i \<noteq> 0 \<Longrightarrow> host_ok (created i h)"
  by (auto simp: host_ok_def created_def add_object_def Let_def goto_point_def)

text \<open>\<^verbatim>\<open>start_threads()\<close> over the objects is \<open>start_threads\<close> of the pool's model.\<close>

lemma start_objects:
  assumes "host_ok h" "0 \<notin> set ids" "length ids = tp_num_threads (h_pool h) - length (h_objs h)"
    "length (c_str (tp_thread_name (h_pool h))) < 16"
  shows "\<exists>h'. start_work_threads (map (\<lambda>i _. Inr i) ids) h = Ret () h' \<and> host_ok h' \<and>
    tp_start ids (h_pool h) = Ret () (h_pool h') \<and> tp_threads (h_pool h') = tp_threads (h_pool h) @ ids \<and>
    sigmask (h_caller h') = sigmask (h_caller h) \<and>
    spawned (h_caller h') = spawned (h_caller h) @ map (\<lambda>i. (i, sigmask (h_caller h) \<union> all_signals)) ids"
  using assms
proof (induction ids arbitrary: h)
  case Nil
  then show ?case using host_ok_length [OF Nil(1)] by (simp add: tp_start_def)
next
  case (Cons i ids)
  let ?h = "created i h"
  have len: "length (h_objs h) < tp_num_threads (h_pool h)" using Cons.prems(3) by simp
  have new: "new_work_thread (\<lambda>_. Inr i) h = Ret () ?h"
    using new_work_thread_eq [of "\<lambda>_. Inr i" h] Cons.prems(4) by simp
  have objs: "length (h_objs ?h) = Suc (length (h_objs h))" by (metis created_fields(4) length_append_singleton length_map)
  have fields: "tp_num_threads (h_pool ?h) = tp_num_threads (h_pool h)"
    "tp_thread_name (h_pool ?h) = tp_thread_name (h_pool h)" by (simp_all add: goto_point_def)
  have "length ids = tp_num_threads (h_pool ?h) - length (h_objs ?h)"
    using Cons.prems(3) unfolding objs fields by simp
  moreover have ok: "host_ok ?h" using created_ok [OF Cons.prems(1)] Cons.prems(2) by simp
  ultimately obtain h' where h': "start_work_threads (map (\<lambda>i _. Inr i) ids) ?h = Ret () h'" "host_ok h'"
    "tp_start ids (h_pool ?h) = Ret () (h_pool h')" "tp_threads (h_pool h') = tp_threads (h_pool ?h) @ ids"
    "sigmask (h_caller h') = sigmask (h_caller ?h)"
    "spawned (h_caller h') = spawned (h_caller ?h) @ map (\<lambda>i. (i, sigmask (h_caller ?h) \<union> all_signals)) ids"
    using Cons.IH [OF ok] Cons.prems(2,4) fields(2) by auto
  have "tp_start (i # ids) (h_pool h) = Ret () (h_pool h')"
    using h'(3) len host_ok_length [OF Cons.prems(1)] Cons.prems(4) by (simp add: tp_start_def assert_that_def)
  then show ?case using h' len new by (simp add: goto_point_def)
qed

text \<open>A creation that fails before all threads are there ends the program.\<close>

lemma start_objects_fail:
  assumes "length ids < tp_num_threads (h_pool h) - length (h_objs h)" "e \<noteq> 0"
  shows "start_work_threads (map (\<lambda>i _. Inr i) ids @ (\<lambda>_. Inl e) # crs) h = Abort"
  using assms(1)
proof (induction ids arbitrary: h)
  case Nil
  then show ?case using new_work_thread_eq [of "\<lambda>_. Inl e" h] assms(2) by simp
next
  case (Cons i ids)
  have objs: "length (h_objs (created i h)) = Suc (length (h_objs h))"
    by (metis created_fields(4) length_append_singleton length_map)
  have "start_work_threads (map (\<lambda>i _. Inr i) ids @ (\<lambda>_. Inl e) # crs) (created i h) = Abort"
    using Cons.prems by (intro Cons.IH) (simp add: objs goto_point_def)
  then show ?case using new_work_thread_eq [of "\<lambda>_. Inr i" h] Cons.prems by simp
qed

text \<open>
  The joins wait exactly as long as \<^verbatim>\<open>tp_stop_finish\<close> says; the first \<^verbatim>\<open>pthread_join\<close> that fails
  ends the program.
\<close>

lemma join_objects:
  assumes "0 \<notin> thread_id ` set bs"
  shows "if \<exists>b \<in> set bs. tp_pc (h_pool h) (thread_id b) \<noteq> W_exit
    then (\<exists>h'. join_work_threads jr bs h = Block h') \<or>
      (\<exists>b \<in> set bs. jr (thread_id b) \<noteq> 0) \<and> join_work_threads jr bs h = Abort
    else if \<exists>b \<in> set bs. jr (thread_id b) \<noteq> 0 then join_work_threads jr bs h = Abort
    else \<exists>w. join_work_threads jr bs h =
      Ret () (h\<lparr>h_caller := w, h_objs := [], h_pool := (h_pool h)\<lparr>tp_threads := []\<rparr>\<rparr>)"
  using assms
proof (induction bs arbitrary: h)
  case (Cons b bs)
  let ?w = "(h_caller h)\<lparr>th := b\<lparr>thread_id := 0\<rparr>\<rparr>"
  have join: "thread_join jr ((h_caller h)\<lparr>th := b\<rparr>) = (if jr (thread_id b) = 0 then Ret 0 ?w else Abort)"
    using Cons.prems by (simp add: thread_join_def assert_that_def Let_def)
  show ?case
  proof (cases "tp_pc (h_pool h) (thread_id b) = W_exit \<and> jr (thread_id b) = 0")
    case True
    then have "join_work_threads jr (b # bs) h = join_work_threads jr bs (h\<lparr>h_caller := ?w\<rparr>)" using join by simp
    then show ?thesis
      using Cons.IH [of "h\<lparr>h_caller := ?w\<rparr>"] Cons.prems True by (auto simp del: join_work_threads.simps split: if_splits)
  next
    case False
    then show ?thesis using join by auto
  qed
next
  case Nil
  have "h\<lparr>h_objs := [], h_pool := (h_pool h)\<lparr>tp_threads := []\<rparr>\<rparr> =
      h\<lparr>h_caller := h_caller h, h_objs := [], h_pool := (h_pool h)\<lparr>tp_threads := []\<rparr>\<rparr>" by simp
  then show ?case by (simp only: list.set bex_simps if_False join_work_threads.simps) blast
qed

text \<open>A new thread carries the pool's thread name and goes straight to the worker.\<close>

lemma entry_func_eq:
  assumes "tb_tid (th w) = 0" "length (c_str (thread_name (th w))) < 16"
  shows "entry_func r ops e w p =
    lift_state (\<lambda>p. (w\<lparr>comm := c_str (thread_name (th w))\<rparr>, p)) (worker_enter ops e (thread_id (th w)) p)"
  using assms
  by (simp add: entry_func_def entry_wrapper_def get_tid_def pthread_setname_def WorkThread_entry_def Let_def)

text \<open>
  C32: The pool's threads are its objects. Let the thread name fit and \<^verbatim>\<open>pthread_create\<close> give identifiers
  other than 0, the value that \<^verbatim>\<open>ThreadBase\<close> keeps for a thread not started. Then \<^verbatim>\<open>start()\<close> on a pool without threads creates as many objects as asked for,
  each with the pool's thread name, changes the pool exactly as the model of \<^verbatim>\<open>start()\<close> says, starts
  every thread with all signals blocked and leaves the caller's signal mask alone; if one of the needed
  creations fails, \<^verbatim>\<open>start()\<close> aborts. Later, with the workers in any
  state \<open>p\<close> over these threads and whatever \<^verbatim>\<open>pthread_join\<close> answers, the joins of \<^verbatim>\<open>stop()\<close> do not return while a worker is
  in its loop, and wait unless a \<^verbatim>\<open>pthread_join\<close> fails; when every worker has left its loop they abort if some \<^verbatim>\<open>pthread_join\<close> fails and otherwise
  return with no object left, and \<^verbatim>\<open>stop()\<close> then leaves the pool as its model says.
\<close>
theorem pool_threads_are_objects:
  assumes "h_objs h = []" "tp_threads (h_pool h) = []" "length ids = tp_num_threads (h_pool h)" "0 \<notin> set ids"
    and "length (c_str (tp_thread_name (h_pool h))) < 16" "tp_threads p = ids"
  shows "(\<exists>h'. start_work_threads (map (\<lambda>i _. Inr i) ids) h = Ret () h' \<and>
    tp_start ids (h_pool h) = Ret () (h_pool h') \<and> map thread_id (h_objs h') = ids \<and>
    (\<forall>b \<in> set (h_objs h'). thread_name b = c_str (tp_thread_name (h_pool h))) \<and>
    sigmask (h_caller h') = sigmask (h_caller h) \<and>
    spawned (h_caller h') = spawned (h_caller h) @ map (\<lambda>i. (i, sigmask (h_caller h) \<union> all_signals)) ids \<and>
    (if \<exists>i \<in> set ids. tp_pc p i \<noteq> W_exit then tp_stop_finish ops t p = Block p \<and>
       ((\<exists>x. join_work_threads jr (h_objs h') (h'\<lparr>h_pool := p\<rparr>) = Block x) \<or>
        (\<exists>i \<in> set ids. jr i \<noteq> 0) \<and> join_work_threads jr (h_objs h') (h'\<lparr>h_pool := p\<rparr>) = Abort)
     else if \<exists>i \<in> set ids. jr i \<noteq> 0 then join_work_threads jr (h_objs h') (h'\<lparr>h_pool := p\<rparr>) = Abort
     else \<exists>h''. join_work_threads jr (h_objs h') (h'\<lparr>h_pool := p\<rparr>) = Ret () h'' \<and> h_objs h'' = [] \<and>
       tp_stop_finish ops t p =
         Ret () (goto_point t Outside ((clear_queues ops (h_pool h''))\<lparr>tp_stop := False, tp_cleared := True\<rparr>)))) \<and>
    (\<forall>k e crs. k < length ids \<and> e \<noteq> 0 \<longrightarrow>
      start_work_threads (map (\<lambda>i _. Inr i) (take k ids) @ (\<lambda>_. Inl e) # crs) h = Abort)"
proof -
  have ok: "host_ok h" using assms(1,2) by (simp add: host_ok_def)
  have "length ids = tp_num_threads (h_pool h) - length (h_objs h)" using assms(1,3) by simp
  then obtain h' where h': "start_work_threads (map (\<lambda>i _. Inr i) ids) h = Ret () h'" "host_ok h'"
    "tp_start ids (h_pool h) = Ret () (h_pool h')" "tp_threads (h_pool h') = ids"
    "sigmask (h_caller h') = sigmask (h_caller h)"
    "spawned (h_caller h') = spawned (h_caller h) @ map (\<lambda>i. (i, sigmask (h_caller h) \<union> all_signals)) ids"
    using start_objects [OF ok assms(4) _ assms(5)] assms(2) by auto
  have objs: "map thread_id (h_objs h') = ids" using h'(2,4) by (simp add: host_ok_def)
  have name: "tp_thread_name (h_pool h') = tp_thread_name (h_pool h)"
    using h'(3) by (simp add: tp_start_def start_threads_name)
  have img: "set ids = thread_id ` set (h_objs h')" using objs by auto
  have "0 \<notin> thread_id ` set (h_objs h')" using assms(4) img by simp
  note join = join_objects [OF this, of "h'\<lparr>h_pool := p\<rparr>" jr]
  have fail: "start_work_threads (map (\<lambda>i _. Inr i) (take k ids) @ (\<lambda>_. Inl e) # crs) h = Abort"
    if "k < length ids" "e \<noteq> 0" for k e crs
    using start_objects_fail [of "take k ids" h e crs] that assms(1,3) by simp
  have stop: "tp_stop_finish ops t p = (if \<exists>i \<in> set ids. tp_pc p i \<noteq> W_exit then Block p else
      Ret () (goto_point t Outside ((clear_queues ops (p\<lparr>tp_threads := []\<rparr>))\<lparr>tp_stop := False, tp_cleared := True\<rparr>)))"
    using assms(6) by (auto simp: tp_stop_finish_def Let_def)
  have names: "\<forall>b \<in> set (h_objs h'). thread_name b = c_str (tp_thread_name (h_pool h))"
    using h'(2) name by (simp add: host_ok_def)
  show ?thesis
  proof (intro conjI exI [of _ h'] h'(1,3,5,6) objs names allI impI)
    show "if \<exists>i \<in> set ids. tp_pc p i \<noteq> W_exit then tp_stop_finish ops t p = Block p \<and>
       ((\<exists>x. join_work_threads jr (h_objs h') (h'\<lparr>h_pool := p\<rparr>) = Block x) \<or>
        (\<exists>i \<in> set ids. jr i \<noteq> 0) \<and> join_work_threads jr (h_objs h') (h'\<lparr>h_pool := p\<rparr>) = Abort)
     else if \<exists>i \<in> set ids. jr i \<noteq> 0 then join_work_threads jr (h_objs h') (h'\<lparr>h_pool := p\<rparr>) = Abort
     else \<exists>h''. join_work_threads jr (h_objs h') (h'\<lparr>h_pool := p\<rparr>) = Ret () h'' \<and> h_objs h'' = [] \<and>
       tp_stop_finish ops t p =
         Ret () (goto_point t Outside ((clear_queues ops (h_pool h''))\<lparr>tp_stop := False, tp_cleared := True\<rparr>))"
      using join stop by (auto simp: img split: if_splits)
  qed (use fail in blast)
qed

definition host0 :: "nat \<Rightarrow> (nat list, nat) host" where
  "host0 n = \<lparr>h_pool = ThreadPool_ctor hb_demo ''pool'' ''worker'' (int n) 0 0
      (\<lambda>_. \<lparr>wq_name = [], wq_items = [], to_process = [], to_finish = [], wq_grace = 0, wq_suicide_grace = 0\<rparr>),
     h_caller = thread_demo, h_objs = []\<rparr>"

text \<open>Two workers that have left their loops and are joined.\<close>

theorem pool_threads_are_objects_witness:
  "\<exists>h' h''. start_work_threads [\<lambda>_. Inr 8, \<lambda>_. Inr 9] (host0 2) = Ret () h' \<and>
     map thread_id (h_objs h') = [8, 9] \<and> spawned (h_caller h') = [(8, all_signals), (9, all_signals)] \<and>
     join_work_threads (\<lambda>_. 0) (h_objs h')
       (h'\<lparr>h_pool := (h_pool (host0 2))\<lparr>tp_threads := [8, 9], tp_pc := \<lambda>_. W_exit\<rparr>\<rparr>) = Ret () h'' \<and> h_objs h'' = []"
proof -
  let ?h = "host0 2" and ?p = "(h_pool (host0 2))\<lparr>tp_threads := [8, 9], tp_pc := \<lambda>_. W_exit\<rparr>"
  have h: "h_objs ?h = []" "tp_threads (h_pool ?h) = []" "length [8 :: nat, 9] = tp_num_threads (h_pool ?h)"
    "0 \<notin> set [8 :: nat, 9]" "length (c_str (tp_thread_name (h_pool ?h))) < 16" "tp_threads ?p = [8, 9]"
    and w: "sigmask (h_caller ?h) = {}" "spawned (h_caller ?h) = []"
    by (simp_all add: host0_def ThreadPool_ctor_def thread_demo_def c_str_def)
  have exits: "\<not> (\<exists>i \<in> set [8 :: nat, 9]. tp_pc ?p i \<noteq> W_exit)" "\<not> (\<exists>i \<in> set [8 :: nat, 9]. (0 :: errno) \<noteq> 0)" by simp_all
  from pool_threads_are_objects [OF h, of test_ops 7 "\<lambda>_. 0", unfolded if_not_P [OF exits(1)] if_not_P [OF exits(2)]]
  obtain h' h'' where "start_work_threads (map (\<lambda>i _. Inr i) [8, 9]) ?h = Ret () h'" "map thread_id (h_objs h') = [8, 9]"
    "spawned (h_caller h') = spawned (h_caller ?h) @ map (\<lambda>i. (i, sigmask (h_caller ?h) \<union> all_signals)) [8, 9]"
    "join_work_threads (\<lambda>_. 0) (h_objs h') (h'\<lparr>h_pool := ?p\<rparr>) = Ret () h''" "h_objs h'' = []" by (elim exE conjE) (rule that)
  then show ?thesis using w by (intro exI [of _ h'] exI [of _ h'']) simp
qed

end
