(* ===== verification/Sharded.thy ===== *)
theory Sharded
  imports Heartbeat Thread_Base
begin

text \<open>
  \<^verbatim>\<open>thread/shardedthreadpool.h\<close> and \<^verbatim>\<open>shardedthreadpool.cc\<close>: the pool whose workers each serve
  one shard of a queue. The worker reads the three atomic flags without the pool's lock, so
  each such read is a section of its own; every stretch under \<^verbatim>\<open>shardedpool_lock\<close>, from the
  acquisition (or the wake-up) to the release (or the next wait), is one function. The
  subclass of \<^verbatim>\<open>ShardedWQ\<close> is not part of the repository: its virtual functions are the
  record \<open>swq_ops\<close>, an argument of every definition that calls them.
\<close>

section \<open>State\<close>

record ('w, 'u) swq_ops =
  sop_enqueue :: "'u \<Rightarrow> 'w \<Rightarrow> 'w"
  sop_enqueue_front :: "'u \<Rightarrow> 'w \<Rightarrow> 'w"
  sop_process :: "32 word \<Rightarrow> 'w \<Rightarrow> 'w"
  sop_return_waiting :: "'w \<Rightarrow> 'w"
  sop_stop_return_waiting :: "'w \<Rightarrow> 'w"
  sop_is_shard_empty :: "32 word \<Rightarrow> 'w \<Rightarrow> bool"

record 'w BaseShardedWQ =
  timeout_interval :: grace
  sucide_timeout_interval :: grace
  swq_state :: 'w

text \<open>
  Where a thread is. A worker: created (\<open>S_new\<close>); before the test of \<^verbatim>\<open>stop_threads\<close>, of
  \<^verbatim>\<open>pause_threads\<close>, of \<^verbatim>\<open>drain_threads\<close> (\<open>S_head\<close>, \<open>S_check_pause\<close>, \<open>S_check_drain\<close>); before the
  acquisition of the lock in the pause and the drain branch; in the wait of either branch
  (\<open>S_paused\<close>, \<open>S_drained\<close>); before the reset of its heartbeat; inside \<^verbatim>\<open>_process\<close>; finished.
  A caller: waiting in \<^verbatim>\<open>pause()\<close> or \<^verbatim>\<open>drain()\<close>, joining in \<^verbatim>\<open>stop()\<close>.
\<close>

datatype spoint =
    S_outside
  | S_new
  | S_head
  | S_check_pause
  | S_pause_lock
  | S_paused
  | S_check_drain
  | S_drain_lock
  | S_drained
  | S_reset
  | S_processing
  | S_exit
  | SC_pausing
  | SC_draining
  | SC_stopping

record 'w ShardedThreadPool =
  hbmp :: heartbeat_map
  sp_name :: string
  sp_thread_name :: string
  shardedpool_cond :: "tid list"
  wait_cond :: "tid list"
  num_threads :: "32 word"
  stop_threads :: bool
  pause_threads :: bool
  drain_threads :: bool
  num_paused :: "32 word"
  num_drained :: "32 word"
  sp_wq :: "'w BaseShardedWQ option"
  threads_shardedpool :: "tid list"
  thread_index :: "tid \<Rightarrow> 32 word"
  sp_hb :: "tid \<Rightarrow> nat"
  sp_pc :: "tid \<Rightarrow> spoint"

definition ShardedThreadPool_ctor ::
  "heartbeat_map \<Rightarrow> string \<Rightarrow> string \<Rightarrow> 32 word \<Rightarrow> 'w ShardedThreadPool" where
  "ShardedThreadPool_ctor hb nm tn pnum_threads =
     \<lparr>hbmp = hb, sp_name = nm, sp_thread_name = tn, shardedpool_cond = [], wait_cond = [],
      num_threads = pnum_threads, stop_threads = False, pause_threads = False, drain_threads = False,
      num_paused = 0, num_drained = 0, sp_wq = None, threads_shardedpool = [],
      thread_index = (\<lambda>_. 0), sp_hb = (\<lambda>_. 0), sp_pc = (\<lambda>_. S_outside)\<rparr>"

definition sgoto :: "tid \<Rightarrow> spoint \<Rightarrow> 'w ShardedThreadPool \<Rightarrow> 'w ShardedThreadPool" where
  "sgoto t p s = s\<lparr>sp_pc := (sp_pc s)(t := p)\<rparr>"

definition sp_with_hb ::
  "(heartbeat_map \<Rightarrow> ('a, heartbeat_map) outcome) \<Rightarrow> 'w ShardedThreadPool \<Rightarrow>
   ('a, 'w ShardedThreadPool) outcome" where
  "sp_with_hb f s = lift_state (\<lambda>h. s\<lparr>hbmp := h\<rparr>) (f (hbmp s))"

text \<open>A virtual call through \<^verbatim>\<open>wq\<close>; through a null pointer it is undefined.\<close>

definition wq_call ::
  "('w \<Rightarrow> 'w) \<Rightarrow> 'w ShardedThreadPool \<Rightarrow> (unit, 'w ShardedThreadPool) outcome" where
  "wq_call f s =
     (case sp_wq s of
        None \<Rightarrow> Undef
      | Some w \<Rightarrow> Ret () (s\<lparr>sp_wq := Some (w\<lparr>swq_state := f (swq_state w)\<rparr>)\<rparr>))"

section \<open>The queue's side\<close>

definition set_wq :: "'w BaseShardedWQ \<Rightarrow> 'w ShardedThreadPool \<Rightarrow> 'w ShardedThreadPool" where
  "set_wq wq s = s\<lparr>sp_wq := Some wq\<rparr>"

definition ShardedWQ_ctor ::
  "grace \<Rightarrow> grace \<Rightarrow> 'w \<Rightarrow> 'w ShardedThreadPool \<Rightarrow> 'w ShardedThreadPool" where
  "ShardedWQ_ctor ti sti w tp =
     set_wq \<lparr>timeout_interval = ti, sucide_timeout_interval = sti, swq_state = w\<rparr> tp"

definition swq_queue ::
  "('w, 'u) swq_ops \<Rightarrow> 'u \<Rightarrow> 'w ShardedThreadPool \<Rightarrow> (unit, 'w ShardedThreadPool) outcome" where
  "swq_queue ops item s = wq_call (sop_enqueue ops item) s"

text \<open>Of \<^verbatim>\<open>queue_front\<close>, the instances that compile: those whose element type is a reference.\<close>

definition swq_queue_front ::
  "('w, 'u) swq_ops \<Rightarrow> 'u \<Rightarrow> 'w ShardedThreadPool \<Rightarrow> (unit, 'w ShardedThreadPool) outcome" where
  "swq_queue_front ops item s = wq_call (sop_enqueue_front ops item) s"

section \<open>The worker\<close>

text \<open>The clock, the captured stack and the thread's address as text.\<close>

record senv =
  se_now :: time
  se_bt :: BackTrace
  se_self :: string

definition sworker_enter ::
  "senv \<Rightarrow> tid \<Rightarrow> 'w ShardedThreadPool \<Rightarrow> (unit, 'w ShardedThreadPool) outcome" where
  "sworker_enter e t s =
     bind (assert_that (sp_wq s \<noteq> None) s) (\<lambda>_ s.
     bind (sp_with_hb (add_worker t (se_bt e) (sp_name s @ '' thread '' @ se_self e)
             (unat (thread_index s t))) s) (\<lambda>h s.
     Ret () (sgoto t S_head (s\<lparr>sp_hb := (sp_hb s)(t := h)\<rparr>))))"

definition sworker_exit ::
  "senv \<Rightarrow> tid \<Rightarrow> 'w ShardedThreadPool \<Rightarrow> (unit, 'w ShardedThreadPool) outcome" where
  "sworker_exit e t s =
     bind (sp_with_hb (remove_worker t (se_bt e) (sp_hb s t)) s) (\<lambda>_ s. Ret () (sgoto t S_exit s))"

definition sworker_head ::
  "senv \<Rightarrow> tid \<Rightarrow> 'w ShardedThreadPool \<Rightarrow> (unit, 'w ShardedThreadPool) outcome" where
  "sworker_head e t s =
     (if \<not> stop_threads s then Ret () (sgoto t S_check_pause s) else sworker_exit e t s)"

definition sworker_check_pause :: "tid \<Rightarrow> 'w ShardedThreadPool \<Rightarrow> 'w ShardedThreadPool" where
  "sworker_check_pause t s = sgoto t (if pause_threads s then S_pause_lock else S_check_drain) s"

text \<open>\<^verbatim>\<open>hbmp->reset_timeout(hb, wq->timeout_interval, wq->sucide_timeout_interval)\<close>.\<close>

definition sworker_beat ::
  "senv \<Rightarrow> tid \<Rightarrow> 'w ShardedThreadPool \<Rightarrow> (unit, 'w ShardedThreadPool) outcome" where
  "sworker_beat e t s =
     (case sp_wq s of
        None \<Rightarrow> Undef
      | Some w \<Rightarrow>
          sp_with_hb (reset_timeout (se_now e) (sp_hb s t) (timeout_interval w) (sucide_timeout_interval w)) s)"

text \<open>The inner loop of the pause branch, from its test to the next wait or the release.\<close>

definition sworker_pause_turn ::
  "senv \<Rightarrow> tid \<Rightarrow> 'w ShardedThreadPool \<Rightarrow> (unit, 'w ShardedThreadPool) outcome" where
  "sworker_pause_turn e t s =
     (if pause_threads s then
        bind (sworker_beat e t s) (\<lambda>_ s.
        Ret () (sgoto t S_paused (s\<lparr>shardedpool_cond := shardedpool_cond s @ [t]\<rparr>)))
      else Ret () (sgoto t S_check_drain (s\<lparr>num_paused := num_paused s - 1\<rparr>)))"

definition sworker_pause ::
  "senv \<Rightarrow> tid \<Rightarrow> 'w ShardedThreadPool \<Rightarrow> (unit, 'w ShardedThreadPool) outcome" where
  "sworker_pause e t s = sworker_pause_turn e t (s\<lparr>num_paused := num_paused s + 1, wait_cond := []\<rparr>)"

definition sworker_check_drain :: "tid \<Rightarrow> 'w ShardedThreadPool \<Rightarrow> 'w ShardedThreadPool" where
  "sworker_check_drain t s = sgoto t (if drain_threads s then S_drain_lock else S_reset) s"

definition sworker_drain_turn ::
  "senv \<Rightarrow> tid \<Rightarrow> 'w ShardedThreadPool \<Rightarrow> (unit, 'w ShardedThreadPool) outcome" where
  "sworker_drain_turn e t s =
     (if drain_threads s then
        bind (sworker_beat e t s) (\<lambda>_ s.
        Ret () (sgoto t S_drained (s\<lparr>shardedpool_cond := shardedpool_cond s @ [t]\<rparr>)))
      else Ret () (sgoto t S_reset (s\<lparr>num_drained := num_drained s - 1\<rparr>)))"

definition sworker_drain ::
  "('w, 'u) swq_ops \<Rightarrow> senv \<Rightarrow> tid \<Rightarrow> 'w ShardedThreadPool \<Rightarrow> (unit, 'w ShardedThreadPool) outcome" where
  "sworker_drain ops e t s =
     (case sp_wq s of
        None \<Rightarrow> Undef
      | Some w \<Rightarrow>
          if sop_is_shard_empty ops (thread_index s t) (swq_state w) then
            sworker_drain_turn e t (s\<lparr>num_drained := num_drained s + 1, wait_cond := []\<rparr>)
          else Ret () (sgoto t S_reset s))"

definition sworker_reset ::
  "senv \<Rightarrow> tid \<Rightarrow> 'w ShardedThreadPool \<Rightarrow> (unit, 'w ShardedThreadPool) outcome" where
  "sworker_reset e t s = bind (sworker_beat e t s) (\<lambda>_ s. Ret () (sgoto t S_processing s))"

text \<open>The return of \<^verbatim>\<open>_process\<close>, with its effect on the queue.\<close>

definition sworker_processed ::
  "('w, 'u) swq_ops \<Rightarrow> tid \<Rightarrow> 'w ShardedThreadPool \<Rightarrow> (unit, 'w ShardedThreadPool) outcome" where
  "sworker_processed ops t s =
     bind (wq_call (sop_process ops (thread_index s t)) s) (\<lambda>_ s. Ret () (sgoto t S_head s))"

section \<open>The callers\<close>

text \<open>
  \<^verbatim>\<open>start_threads\<close> with its local index; the list holds the identifiers of the threads the
  system creates. The assertion is that of \<^verbatim>\<open>ThreadBase::create\<close> on the name.
\<close>

fun sp_start_threads ::
  "32 word \<Rightarrow> tid list \<Rightarrow> 'w ShardedThreadPool \<Rightarrow> (unit, 'w ShardedThreadPool) outcome" where
  "sp_start_threads i [] s =
     (if length (threads_shardedpool s) < unat (num_threads s) then Block s else Ret () s)"
| "sp_start_threads i (w # ws) s =
     (if length (threads_shardedpool s) < unat (num_threads s) then
        bind (assert_that (length (c_str (sp_thread_name s)) < 16) s) (\<lambda>_ s.
        sp_start_threads (i + 1) ws
          (sgoto w S_new (s\<lparr>threads_shardedpool := threads_shardedpool s @ [w],
             thread_index := (thread_index s)(w := i)\<rparr>)))
      else Ret () s)"

definition sp_start :: "tid list \<Rightarrow> 'w ShardedThreadPool \<Rightarrow> (unit, 'w ShardedThreadPool) outcome" where
  "sp_start ws s = sp_start_threads 0 ws s"

definition sp_stop_begin ::
  "('w, 'u) swq_ops \<Rightarrow> tid \<Rightarrow> 'w ShardedThreadPool \<Rightarrow> (unit, 'w ShardedThreadPool) outcome" where
  "sp_stop_begin ops t s =
     bind (assert_that (sp_wq s \<noteq> None) (s\<lparr>stop_threads := True\<rparr>)) (\<lambda>_ s.
     bind (wq_call (sop_return_waiting ops) s) (\<lambda>_ s.
     Ret () (sgoto t SC_stopping s)))"

definition sp_stop_finish :: "tid \<Rightarrow> 'w ShardedThreadPool \<Rightarrow> (unit, 'w ShardedThreadPool) outcome" where
  "sp_stop_finish t s =
     (if \<forall>w \<in> set (threads_shardedpool s). sp_pc s w = S_exit then
        Ret () (sgoto t S_outside (s\<lparr>threads_shardedpool := []\<rparr>))
      else Block s)"

definition sp_pause_turn :: "tid \<Rightarrow> 'w ShardedThreadPool \<Rightarrow> 'w ShardedThreadPool" where
  "sp_pause_turn t s =
     (if num_threads s \<noteq> num_paused s then sgoto t SC_pausing (s\<lparr>wait_cond := wait_cond s @ [t]\<rparr>)
      else sgoto t S_outside s)"

definition sp_pause ::
  "('w, 'u) swq_ops \<Rightarrow> tid \<Rightarrow> 'w ShardedThreadPool \<Rightarrow> (unit, 'w ShardedThreadPool) outcome" where
  "sp_pause ops t s =
     bind (wq_call (sop_return_waiting ops) (s\<lparr>pause_threads := True\<rparr>)) (\<lambda>_ s.
     Ret () (sp_pause_turn t s))"

definition sp_unpause ::
  "('w, 'u) swq_ops \<Rightarrow> 'w ShardedThreadPool \<Rightarrow> (unit, 'w ShardedThreadPool) outcome" where
  "sp_unpause ops s =
     bind (wq_call (sop_stop_return_waiting ops) (s\<lparr>pause_threads := False\<rparr>)) (\<lambda>_ s.
     Ret () (s\<lparr>shardedpool_cond := []\<rparr>))"

definition sp_drain_turn ::
  "('w, 'u) swq_ops \<Rightarrow> tid \<Rightarrow> 'w ShardedThreadPool \<Rightarrow> (unit, 'w ShardedThreadPool) outcome" where
  "sp_drain_turn ops t s =
     (if num_threads s \<noteq> num_drained s then
        Ret () (sgoto t SC_draining (s\<lparr>wait_cond := wait_cond s @ [t]\<rparr>))
      else
        bind (wq_call (sop_stop_return_waiting ops) (s\<lparr>drain_threads := False\<rparr>)) (\<lambda>_ s.
        Ret () (sgoto t S_outside (s\<lparr>shardedpool_cond := []\<rparr>))))"

definition sp_drain ::
  "('w, 'u) swq_ops \<Rightarrow> tid \<Rightarrow> 'w ShardedThreadPool \<Rightarrow> (unit, 'w ShardedThreadPool) outcome" where
  "sp_drain ops t s =
     bind (assert_that (sp_wq s \<noteq> None) (s\<lparr>drain_threads := True\<rparr>)) (\<lambda>_ s.
     bind (wq_call (sop_return_waiting ops) s) (\<lambda>_ s.
     sp_drain_turn ops t s))"

text \<open>\<^verbatim>\<open>drain()\<close> of the queue is that of its pool.\<close>

definition swq_drain ::
  "('w, 'u) swq_ops \<Rightarrow> tid \<Rightarrow> 'w ShardedThreadPool \<Rightarrow> (unit, 'w ShardedThreadPool) outcome" where
  "swq_drain ops t s = sp_drain ops t s"

end
