(* ===== verification/Sharded_System.thy ===== *)
theory Sharded_System
  imports Sharded
begin

text \<open>
  The sharded pool as a whole: workers and callers interleaved at the sections of the lock and
  at the unlocked reads of the flags, with the invariant of every reachable state. The
  constructor of the queue is run while no worker is, and \<^verbatim>\<open>start()\<close> and \<^verbatim>\<open>stop()\<close> do not
  overlap: both would race on a member that no lock protects.
\<close>

section \<open>Steps\<close>

fun slive :: "spoint \<Rightarrow> bool" where
  "slive S_outside = False"
| "slive S_exit = False"
| "slive SC_pausing = False"
| "slive SC_draining = False"
| "slive SC_stopping = False"
| "slive _ = True"

datatype saction = A_worker | A_wake | A_queue | A_set_wq | A_start | A_stop | A_pause | A_unpause | A_drain

inductive spstep ::
  "('w, 'u) swq_ops \<Rightarrow> saction \<Rightarrow> 'w ShardedThreadPool \<Rightarrow> 'w ShardedThreadPool \<Rightarrow> bool" for ops where
  enter: "sp_pc s t = S_new \<Longrightarrow> sworker_enter e t s = Ret () s' \<Longrightarrow> spstep ops A_worker s s'"
| head: "sp_pc s t = S_head \<Longrightarrow> sworker_head e t s = Ret () s' \<Longrightarrow> spstep ops A_worker s s'"
| check_pause: "sp_pc s t = S_check_pause \<Longrightarrow> spstep ops A_worker s (sworker_check_pause t s)"
| paused: "sp_pc s t = S_pause_lock \<Longrightarrow> sworker_pause e t s = Ret () s' \<Longrightarrow> spstep ops A_worker s s'"
| pause_again: "sp_pc s t = S_paused \<Longrightarrow> t \<notin> set (shardedpool_cond s) \<Longrightarrow>
     sworker_pause_turn e t s = Ret () s' \<Longrightarrow> spstep ops A_worker s s'"
| check_drain: "sp_pc s t = S_check_drain \<Longrightarrow> spstep ops A_worker s (sworker_check_drain t s)"
| drained: "sp_pc s t = S_drain_lock \<Longrightarrow> sworker_drain ops e t s = Ret () s' \<Longrightarrow> spstep ops A_worker s s'"
| drain_again: "sp_pc s t = S_drained \<Longrightarrow> t \<notin> set (shardedpool_cond s) \<Longrightarrow>
     sworker_drain_turn e t s = Ret () s' \<Longrightarrow> spstep ops A_worker s s'"
| reset: "sp_pc s t = S_reset \<Longrightarrow> sworker_reset e t s = Ret () s' \<Longrightarrow> spstep ops A_worker s s'"
| processed: "sp_pc s t = S_processing \<Longrightarrow> sworker_processed ops t s = Ret () s' \<Longrightarrow>
     spstep ops A_worker s s'"
| wake_up: "set ts \<subseteq> set (shardedpool_cond s) \<Longrightarrow> spstep ops A_wake s (s\<lparr>shardedpool_cond := ts\<rparr>)"
| wait_wake_up: "set ts \<subseteq> set (wait_cond s) \<Longrightarrow> spstep ops A_wake s (s\<lparr>wait_cond := ts\<rparr>)"
| queue: "swq_queue ops item s = Ret () s' \<Longrightarrow> spstep ops A_queue s s'"
| queue_front: "swq_queue_front ops item s = Ret () s' \<Longrightarrow> spstep ops A_queue s s'"
| set_wq: "\<forall>u. \<not> slive (sp_pc s u) \<Longrightarrow> spstep ops A_set_wq s (ShardedWQ_ctor ti sti w s)"
| start: "distinct ws \<Longrightarrow> \<forall>w \<in> set ws. sp_pc s w = S_outside \<Longrightarrow> \<forall>u. sp_pc s u \<noteq> SC_stopping \<Longrightarrow>
     sp_start ws s = Ret () s' \<Longrightarrow> spstep ops A_start s s'"
| stop: "sp_pc s t = S_outside \<Longrightarrow> \<forall>u. sp_pc s u \<noteq> SC_stopping \<Longrightarrow> sp_stop_begin ops t s = Ret () s' \<Longrightarrow>
     spstep ops A_stop s s'"
| stopped: "sp_pc s t = SC_stopping \<Longrightarrow> sp_stop_finish t s = Ret () s' \<Longrightarrow> spstep ops A_stop s s'"
| pause: "sp_pc s t = S_outside \<Longrightarrow> sp_pause ops t s = Ret () s' \<Longrightarrow> spstep ops A_pause s s'"
| pausing: "sp_pc s t = SC_pausing \<Longrightarrow> t \<notin> set (wait_cond s) \<Longrightarrow> spstep ops A_pause s (sp_pause_turn t s)"
| unpause: "sp_unpause ops s = Ret () s' \<Longrightarrow> spstep ops A_unpause s s'"
| drain: "sp_pc s t = S_outside \<Longrightarrow> sp_drain ops t s = Ret () s' \<Longrightarrow> spstep ops A_drain s s'"
| draining: "sp_pc s t = SC_draining \<Longrightarrow> t \<notin> set (wait_cond s) \<Longrightarrow> sp_drain_turn ops t s = Ret () s' \<Longrightarrow>
     spstep ops A_drain s s'"

inductive sp_reach :: "('w, 'u) swq_ops \<Rightarrow> 'w ShardedThreadPool \<Rightarrow> bool" for ops where
  start: "sp_reach ops (ShardedThreadPool_ctor hb nm tn n)"
| step: "sp_reach ops s \<Longrightarrow> spstep ops a s s' \<Longrightarrow> sp_reach ops s'"

text \<open>Runs in which only some actions occur.\<close>

definition sp_run ::
  "('w, 'u) swq_ops \<Rightarrow> (saction \<Rightarrow> bool) \<Rightarrow> 'w ShardedThreadPool \<Rightarrow> 'w ShardedThreadPool \<Rightarrow> bool" where
  "sp_run ops P = (\<lambda>s s'. \<exists>a. P a \<and> spstep ops a s s')\<^sup>*\<^sup>*"

lemma sp_run_induct [consumes 1, case_names base step]:
  assumes "sp_run ops P s s'" "Q s"
    and "\<And>a x y. sp_run ops P s x \<Longrightarrow> P a \<Longrightarrow> spstep ops a x y \<Longrightarrow> Q x \<Longrightarrow> Q y"
  shows "Q s'"
  using assms(1) unfolding sp_run_def
proof (induction rule: rtranclp_induct)
  case (step x y)
  then show ?case using assms(3) unfolding sp_run_def by blast
qed (rule assms(2))

lemma sp_run_refl: "sp_run ops P s s"
  by (simp add: sp_run_def)

lemma sp_run_snoc:
  assumes "sp_run ops P s x" "spstep ops a x y" "P a"
  shows "sp_run ops P s y"
  unfolding sp_run_def
proof (rule rtranclp.rtrancl_into_rtrancl)
  show "(\<lambda>s s'. \<exists>a. P a \<and> spstep ops a s s')\<^sup>*\<^sup>* s x" using assms(1) by (simp add: sp_run_def)
qed (use assms(2,3) in blast)

lemma sp_run_reach:
  assumes "sp_run ops P s s'" "sp_reach ops s"
  shows "sp_reach ops s'"
  using assms by (induction rule: sp_run_induct) (auto intro: sp_reach.step)

section \<open>The invariant\<close>

definition sp_counts :: "(tid \<Rightarrow> spoint) \<Rightarrow> 32 word \<Rightarrow> 32 word \<Rightarrow> bool" where
  "sp_counts pc np nd \<longleftrightarrow> finite {t. pc t \<noteq> S_outside} \<and>
     np = word_of_nat (card {t. pc t = S_paused}) \<and> nd = word_of_nat (card {t. pc t = S_drained})"

definition sp_roster :: "(tid \<Rightarrow> spoint) \<Rightarrow> tid list \<Rightarrow> 32 word \<Rightarrow> (tid \<Rightarrow> 32 word) \<Rightarrow> bool" where
  "sp_roster pc ths n idx \<longleftrightarrow> distinct ths \<and> length ths \<le> unat n \<and> (\<forall>t. slive (pc t) \<longrightarrow> t \<in> set ths) \<and>
     (\<forall>t \<in> set ths. slive (pc t) \<or> pc t = S_exit) \<and>
     (\<forall>i < length ths. idx (ths ! i) = word_of_nat i)"

definition sp_waits :: "(tid \<Rightarrow> spoint) \<Rightarrow> tid list \<Rightarrow> 32 word \<Rightarrow> 32 word \<Rightarrow> 32 word \<Rightarrow> bool" where
  "sp_waits pc wc n np nd \<longleftrightarrow> (\<forall>t \<in> set wc.
     (pc t = SC_pausing \<and> n \<noteq> np) \<or> (pc t = SC_draining \<and> n \<noteq> nd))"

definition sp_sleeps :: "(tid \<Rightarrow> spoint) \<Rightarrow> tid list \<Rightarrow> bool \<Rightarrow> bool \<Rightarrow> bool" where
  "sp_sleeps pc sc pf df \<longleftrightarrow> (\<forall>t \<in> set sc. (pc t = S_paused \<and> pf) \<or> (pc t = S_drained \<and> df))"

definition sp_flags :: "(tid \<Rightarrow> spoint) \<Rightarrow> 'w option \<Rightarrow> bool \<Rightarrow> bool" where
  "sp_flags pc wq st \<longleftrightarrow> (\<forall>t. slive (pc t) \<and> pc t \<noteq> S_new \<longrightarrow> wq \<noteq> None) \<and>
     (\<forall>t. pc t = S_exit \<or> pc t = SC_stopping \<longrightarrow> st)"

definition sp_inv :: "'w ShardedThreadPool \<Rightarrow> bool" where
  "sp_inv s \<longleftrightarrow> sp_counts (sp_pc s) (num_paused s) (num_drained s) \<and>
     sp_roster (sp_pc s) (threads_shardedpool s) (num_threads s) (thread_index s) \<and>
     sp_waits (sp_pc s) (wait_cond s) (num_threads s) (num_paused s) (num_drained s) \<and>
     sp_sleeps (sp_pc s) (shardedpool_cond s) (pause_threads s) (drain_threads s) \<and>
     sp_flags (sp_pc s) (sp_wq s) (stop_threads s)"

lemma sp_inv_parts:
  assumes "sp_inv s"
  shows "sp_counts (sp_pc s) (num_paused s) (num_drained s)"
    "sp_roster (sp_pc s) (threads_shardedpool s) (num_threads s) (thread_index s)"
    "sp_waits (sp_pc s) (wait_cond s) (num_threads s) (num_paused s) (num_drained s)"
    "sp_sleeps (sp_pc s) (shardedpool_cond s) (pause_threads s) (drain_threads s)"
    "sp_flags (sp_pc s) (sp_wq s) (stop_threads s)"
  using assms by (simp_all add: sp_inv_def)

subsection \<open>Counting\<close>

lemma card_at_upd:
  fixes pc :: "tid \<Rightarrow> spoint"
  assumes "finite {u. pc u \<noteq> S_outside}" "x \<noteq> S_outside"
  shows "card {u. (pc(t := p)) u = x} + (if pc t = x then 1 else 0) =
    card {u. pc u = x} + (if p = x then 1 else 0)"
proof -
  let ?A = "{u. u \<noteq> t \<and> pc u = x}"
  have fin: "finite ?A" using assms by (elim finite_subset [rotated]) auto
  have "{u. pc u = x} = (if pc t = x then insert t ?A else ?A)"
    "{u. (pc(t := p)) u = x} = (if p = x then insert t ?A else ?A)" by auto
  then show ?thesis using fin by simp
qed

lemma finite_at_upd:
  "finite {u. pc u \<noteq> S_outside} \<Longrightarrow> finite {u. (pc(t := p)) u \<noteq> S_outside}"
  by (rule finite_subset [of _ "insert t {u. pc u \<noteq> S_outside}"]) auto

definition one_at :: "spoint \<Rightarrow> spoint \<Rightarrow> 32 word" where
  "one_at x p = (if p = x then 1 else 0)"

lemma counts_upd:
  assumes "sp_counts pc np nd"
  shows "sp_counts (pc(t := p)) (np - one_at S_paused (pc t) + one_at S_paused p)
    (nd - one_at S_drained (pc t) + one_at S_drained p)"
proof -
  have fin: "finite {u. pc u \<noteq> S_outside}" using assms by (simp add: sp_counts_def)
  have eq: "word_of_nat (card {u. (pc(t := p)) u = x}) =
      word_of_nat (card {u. pc u = x}) - one_at x (pc t) + one_at x p" if "x \<noteq> S_outside" for x
  proof -
    define a b where "a = card {u. (pc(t := p)) u = x}" and "b = card {u. pc u = x}"
    have "a + (if pc t = x then 1 else 0) = b + (if p = x then 1 else 0)"
      unfolding a_def b_def by (rule card_at_upd [OF fin that])
    from arg_cong [OF this, of "word_of_nat :: nat \<Rightarrow> 32 word"]
    have "word_of_nat a = (word_of_nat b :: 32 word) - one_at x (pc t) + one_at x p"
      by (auto simp: one_at_def algebra_simps split: if_splits)
    then show ?thesis unfolding a_def b_def .
  qed
  show ?thesis
    using assms eq [of S_paused] eq [of S_drained] finite_at_upd [OF fin, of t p]
    unfolding sp_counts_def by simp
qed

text \<open>A live worker that is not counted keeps the counter below the number of threads.\<close>

lemma not_all:
  assumes "sp_roster pc ths n idx" "slive x" "t \<in> set ths" "pc t \<noteq> x"
  shows "word_of_nat (card {u. pc u = x}) \<noteq> n"
proof
  assume eq: "word_of_nat (card {u. pc u = x}) = n"
  have r: "distinct ths" "length ths \<le> unat n" "\<forall>t. slive (pc t) \<longrightarrow> t \<in> set ths"
    using assms(1) by (simp_all add: sp_roster_def)
  have "{u. pc u = x} \<subseteq> set ths - {t}" using r(3) assms(2,4) by auto
  then have "card {u. pc u = x} \<le> card (set ths - {t})" by (intro card_mono) auto
  also have "\<dots> < length ths" using assms(3) r(1)
    by (metis card_Diff1_less distinct_card List.finite_set)
  finally have lt: "card {u. pc u = x} < unat n" using r(2) by simp
  then have "unat (word_of_nat (card {u. pc u = x}) :: 32 word) = card {u. pc u = x}"
    by (intro le_unat_uoi [of _ n]) simp
  then show False using eq lt by simp
qed

subsection \<open>A worker moves\<close>

lemma inv_worker:
  assumes inv: "sp_inv s" and live: "slive (sp_pc s t)" and p: "slive p \<or> (p = S_exit \<and> stop_threads s)"
    and pc: "sp_pc s' = (sp_pc s)(t := p)"
    and same: "threads_shardedpool s' = threads_shardedpool s" "num_threads s' = num_threads s"
      "thread_index s' = thread_index s" "stop_threads s' = stop_threads s"
      "pause_threads s' = pause_threads s" "drain_threads s' = drain_threads s"
    and np: "num_paused s' = num_paused s - one_at S_paused (sp_pc s t) + one_at S_paused p"
    and nd: "num_drained s' = num_drained s - one_at S_drained (sp_pc s t) + one_at S_drained p"
    and wait: "wait_cond s' = [] \<or> (wait_cond s' = wait_cond s \<and> p \<noteq> S_paused \<and> p \<noteq> S_drained) \<or>
      (wait_cond s' = wait_cond s \<and> p = sp_pc s t)"
    and sleep: "t \<notin> set (shardedpool_cond s)" "shardedpool_cond s' = shardedpool_cond s \<or>
      (shardedpool_cond s' = shardedpool_cond s @ [t] \<and>
       ((p = S_paused \<and> pause_threads s) \<or> (p = S_drained \<and> drain_threads s)))"
    and wq: "sp_wq s' \<noteq> None"
  shows "sp_inv s'"
proof -
  note parts = sp_inv_parts [OF inv]
  have t: "t \<in> set (threads_shardedpool s)" using parts(2) live by (simp add: sp_roster_def)
  have counts: "sp_counts (sp_pc s') (num_paused s') (num_drained s')"
    unfolding pc np nd by (rule counts_upd [OF parts(1)])
  have roster: "sp_roster (sp_pc s') (threads_shardedpool s') (num_threads s') (thread_index s')"
    using parts(2) p t unfolding pc same sp_roster_def by auto
  have below: "num_threads s' \<noteq> num_paused s'" if "p \<noteq> S_paused"
    using not_all [OF roster, of S_paused t] counts that t by (simp add: pc same sp_counts_def)
  have below': "num_threads s' \<noteq> num_drained s'" if "p \<noteq> S_drained"
    using not_all [OF roster, of S_drained t] counts that t by (simp add: pc same sp_counts_def)
  have np': "num_paused s' = num_paused s" "num_drained s' = num_drained s" if "p = sp_pc s t"
    using np nd that by simp_all
  have waits: "sp_waits (sp_pc s') (wait_cond s') (num_threads s') (num_paused s') (num_drained s')"
    unfolding sp_waits_def
  proof
    fix u assume u: "u \<in> set (wait_cond s')"
    then have "u \<in> set (wait_cond s)" using wait by auto
    then have old: "(sp_pc s u = SC_pausing \<and> num_threads s \<noteq> num_paused s) \<or>
        (sp_pc s u = SC_draining \<and> num_threads s \<noteq> num_drained s)"
      using parts(3) unfolding sp_waits_def by blast
    then have "u \<noteq> t" using live by auto
    moreover have "(p \<noteq> S_paused \<and> p \<noteq> S_drained) \<or> p = sp_pc s t" using wait u by auto
    ultimately show "(sp_pc s' u = SC_pausing \<and> num_threads s' \<noteq> num_paused s') \<or>
        (sp_pc s' u = SC_draining \<and> num_threads s' \<noteq> num_drained s')"
      using old below below' np' by (auto simp: pc same)
  qed
  have sleeps: "sp_sleeps (sp_pc s') (shardedpool_cond s') (pause_threads s') (drain_threads s')"
    using parts(4) sleep unfolding sp_sleeps_def pc same by auto
  have flags: "sp_flags (sp_pc s') (sp_wq s') (stop_threads s')"
    using parts(5) wq p unfolding sp_flags_def pc same by auto
  show ?thesis using counts roster waits sleeps flags by (simp add: sp_inv_def)
qed

lemma worker_wq: "sp_inv s \<Longrightarrow> slive (sp_pc s t) \<Longrightarrow> sp_pc s t \<noteq> S_new \<Longrightarrow> sp_wq s \<noteq> None"
  by (auto simp: sp_inv_def sp_flags_def)

lemma worker_awake:
  "sp_inv s \<Longrightarrow> sp_pc s t \<noteq> S_paused \<Longrightarrow> sp_pc s t \<noteq> S_drained \<Longrightarrow> t \<notin> set (shardedpool_cond s)"
  by (auto simp: sp_inv_def sp_sleeps_def)

subsection \<open>What the sections do\<close>

lemma sp_with_hb_Ret:
  "sp_with_hb f s = Ret a s' \<longleftrightarrow> (\<exists>h. f (hbmp s) = Ret a h \<and> s' = s\<lparr>hbmp := h\<rparr>)"
  by (auto simp: sp_with_hb_def lift_state_eq_Ret_iff)

lemma sworker_beat_Ret:
  "sworker_beat e t s = Ret () s' \<longleftrightarrow> (\<exists>w h. sp_wq s = Some w \<and>
     reset_timeout (se_now e) (sp_hb s t) (timeout_interval w) (sucide_timeout_interval w) (hbmp s) = Ret () h \<and>
     s' = s\<lparr>hbmp := h\<rparr>)"
  by (auto simp: sworker_beat_def sp_with_hb_Ret split: option.splits)

lemma wq_call_Ret:
  "wq_call f s = Ret () s' \<longleftrightarrow>
     (\<exists>w. sp_wq s = Some w \<and> s' = s\<lparr>sp_wq := Some (w\<lparr>swq_state := f (swq_state w)\<rparr>)\<rparr>)"
  by (auto simp: wq_call_def split: option.splits)

lemmas section_Ret = sp_with_hb_Ret sworker_beat_Ret wq_call_Ret outcome_inv

lemma sp_pc_sgoto [simp]: "sp_pc (sgoto t p s) = (sp_pc s)(t := p)"
  by (simp add: sgoto_def)

lemma pause_turn_cases:
  assumes "sworker_pause_turn e t s = Ret () s'"
  obtains (stay) h where "pause_threads s" "sp_wq s \<noteq> None"
      "s' = sgoto t S_paused (s\<lparr>hbmp := h, shardedpool_cond := shardedpool_cond s @ [t]\<rparr>)"
    | (leave) "\<not> pause_threads s" "s' = sgoto t S_check_drain (s\<lparr>num_paused := num_paused s - 1\<rparr>)"
  using assms by (auto simp: sworker_pause_turn_def section_Ret split: if_splits)

lemma drain_turn_cases:
  assumes "sworker_drain_turn e t s = Ret () s'"
  obtains (stay) h where "drain_threads s" "sp_wq s \<noteq> None"
      "s' = sgoto t S_drained (s\<lparr>hbmp := h, shardedpool_cond := shardedpool_cond s @ [t]\<rparr>)"
    | (leave) "\<not> drain_threads s" "s' = sgoto t S_reset (s\<lparr>num_drained := num_drained s - 1\<rparr>)"
  using assms by (auto simp: sworker_drain_turn_def section_Ret split: if_splits)

lemma inv_enter:
  assumes "sp_inv s" "sp_pc s t = S_new" "sworker_enter e t s = Ret () s'"
  shows "sp_inv s'"
proof -
  obtain m h where "s' = sgoto t S_head (s\<lparr>hbmp := m, sp_hb := h\<rparr>)" "sp_wq s \<noteq> None"
    using assms(3) by (auto simp: sworker_enter_def section_Ret)
  then show ?thesis
    using assms(2) worker_awake [OF assms(1), of t]
    by (intro inv_worker [OF assms(1), of t S_head]) (simp_all add: sgoto_def one_at_def)
qed

lemma inv_head:
  assumes "sp_inv s" "sp_pc s t = S_head" "sworker_head e t s = Ret () s'"
  shows "sp_inv s'"
proof -
  have facts: "sp_wq s \<noteq> None" "t \<notin> set (shardedpool_cond s)"
    using worker_wq [OF assms(1), of t] worker_awake [OF assms(1), of t] assms(2) by simp_all
  consider (go) "s' = sgoto t S_check_pause s"
    | (exit) m where "stop_threads s" "s' = sgoto t S_exit (s\<lparr>hbmp := m\<rparr>)"
    using assms(3) by (auto simp: sworker_head_def sworker_exit_def section_Ret split: if_splits)
  then show ?thesis
  proof cases
    case go
    then show ?thesis using facts assms(2)
      by (intro inv_worker [OF assms(1), of t S_check_pause]) (simp_all add: sgoto_def one_at_def)
  next
    case exit
    then show ?thesis using facts assms(2)
      by (intro inv_worker [OF assms(1), of t S_exit]) (simp_all add: sgoto_def one_at_def)
  qed
qed

lemma inv_step_to:
  assumes "sp_inv s" "slive (sp_pc s t)" "sp_pc s t \<notin> {S_new, S_paused, S_drained}" "slive p" "p \<noteq> S_paused"
    "p \<noteq> S_drained"
  shows "sp_inv (sgoto t p s)"
proof -
  have "sp_wq s \<noteq> None" "t \<notin> set (shardedpool_cond s)"
    using worker_wq [OF assms(1,2)] worker_awake [OF assms(1), of t] assms(3) by auto
  then show ?thesis
    using assms(2-6) by (intro inv_worker [OF assms(1), of t p]) (simp_all add: sgoto_def one_at_def)
qed

lemma inv_pause_section:
  assumes "sp_inv s" "sp_pc s t = S_pause_lock" "sworker_pause e t s = Ret () s'"
  shows "sp_inv s'"
  using assms(3) unfolding sworker_pause_def
proof (cases rule: pause_turn_cases)
  case stay
  then show ?thesis using assms(2) worker_awake [OF assms(1), of t]
    by (intro inv_worker [OF assms(1), of t S_paused]) (simp_all add: sgoto_def one_at_def)
next
  case leave
  then show ?thesis using assms(2) worker_awake [OF assms(1), of t] worker_wq [OF assms(1), of t]
    by (intro inv_worker [OF assms(1), of t S_check_drain]) (simp_all add: sgoto_def one_at_def)
qed

lemma inv_pause_again:
  assumes "sp_inv s" "sp_pc s t = S_paused" "t \<notin> set (shardedpool_cond s)"
    "sworker_pause_turn e t s = Ret () s'"
  shows "sp_inv s'"
  using assms(4)
proof (cases rule: pause_turn_cases)
  case stay
  then show ?thesis using assms(2,3)
    by (intro inv_worker [OF assms(1), of t S_paused]) (simp_all add: sgoto_def one_at_def)
next
  case leave
  then show ?thesis using assms(2,3) worker_wq [OF assms(1), of t]
    by (intro inv_worker [OF assms(1), of t S_check_drain]) (simp_all add: sgoto_def one_at_def)
qed

lemma inv_drain_again:
  assumes "sp_inv s" "sp_pc s t = S_drained" "t \<notin> set (shardedpool_cond s)"
    "sworker_drain_turn e t s = Ret () s'"
  shows "sp_inv s'"
  using assms(4)
proof (cases rule: drain_turn_cases)
  case stay
  then show ?thesis using assms(2,3)
    by (intro inv_worker [OF assms(1), of t S_drained]) (simp_all add: sgoto_def one_at_def)
next
  case leave
  then show ?thesis using assms(2,3) worker_wq [OF assms(1), of t]
    by (intro inv_worker [OF assms(1), of t S_reset]) (simp_all add: sgoto_def one_at_def)
qed

lemma inv_drain_section:
  assumes "sp_inv s" "sp_pc s t = S_drain_lock" "sworker_drain ops e t s = Ret () s'"
  shows "sp_inv s'"
proof -
  have "s' = sgoto t S_reset s \<or>
      sworker_drain_turn e t (s\<lparr>num_drained := num_drained s + 1, wait_cond := []\<rparr>) = Ret () s'"
    using assms(3) by (simp add: sworker_drain_def split: option.splits if_splits)
  then consider (full) "s' = sgoto t S_reset s"
    | (empty) "sworker_drain_turn e t (s\<lparr>num_drained := num_drained s + 1, wait_cond := []\<rparr>) = Ret () s'"
    by blast
  then show ?thesis
  proof cases
    case full
    then show ?thesis using inv_step_to [OF assms(1), of t S_reset] assms(2) by simp
  next
    case empty
    then show ?thesis
    proof (cases rule: drain_turn_cases)
      case stay
      then show ?thesis using assms(2) worker_awake [OF assms(1), of t]
        by (intro inv_worker [OF assms(1), of t S_drained]) (simp_all add: sgoto_def one_at_def)
    next
      case leave
      then show ?thesis using assms(2) worker_awake [OF assms(1), of t] worker_wq [OF assms(1), of t]
        by (intro inv_worker [OF assms(1), of t S_reset]) (simp_all add: sgoto_def one_at_def)
    qed
  qed
qed

lemma inv_reset:
  assumes "sp_inv s" "sp_pc s t = S_reset" "sworker_reset e t s = Ret () s'"
  shows "sp_inv s'"
proof -
  obtain m where "s' = sgoto t S_processing (s\<lparr>hbmp := m\<rparr>)" "sp_wq s \<noteq> None"
    using assms(3) by (auto simp: sworker_reset_def section_Ret)
  then show ?thesis using assms(2) worker_awake [OF assms(1), of t]
    by (intro inv_worker [OF assms(1), of t S_processing]) (simp_all add: sgoto_def one_at_def)
qed

lemma inv_processed:
  assumes "sp_inv s" "sp_pc s t = S_processing" "sworker_processed ops t s = Ret () s'"
  shows "sp_inv s'"
proof -
  obtain w where "s' = sgoto t S_head (s\<lparr>sp_wq := Some w\<rparr>)"
    using assms(3) by (auto simp: sworker_processed_def section_Ret)
  then show ?thesis using assms(2) worker_awake [OF assms(1), of t]
    by (intro inv_worker [OF assms(1), of t S_head]) (simp_all add: sgoto_def one_at_def)
qed

subsection \<open>A caller moves\<close>

definition calls :: "spoint \<Rightarrow> bool" where
  "calls p \<longleftrightarrow> p \<in> {S_outside, SC_pausing, SC_draining, SC_stopping}"

lemma inv_caller:
  assumes inv: "sp_inv s" and t: "calls (sp_pc s t)" "calls p" "t \<notin> set (wait_cond s)"
    and pc: "sp_pc s' = (sp_pc s)(t := p)"
    and same: "threads_shardedpool s' = threads_shardedpool s" "num_threads s' = num_threads s"
      "thread_index s' = thread_index s" "num_paused s' = num_paused s" "num_drained s' = num_drained s"
    and wait: "wait_cond s' = wait_cond s \<or> (wait_cond s' = wait_cond s @ [t] \<and>
      ((p = SC_pausing \<and> num_threads s \<noteq> num_paused s) \<or> (p = SC_draining \<and> num_threads s \<noteq> num_drained s)))"
    and sleep: "shardedpool_cond s' = [] \<or> (shardedpool_cond s' = shardedpool_cond s \<and>
      (pause_threads s \<longrightarrow> pause_threads s') \<and> (drain_threads s \<longrightarrow> drain_threads s'))"
    and flags: "sp_wq s \<noteq> None \<longrightarrow> sp_wq s' \<noteq> None" "stop_threads s \<longrightarrow> stop_threads s'"
      "p = SC_stopping \<longrightarrow> stop_threads s'"
  shows "sp_inv s'"
proof -
  note parts = sp_inv_parts [OF inv]
  have zero: "one_at S_paused (sp_pc s t) = 0" "one_at S_drained (sp_pc s t) = 0" "one_at S_paused p = 0"
    "one_at S_drained p = 0" using t(1,2) by (auto simp: one_at_def calls_def)
  have "sp_counts (sp_pc s') (num_paused s') (num_drained s')"
    using counts_upd [OF parts(1), of t p] by (simp add: pc same zero)
  moreover have "sp_roster (sp_pc s') (threads_shardedpool s') (num_threads s') (thread_index s')"
    using parts(2) t(1,2) unfolding pc same sp_roster_def by (auto simp: calls_def)
  moreover have "sp_waits (sp_pc s') (wait_cond s') (num_threads s') (num_paused s') (num_drained s')"
    using parts(3) t(3) wait unfolding pc same sp_waits_def by auto
  moreover have "sp_sleeps (sp_pc s') (shardedpool_cond s') (pause_threads s') (drain_threads s')"
  proof -
    have "t \<notin> set (shardedpool_cond s)" using worker_awake [OF inv, of t] t(1) by (auto simp: calls_def)
    then show ?thesis using parts(4) sleep unfolding pc sp_sleeps_def by auto
  qed
  moreover have "sp_flags (sp_pc s') (sp_wq s') (stop_threads s')"
    using parts(5) t(2) flags unfolding pc sp_flags_def by (auto simp: calls_def)
  ultimately show ?thesis by (simp add: sp_inv_def)
qed

lemma caller_awake: "sp_inv s \<Longrightarrow> sp_pc s t = S_outside \<Longrightarrow> t \<notin> set (wait_cond s)"
  by (auto simp: sp_inv_def sp_waits_def)

lemma inv_sp_pause_turn:
  assumes "sp_inv s" "calls (sp_pc s t)" "t \<notin> set (wait_cond s)"
  shows "sp_inv (sp_pause_turn t s)"
proof (cases "num_threads s = num_paused s")
  case True
  then show ?thesis using assms(2,3) unfolding sp_pause_turn_def
    by (intro inv_caller [OF assms(1), of t S_outside]) (simp_all add: sgoto_def calls_def)
next
  case False
  then show ?thesis using assms(2,3) unfolding sp_pause_turn_def
    by (intro inv_caller [OF assms(1), of t SC_pausing]) (simp_all add: sgoto_def calls_def)
qed

lemma inv_same_pc:
  assumes "sp_inv s" "sp_pc s' = sp_pc s" "threads_shardedpool s' = threads_shardedpool s"
    "num_threads s' = num_threads s" "thread_index s' = thread_index s" "num_paused s' = num_paused s"
    "num_drained s' = num_drained s" "stop_threads s' = stop_threads s"
    "set (wait_cond s') \<subseteq> set (wait_cond s)"
    "shardedpool_cond s' = [] \<or> (set (shardedpool_cond s') \<subseteq> set (shardedpool_cond s) \<and>
      (pause_threads s \<longrightarrow> pause_threads s') \<and> (drain_threads s \<longrightarrow> drain_threads s'))"
    "sp_wq s \<noteq> None \<longrightarrow> sp_wq s' \<noteq> None"
  shows "sp_inv s'"
proof -
  note parts = sp_inv_parts [OF assms(1)]
  have "sp_waits (sp_pc s') (wait_cond s') (num_threads s') (num_paused s') (num_drained s')"
    using parts(3) assms(2-9) unfolding sp_waits_def by (metis subsetD)
  moreover have "sp_sleeps (sp_pc s') (shardedpool_cond s') (pause_threads s') (drain_threads s')"
    using parts(4) assms(2,10) unfolding sp_sleeps_def by auto
  moreover have "sp_flags (sp_pc s') (sp_wq s') (stop_threads s')"
    using parts(5) assms(2,8,11) unfolding sp_flags_def by metis
  ultimately show ?thesis using parts(1,2) assms(2-7) by (simp add: sp_inv_def)
qed

lemma inv_pause:
  assumes "sp_inv s" "sp_pc s t = S_outside" "sp_pause ops t s = Ret () s'"
  shows "sp_inv s'"
proof -
  obtain w where s': "s' = sp_pause_turn t (s\<lparr>pause_threads := True, sp_wq := Some w\<rparr>)"
    using assms(3) by (auto simp: sp_pause_def section_Ret)
  have "sp_inv (s\<lparr>pause_threads := True, sp_wq := Some w\<rparr>)"
    by (rule inv_same_pc [OF assms(1)]) simp_all
  then show ?thesis
    unfolding s' using assms(2) caller_awake [OF assms(1,2)] by (intro inv_sp_pause_turn) (simp_all add: calls_def)
qed

lemma inv_sp_unpause:
  assumes "sp_inv s" "sp_unpause ops s = Ret () s'"
  shows "sp_inv s'"
proof -
  obtain w where s': "s' = s\<lparr>pause_threads := False, sp_wq := Some w, shardedpool_cond := []\<rparr>"
    using assms(2) by (auto simp: sp_unpause_def section_Ret)
  show ?thesis unfolding s' by (rule inv_same_pc [OF assms(1)]) simp_all
qed

lemma inv_sp_drain_turn:
  assumes "sp_inv s" "calls (sp_pc s t)" "t \<notin> set (wait_cond s)" "sp_drain_turn ops t s = Ret () s'"
  shows "sp_inv s'"
proof (cases "num_threads s = num_drained s")
  case True
  then obtain w where "s' = sgoto t S_outside (s\<lparr>drain_threads := False, sp_wq := Some w, shardedpool_cond := []\<rparr>)"
    using assms(4) by (auto simp: sp_drain_turn_def section_Ret)
  then show ?thesis using assms(2,3)
    by (intro inv_caller [OF assms(1), of t S_outside]) (simp_all add: sgoto_def calls_def)
next
  case False
  then show ?thesis using assms(2-4) unfolding sp_drain_turn_def
    by (intro inv_caller [OF assms(1), of t SC_draining]) (auto simp: sgoto_def calls_def)
qed

lemma inv_drain:
  assumes "sp_inv s" "sp_pc s t = S_outside" "sp_drain ops t s = Ret () s'"
  shows "sp_inv s'"
proof -
  obtain w where s': "sp_drain_turn ops t (s\<lparr>drain_threads := True, sp_wq := Some w\<rparr>) = Ret () s'"
    using assms(3) by (auto simp: sp_drain_def section_Ret)
  have "sp_inv (s\<lparr>drain_threads := True, sp_wq := Some w\<rparr>)"
    by (rule inv_same_pc [OF assms(1)]) simp_all
  then show ?thesis
    using assms(2) caller_awake [OF assms(1,2)] by (intro inv_sp_drain_turn [OF _ _ _ s']) (simp_all add: calls_def)
qed

lemma inv_stop:
  assumes "sp_inv s" "sp_pc s t = S_outside" "sp_stop_begin ops t s = Ret () s'"
  shows "sp_inv s'"
proof -
  obtain w where "s' = sgoto t SC_stopping (s\<lparr>stop_threads := True, sp_wq := Some w\<rparr>)"
    using assms(3) by (auto simp: sp_stop_begin_def section_Ret)
  then show ?thesis using assms(2) caller_awake [OF assms(1,2)]
    by (intro inv_caller [OF assms(1), of t SC_stopping]) (simp_all add: sgoto_def calls_def)
qed

lemma inv_stopped:
  assumes "sp_inv s" "sp_pc s t = SC_stopping" "sp_stop_finish t s = Ret () s'"
  shows "sp_inv s' \<and> threads_shardedpool s' = []"
proof -
  let ?s = "s\<lparr>threads_shardedpool := []\<rparr>"
  note parts = sp_inv_parts [OF assms(1)]
  have exit: "\<forall>w \<in> set (threads_shardedpool s). sp_pc s w = S_exit" and s': "s' = sgoto t S_outside ?s"
    using assms(3) by (auto simp: sp_stop_finish_def split: if_splits)
  have "\<not> slive (sp_pc s u)" for u
    using exit parts(2) unfolding sp_roster_def by (metis slive.simps(2))
  then have "sp_roster (sp_pc ?s) (threads_shardedpool ?s) (num_threads ?s) (thread_index ?s)"
    by (simp add: sp_roster_def)
  then have inv: "sp_inv ?s" using parts by (simp add: sp_inv_def)
  have "t \<notin> set (wait_cond s)" using parts(3) assms(2) by (auto simp: sp_waits_def)
  then have "sp_inv s'" unfolding s' using assms(2)
    by (intro inv_caller [OF inv, of t S_outside]) (simp_all add: sgoto_def calls_def)
  then show ?thesis by (simp add: s' sgoto_def)
qed

subsection \<open>Starting\<close>

definition sp_full :: "'w ShardedThreadPool \<Rightarrow> bool" where
  "sp_full s \<longleftrightarrow> threads_shardedpool s = [] \<or> length (threads_shardedpool s) = unat (num_threads s)"

lemma roster_snoc:
  assumes "sp_roster pc ths n idx" "w \<notin> set ths" "length ths < unat n"
  shows "sp_roster (pc(w := S_new)) (ths @ [w]) n (idx(w := word_of_nat (length ths)))"
proof -
  have "(idx(w := word_of_nat (length ths))) ((ths @ [w]) ! i) = word_of_nat i" if "i < length (ths @ [w])" for i
  proof (cases "i < length ths")
    case True
    then have "ths ! i \<noteq> w" using assms(2) nth_mem by blast
    then show ?thesis using assms(1) True by (simp add: sp_roster_def nth_append)
  next
    case False
    then have "i = length ths" using that by simp
    then show ?thesis by simp
  qed
  then show ?thesis using assms unfolding sp_roster_def by simp
qed

lemma inv_spawn:
  assumes "sp_inv s" "sp_pc s w = S_outside" "length (threads_shardedpool s) < unat (num_threads s)"
  shows "sp_inv (sgoto w S_new (s\<lparr>threads_shardedpool := threads_shardedpool s @ [w],
    thread_index := (thread_index s)(w := word_of_nat (length (threads_shardedpool s)))\<rparr>))" (is "sp_inv ?s")
proof -
  note parts = sp_inv_parts [OF assms(1)]
  have out: "w \<notin> set (threads_shardedpool s)" "w \<notin> set (wait_cond s)" "w \<notin> set (shardedpool_cond s)"
    using parts(2-4) assms(2) by (auto simp: sp_roster_def sp_waits_def sp_sleeps_def)
  have "sp_counts (sp_pc ?s) (num_paused ?s) (num_drained ?s)"
    using counts_upd [OF parts(1), of w S_new] assms(2) by (simp add: one_at_def sgoto_def)
  moreover have "sp_roster (sp_pc ?s) (threads_shardedpool ?s) (num_threads ?s) (thread_index ?s)"
    using roster_snoc [OF parts(2) out(1) assms(3)] by (simp add: sgoto_def)
  moreover have "sp_waits (sp_pc ?s) (wait_cond ?s) (num_threads ?s) (num_paused ?s) (num_drained ?s)"
    "sp_sleeps (sp_pc ?s) (shardedpool_cond ?s) (pause_threads ?s) (drain_threads ?s)"
    "sp_flags (sp_pc ?s) (sp_wq ?s) (stop_threads ?s)"
    using parts(3-5) out(2,3) by (auto simp: sgoto_def sp_waits_def sp_sleeps_def sp_flags_def)
  ultimately show ?thesis by (simp add: sp_inv_def)
qed

lemma inv_start_threads:
  assumes "sp_start_threads i ws s = Ret () s'" "sp_inv s" "distinct ws" "\<forall>w \<in> set ws. sp_pc s w = S_outside"
    "i = word_of_nat (length (threads_shardedpool s)) \<or> length (threads_shardedpool s) = unat (num_threads s)"
  shows "sp_inv s' \<and> length (threads_shardedpool s') = unat (num_threads s')"
  using assms
proof (induction ws arbitrary: i s)
  case Nil
  then show ?case using sp_inv_parts(2) [of s] by (auto simp: sp_roster_def split: if_splits)
next
  case (Cons w ws)
  show ?case
  proof (cases "length (threads_shardedpool s) < unat (num_threads s)")
    case True
    let ?s = "sgoto w S_new (s\<lparr>threads_shardedpool := threads_shardedpool s @ [w],
      thread_index := (thread_index s)(w := i)\<rparr>)"
    have i: "i = word_of_nat (length (threads_shardedpool s))" using Cons.prems(5) True by auto
    have "sp_inv ?s" unfolding i using Cons.prems(2,4) True by (intro inv_spawn) simp_all
    moreover have "sp_start_threads (i + 1) ws ?s = Ret () s'"
      using Cons.prems(1) True by (auto simp: outcome_inv)
    moreover have "i + 1 = word_of_nat (length (threads_shardedpool ?s))" by (simp add: i sgoto_def)
    ultimately show ?thesis using Cons.prems(3,4) by (intro Cons.IH) auto
  next
    case False
    then show ?thesis using Cons.prems(1,2) sp_inv_parts(2) [of s] by (auto simp: sp_roster_def)
  qed
qed

lemma inv_sp_start:
  assumes "sp_start ws s = Ret () s'" "sp_inv s" "sp_full s" "distinct ws" "\<forall>w \<in> set ws. sp_pc s w = S_outside"
  shows "sp_inv s' \<and> sp_full s'"
  using inv_start_threads [of 0 ws s s'] assms by (auto simp: sp_start_def sp_full_def)

subsection \<open>Every step\<close>

lemma drain_cases:
  assumes "sworker_drain ops e t s = Ret () s'"
  obtains (full) w where "sp_wq s = Some w" "\<not> sop_is_shard_empty ops (thread_index s t) (swq_state w)"
      "s' = sgoto t S_reset s"
    | (empty) w where "sp_wq s = Some w" "sop_is_shard_empty ops (thread_index s t) (swq_state w)"
      "sworker_drain_turn e t (s\<lparr>num_drained := num_drained s + 1, wait_cond := []\<rparr>) = Ret () s'"
proof (cases "sp_wq s")
  case (Some w)
  then show ?thesis using assms that
    by (cases "sop_is_shard_empty ops (thread_index s t) (swq_state w)") (simp_all add: sworker_drain_def)
qed (use assms in \<open>simp add: sworker_drain_def\<close>)

text \<open>What a worker's section leaves alone.\<close>

definition same_pool :: "'w ShardedThreadPool \<Rightarrow> 'w ShardedThreadPool \<Rightarrow> bool" where
  "same_pool s s' \<longleftrightarrow> threads_shardedpool s' = threads_shardedpool s \<and> num_threads s' = num_threads s \<and>
     thread_index s' = thread_index s \<and> stop_threads s' = stop_threads s \<and>
     pause_threads s' = pause_threads s \<and> drain_threads s' = drain_threads s"

lemma pause_turn_same: "sworker_pause_turn e t s = Ret () s' \<Longrightarrow> same_pool s s'"
  by (erule pause_turn_cases) (simp_all add: same_pool_def sgoto_def)

lemma drain_turn_same: "sworker_drain_turn e t s = Ret () s' \<Longrightarrow> same_pool s s'"
  by (erule drain_turn_cases) (simp_all add: same_pool_def sgoto_def)

lemma same_pool_upd [simp]:
  "same_pool (s\<lparr>num_paused := x, wait_cond := y\<rparr>) s' = same_pool s s'"
  "same_pool (s\<lparr>num_drained := x, wait_cond := y\<rparr>) s' = same_pool s s'"
  by (simp_all add: same_pool_def)

lemma worker_same:
  assumes "spstep ops A_worker s s'"
  shows "same_pool s s'"
  using assms
proof (cases rule: spstep.cases)
  case (drained t e)
  from drained(2) show ?thesis
    by (cases rule: drain_cases) (auto simp: same_pool_def sgoto_def dest: drain_turn_same)
next
  case (paused t e)
  then show ?thesis using pause_turn_same by (force simp: sworker_pause_def)
next
  case (pause_again t e)
  then show ?thesis using pause_turn_same by blast
next
  case (drain_again t e)
  then show ?thesis using drain_turn_same by blast
qed (auto simp: same_pool_def sgoto_def sworker_enter_def sworker_head_def sworker_exit_def sworker_check_pause_def
    sworker_check_drain_def sworker_reset_def sworker_processed_def section_Ret split: if_splits)

lemma inv_worker_step:
  assumes "spstep ops A_worker s s'" "sp_inv s"
  shows "sp_inv s'"
  using assms(1)
proof (cases rule: spstep.cases)
  case (check_pause t)
  then show ?thesis using inv_step_to [OF assms(2), of t] by (simp add: sworker_check_pause_def)
next
  case (check_drain t)
  then show ?thesis using inv_step_to [OF assms(2), of t] by (simp add: sworker_check_drain_def)
qed (use assms(2) in \<open>blast intro: inv_enter inv_head inv_pause_section inv_pause_again inv_drain_section
    inv_drain_again inv_reset inv_processed\<close>)+

lemma sp_full_upd [simp]:
  "sp_full (sgoto t p s) = sp_full s" "sp_full (s\<lparr>wait_cond := x\<rparr>) = sp_full s"
  "sp_full (s\<lparr>shardedpool_cond := x\<rparr>) = sp_full s" "sp_full (s\<lparr>sp_wq := q\<rparr>) = sp_full s"
  "sp_full (s\<lparr>stop_threads := b\<rparr>) = sp_full s" "sp_full (s\<lparr>pause_threads := b\<rparr>) = sp_full s"
  "sp_full (s\<lparr>drain_threads := b\<rparr>) = sp_full s" "sp_full (sp_pause_turn t s) = sp_full s"
  by (simp_all add: sp_full_def sgoto_def sp_pause_turn_def)

lemma drain_turn_full: "sp_drain_turn ops t s = Ret () s' \<Longrightarrow> sp_full s' = sp_full s"
  by (cases "num_threads s = num_drained s") (auto simp: sp_drain_turn_def section_Ret)

lemma caller_full:
  "sp_pause ops t s = Ret () s' \<Longrightarrow> sp_full s' = sp_full s"
  "sp_unpause ops s = Ret () s' \<Longrightarrow> sp_full s' = sp_full s"
  "sp_drain ops t s = Ret () s' \<Longrightarrow> sp_full s' = sp_full s"
  "sp_stop_begin ops t s = Ret () s' \<Longrightarrow> sp_full s' = sp_full s"
  by (auto simp: sp_pause_def sp_unpause_def sp_drain_def sp_stop_begin_def section_Ret dest: drain_turn_full)

lemma spstep_inv:
  assumes "spstep ops a s s'" "sp_inv s" "sp_full s"
  shows "sp_inv s' \<and> sp_full s'"
proof (cases "a = A_worker")
  case True
  then show ?thesis
    using inv_worker_step assms worker_same by (fastforce simp: sp_full_def same_pool_def)
next
  case False
  from assms(1) show ?thesis
  proof (cases rule: spstep.cases)
    case (stopped t)
    then show ?thesis using inv_stopped [OF assms(2), of t s'] by (simp add: sp_full_def)
  next
    case (start ws)
    then show ?thesis using inv_sp_start assms(2,3) by blast
  next
    case (queue item)
    then obtain w where "s' = s\<lparr>sp_wq := Some w\<rparr>" by (auto simp: swq_queue_def wq_call_Ret)
    then show ?thesis using assms(2,3) by (auto simp: sp_full_def intro: inv_same_pc [OF assms(2)])
  next
    case (queue_front item)
    then obtain w where "s' = s\<lparr>sp_wq := Some w\<rparr>" by (auto simp: swq_queue_front_def wq_call_Ret)
    then show ?thesis using assms(2,3) by (auto simp: sp_full_def intro: inv_same_pc [OF assms(2)])
  next
    case (set_wq ti sti w)
    then have "s' = s\<lparr>sp_wq := Some \<lparr>timeout_interval = ti, sucide_timeout_interval = sti, swq_state = w\<rparr>\<rparr>"
      by (simp add: ShardedWQ_ctor_def set_wq_def)
    then show ?thesis using assms(2,3) by (auto simp: sp_full_def intro: inv_same_pc [OF assms(2)])
  next
    case (pausing t)
    then show ?thesis using inv_sp_pause_turn [OF assms(2), of t] assms(3) by (simp add: calls_def)
  next
    case (draining t)
    then show ?thesis using inv_sp_drain_turn [OF assms(2), of t] assms(3) drain_turn_full [of ops t s s'] by (simp add: calls_def)
  next
    case (wake_up ts)
    then have "sp_inv s'" by (intro inv_same_pc [OF assms(2)]) simp_all
    then show ?thesis using wake_up assms(3) by simp
  next
    case (wait_wake_up ts)
    then have "sp_inv s'" by (intro inv_same_pc [OF assms(2)]) simp_all
    then show ?thesis using wait_wake_up assms(3) by simp
  next
    case (stop t)
    then show ?thesis using inv_stop [OF assms(2)] caller_full(4) assms(3) by blast
  next
    case (pause t)
    then show ?thesis using inv_pause [OF assms(2)] caller_full(1) assms(3) by blast
  next
    case unpause
    then show ?thesis using inv_sp_unpause [OF assms(2)] caller_full(2) assms(3) by blast
  next
    case (drain t)
    then show ?thesis using inv_drain [OF assms(2)] caller_full(3) assms(3) by blast
  qed (use False in simp_all)
qed

lemma sp_reach_inv:
  assumes "sp_reach ops s"
  shows "sp_inv s \<and> sp_full s"
  using assms
proof (induction rule: sp_reach.induct)
  case (start hb nm tn n)
  show ?case by (simp add: ShardedThreadPool_ctor_def sp_inv_def sp_full_def sp_counts_def sp_roster_def
        sp_waits_def sp_sleeps_def sp_flags_def)
qed (use spstep_inv in blast)

section \<open>Who moves in a step\<close>

text \<open>A worker step is made by a live worker, and changes no other thread's point.\<close>

lemma worker_acts:
  assumes "spstep ops A_worker s s'"
  obtains t p e where "sp_pc s t = p" "slive p" "\<forall>u. u \<noteq> t \<longrightarrow> sp_pc s' u = sp_pc s u"
    "p = S_new \<longrightarrow> sworker_enter e t s = Ret () s'" "p = S_head \<longrightarrow> sworker_head e t s = Ret () s'"
    "p = S_paused \<longrightarrow> sworker_pause_turn e t s = Ret () s'"
    "p = S_drained \<longrightarrow> sworker_drain_turn e t s = Ret () s'"
proof -
  have pt: "sworker_pause_turn e t x = Ret () y \<Longrightarrow> u \<noteq> t \<Longrightarrow> sp_pc y u = sp_pc x u" for e t x y u
    by (erule pause_turn_cases) simp_all
  have dt: "sworker_drain_turn e t x = Ret () y \<Longrightarrow> u \<noteq> t \<Longrightarrow> sp_pc y u = sp_pc x u" for e t x y u
    by (erule drain_turn_cases) simp_all
  from assms show thesis
  proof (cases rule: spstep.cases)
    case (enter t e)
    then show ?thesis by (intro that [of t S_new e]) (auto simp: sworker_enter_def section_Ret)
  next
    case (head t e)
    then show ?thesis
      by (intro that [of t S_head e]) (auto simp: sworker_head_def sworker_exit_def section_Ret split: if_splits)
  next
    case (check_pause t)
    then show ?thesis by (intro that [of t S_check_pause]) (auto simp: sworker_check_pause_def)
  next
    case (paused t e)
    then show ?thesis by (intro that [of t S_pause_lock e]) (auto simp: sworker_pause_def dest!: pt)
  next
    case (pause_again t e)
    then show ?thesis by (intro that [of t S_paused e]) (auto dest!: pt)
  next
    case (check_drain t)
    then show ?thesis by (intro that [of t S_check_drain]) (auto simp: sworker_check_drain_def)
  next
    case (drained t e)
    from drained(2) have "u \<noteq> t \<Longrightarrow> sp_pc s' u = sp_pc s u" for u
      by (cases rule: drain_cases) (auto dest!: dt)
    then show ?thesis using drained by (intro that [of t S_drain_lock e]) auto
  next
    case (drain_again t e)
    then show ?thesis by (intro that [of t S_drained e]) (auto dest!: dt)
  next
    case (reset t e)
    then show ?thesis by (intro that [of t S_reset e]) (auto simp: sworker_reset_def section_Ret)
  next
    case (processed t)
    then show ?thesis by (intro that [of t S_processing]) (auto simp: sworker_processed_def section_Ret)
  qed
qed

text \<open>What a step that is not a worker's does to the points of the threads.\<close>

definition only_callers :: "'w ShardedThreadPool \<Rightarrow> 'w ShardedThreadPool \<Rightarrow> bool" where
  "only_callers s s' \<longleftrightarrow> (stop_threads s \<longrightarrow> stop_threads s') \<and> hbmp s' = hbmp s \<and>
     sp_hb s' = sp_hb s \<and>
     (\<forall>u. sp_pc s' u = sp_pc s u \<or> (sp_pc s u = S_outside \<and> sp_pc s' u = S_new) \<or>
       (calls (sp_pc s u) \<and> calls (sp_pc s' u)))"

lemma only_callers_goto:
  assumes "calls (sp_pc s t)" "calls p" "sp_pc x = sp_pc s" "stop_threads s \<longrightarrow> stop_threads x"
    "hbmp x = hbmp s" "sp_hb x = sp_hb s"
  shows "only_callers s (sgoto t p x)"
  using assms by (auto simp: only_callers_def sgoto_def)

lemma only_callers_same:
  "sp_pc x = sp_pc s \<Longrightarrow> stop_threads x = stop_threads s \<Longrightarrow> hbmp x = hbmp s \<Longrightarrow> sp_hb x = sp_hb s \<Longrightarrow>
   only_callers s x"
  by (simp add: only_callers_def)

lemma only_callers_start:
  assumes "sp_start_threads i ws s = Ret () s'" "distinct ws" "\<forall>w \<in> set ws. sp_pc s w = S_outside"
  shows "stop_threads s' = stop_threads s \<and> hbmp s' = hbmp s \<and> sp_hb s' = sp_hb s \<and>
    (\<forall>u. sp_pc s' u = sp_pc s u \<or> (u \<in> set ws \<and> sp_pc s' u = S_new))"
  using assms
proof (induction ws arbitrary: i s)
  case (Cons w ws)
  show ?case
  proof (cases "length (threads_shardedpool s) < unat (num_threads s)")
    case True
    let ?s = "sgoto w S_new (s\<lparr>threads_shardedpool := threads_shardedpool s @ [w],
        thread_index := (thread_index s)(w := i)\<rparr>)"
    have "sp_start_threads (i + 1) ws ?s = Ret () s'" using Cons.prems(1) True by (auto simp: outcome_inv)
    moreover have "\<forall>v \<in> set ws. sp_pc ?s v = S_outside" "distinct ws" using Cons.prems(2,3) by auto
    ultimately have new: "stop_threads s' = stop_threads ?s" "hbmp s' = hbmp ?s" "sp_hb s' = sp_hb ?s"
        "sp_pc s' u = sp_pc ?s u \<or> (u \<in> set ws \<and> sp_pc s' u = S_new)" for u
      using Cons.IH by blast+
    have "sp_pc s' u = sp_pc s u \<or> (u \<in> set (w # ws) \<and> sp_pc s' u = S_new)" for u
      using new(4) [of u] by (cases "u = w") auto
    then show ?thesis using new(1-3) by (simp add: sgoto_def)
  qed (use Cons.prems in simp)
qed (simp split: if_splits)

lemma only_callers_drain_turn:
  assumes "sp_drain_turn ops t x = Ret () s'" "calls (sp_pc s t)" "sp_pc x = sp_pc s" "stop_threads x = stop_threads s"
    "hbmp x = hbmp s" "sp_hb x = sp_hb s"
  shows "only_callers s s'"
proof (cases "num_threads x = num_drained x")
  case True
  then obtain w where "s' = sgoto t S_outside (x\<lparr>drain_threads := False, sp_wq := Some w, shardedpool_cond := []\<rparr>)"
    using assms(1) by (auto simp: sp_drain_turn_def section_Ret)
  then show ?thesis using assms by (simp add: only_callers_goto calls_def)
next
  case False
  then have "s' = sgoto t SC_draining (x\<lparr>wait_cond := wait_cond x @ [t]\<rparr>)"
    using assms(1) by (simp add: sp_drain_turn_def)
  then show ?thesis using assms by (simp add: only_callers_goto calls_def)
qed

lemma only_callers_pause_turn:
  "calls (sp_pc s t) \<Longrightarrow> sp_pc x = sp_pc s \<Longrightarrow> stop_threads x = stop_threads s \<Longrightarrow> hbmp x = hbmp s \<Longrightarrow>
   sp_hb x = sp_hb s \<Longrightarrow> only_callers s (sp_pause_turn t x)"
  by (simp add: sp_pause_turn_def only_callers_goto calls_def)

lemma non_worker_pc:
  assumes "spstep ops a s s'" "a \<noteq> A_worker"
  shows "only_callers s s'"
  using assms
proof (cases rule: spstep.cases)
  case (start ws)
  then show ?thesis using only_callers_start [of 0 ws s s'] by (auto simp: sp_start_def only_callers_def)
next
  case (stop t)
  then obtain w where "s' = sgoto t SC_stopping (s\<lparr>stop_threads := True, sp_wq := Some w\<rparr>)"
    by (auto simp: sp_stop_begin_def section_Ret)
  then show ?thesis using stop by (simp add: only_callers_goto calls_def)
next
  case (stopped t)
  then have "s' = sgoto t S_outside (s\<lparr>threads_shardedpool := []\<rparr>)"
    by (simp add: sp_stop_finish_def split: if_splits)
  then show ?thesis using stopped by (simp add: only_callers_goto calls_def)
next
  case (pause t)
  then obtain w where "s' = sp_pause_turn t (s\<lparr>pause_threads := True, sp_wq := Some w\<rparr>)"
    by (auto simp: sp_pause_def section_Ret)
  then show ?thesis using pause by (simp add: only_callers_pause_turn calls_def)
next
  case (pausing t)
  then show ?thesis by (simp add: only_callers_pause_turn calls_def)
next
  case (drain t)
  then obtain w where "sp_drain_turn ops t (s\<lparr>drain_threads := True, sp_wq := Some w\<rparr>) = Ret () s'"
    by (auto simp: sp_drain_def section_Ret)
  from only_callers_drain_turn [OF this] show ?thesis using drain by (simp add: calls_def)
next
  case (draining t)
  from only_callers_drain_turn [OF draining(4)] show ?thesis using draining by (simp add: calls_def)
qed (auto simp: swq_queue_def swq_queue_front_def ShardedWQ_ctor_def set_wq_def sp_unpause_def section_Ret intro!: only_callers_same)

end
