(* ===== verification/Work_Thread_Sharded.thy ===== *)
theory Work_Thread_Sharded
  imports Sharded_System
begin

text \<open>
  The threads of the sharded pool as objects: \<^verbatim>\<open>ShardedThreadPool::WorkThreadSharded\<close>
  (\<^verbatim>\<open>thread/shardedthreadpool.h\<close>), a \<^verbatim>\<open>ThreadBase\<close> that also carries the number of its shard.
  \<^verbatim>\<open>start_threads()\<close> creates them with consecutive numbers, \<^verbatim>\<open>entry()\<close> passes the number on, and
  \<^verbatim>\<open>stop()\<close> joins them; the pool's model, which keeps the number per thread, is shown to agree.
\<close>

section \<open>State and operations\<close>

record WorkThreadSharded =
  wts_base :: ThreadBase
  wts_index :: "32 word"

record 'w shost =
  sh_pool :: "'w ShardedThreadPool"
  sh_caller :: tworld
  sh_objs :: "WorkThreadSharded list"

definition WorkThreadSharded_ctor :: "32 word \<Rightarrow> WorkThreadSharded" where
  "WorkThreadSharded_ctor pthread_index = \<lparr>wts_base = ThreadBase_ctor, wts_index = pthread_index\<rparr>"

definition add_sharded :: "WorkThreadSharded \<Rightarrow> 'w shost \<Rightarrow> tworld \<Rightarrow> 'w shost" where
  "add_sharded wt h w =
     (let p = sh_pool h; t = thread_id (th w)
      in h\<lparr>sh_caller := w, sh_objs := sh_objs h @ [wt\<lparr>wts_base := th w\<rparr>],
           sh_pool := sgoto t S_new (p\<lparr>threads_shardedpool := threads_shardedpool p @ [t],
             thread_index := (thread_index p)(t := wts_index wt)\<rparr>)\<rparr>)"

definition new_sharded_thread ::
  "(int option \<Rightarrow> errno + nat) \<Rightarrow> 32 word \<Rightarrow> 'w shost \<Rightarrow> (unit, 'w shost) outcome" where
  "new_sharded_thread cr i h =
     (let wt = WorkThreadSharded_ctor i
      in lift_state (add_sharded wt h)
           (thread_create cr (sp_thread_name (sh_pool h)) 0 ((sh_caller h)\<lparr>th := wts_base wt\<rparr>)))"

fun start_sharded_threads ::
  "32 word \<Rightarrow> (int option \<Rightarrow> errno + nat) list \<Rightarrow> 'w shost \<Rightarrow> (unit, 'w shost) outcome" where
  "start_sharded_threads i [] h =
     (if length (sh_objs h) < unat (num_threads (sh_pool h)) then Block h else Ret () h)"
| "start_sharded_threads i (cr # crs) h =
     (if length (sh_objs h) < unat (num_threads (sh_pool h)) then
        bind (new_sharded_thread cr i h) (\<lambda>_ h. start_sharded_threads (i + 1) crs h)
      else Ret () h)"

text \<open>\<^verbatim>\<open>pthread_join\<close> waits until the thread has ended and answers \<open>jr\<close>.\<close>

fun join_sharded_threads ::
  "(nat \<Rightarrow> errno) \<Rightarrow> WorkThreadSharded list \<Rightarrow> 'w shost \<Rightarrow> (unit, 'w shost) outcome" where
  "join_sharded_threads jr [] h = Ret () (h\<lparr>sh_objs := [], sh_pool := (sh_pool h)\<lparr>threads_shardedpool := []\<rparr>\<rparr>)"
| "join_sharded_threads jr (b # bs) h =
     (if sp_pc (sh_pool h) (thread_id (wts_base b)) \<noteq> S_exit then Block h
      else
        bind (lift_state (\<lambda>w. h\<lparr>sh_caller := w\<rparr>) (thread_join jr ((sh_caller h)\<lparr>th := wts_base b\<rparr>))) (\<lambda>_ h.
        join_sharded_threads jr bs h))"

text \<open>\<^verbatim>\<open>pool->start_shardedthreadpool_worker(thread_index)\<close>, up to the first test of \<^verbatim>\<open>stop_threads\<close>.\<close>

definition WorkThreadSharded_entry ::
  "senv \<Rightarrow> WorkThreadSharded \<Rightarrow> 'w ShardedThreadPool \<Rightarrow> (unit, 'w ShardedThreadPool) outcome" where
  "WorkThreadSharded_entry e b s =
     (let t = thread_id (wts_base b)
      in sworker_enter e t (s\<lparr>thread_index := (thread_index s)(t := wts_index b)\<rparr>))"

section \<open>The objects and the pool\<close>

definition shost_ok :: "'w shost \<Rightarrow> bool" where
  "shost_ok h \<longleftrightarrow> map (\<lambda>b. thread_id (wts_base b)) (sh_objs h) = threads_shardedpool (sh_pool h) \<and>
     0 \<notin> set (threads_shardedpool (sh_pool h)) \<and> distinct (threads_shardedpool (sh_pool h)) \<and>
     (\<forall>b \<in> set (sh_objs h). thread_index (sh_pool h) (thread_id (wts_base b)) = wts_index b)"

lemma shost_ok_length: "shost_ok h \<Longrightarrow> length (sh_objs h) = length (threads_shardedpool (sh_pool h))"
  by (metis shost_ok_def length_map)

lemma shost_ok_ids:
  "shost_ok h \<Longrightarrow> (\<lambda>b. thread_id (wts_base b)) ` set (sh_objs h) = set (threads_shardedpool (sh_pool h))"
  by (metis shost_ok_def list.set_map)

definition created_sharded :: "nat \<Rightarrow> 32 word \<Rightarrow> 'w shost \<Rightarrow> 'w shost" where
  "created_sharded t i h = add_sharded (WorkThreadSharded_ctor i) h
     ((sh_caller h)\<lparr>th := ThreadBase_ctor\<lparr>thread_name := c_str (sp_thread_name (sh_pool h)), thread_id := t\<rparr>,
        spawned := spawned (sh_caller h) @ [(t, sigmask (sh_caller h) \<union> all_signals)]\<rparr>)"

lemma new_sharded_thread_eq:
  assumes "length (c_str (sp_thread_name (sh_pool h))) < 16"
  shows "new_sharded_thread (\<lambda>_. Inr t) i h = Ret () (created_sharded t i h)"
  using assms thread_create_correct [of "\<lambda>_. Inr t" "sp_thread_name (sh_pool h)" 0 "(sh_caller h)\<lparr>th := ThreadBase_ctor\<rparr>"]
  by (simp add: new_sharded_thread_def created_sharded_def WorkThreadSharded_ctor_def Let_def)

lemma created_sharded_fields [simp]:
  "sh_pool (created_sharded t i h) = sgoto t S_new ((sh_pool h)\<lparr>threads_shardedpool :=
     threads_shardedpool (sh_pool h) @ [t], thread_index := (thread_index (sh_pool h))(t := i)\<rparr>)"
  "sigmask (sh_caller (created_sharded t i h)) = sigmask (sh_caller h)"
  "map wts_index (sh_objs (created_sharded t i h)) = map wts_index (sh_objs h) @ [i]"
  "length (sh_objs (created_sharded t i h)) = Suc (length (sh_objs h))"
  by (simp_all add: created_sharded_def add_sharded_def WorkThreadSharded_ctor_def Let_def)

lemma created_sharded_ok:
  assumes "shost_ok h" "t \<noteq> 0" "t \<notin> set (threads_shardedpool (sh_pool h))"
  shows "shost_ok (created_sharded t i h)"
proof -
  have "thread_id (wts_base b) \<noteq> t" if "b \<in> set (sh_objs h)" for b
    using shost_ok_ids [OF assms(1)] assms(3) that by auto
  then show ?thesis
    using assms by (auto simp: shost_ok_def created_sharded_def add_sharded_def WorkThreadSharded_ctor_def
        Let_def sgoto_def)
qed

text \<open>\<^verbatim>\<open>start_threads()\<close> over the objects is \<open>sp_start_threads\<close>, and numbers the objects consecutively.\<close>

lemma start_sharded_objects:
  assumes "shost_ok h" "0 \<notin> set ids" "distinct ids" "set ids \<inter> set (threads_shardedpool (sh_pool h)) = {}"
    "length ids = unat (num_threads (sh_pool h)) - length (sh_objs h)"
    "length (c_str (sp_thread_name (sh_pool h))) < 16"
  shows "\<exists>h'. start_sharded_threads i (map (\<lambda>t _. Inr t) ids) h = Ret () h' \<and> shost_ok h' \<and>
    sp_start_threads i ids (sh_pool h) = Ret () (sh_pool h') \<and>
    map wts_index (sh_objs h') = map wts_index (sh_objs h) @ map (\<lambda>k. i + word_of_nat k) [0..<length ids] \<and>
    sigmask (sh_caller h') = sigmask (sh_caller h)"
  using assms
proof (induction ids arbitrary: i h)
  case Nil
  then show ?case using shost_ok_length [OF Nil(1)] by simp
next
  case (Cons t ids)
  let ?h = "created_sharded t i h"
  have len: "length (sh_objs h) < unat (num_threads (sh_pool h))" using Cons.prems(5) by simp
  have ok: "shost_ok ?h" using created_sharded_ok [OF Cons.prems(1)] Cons.prems(2,4) by simp
  have fields: "num_threads (sh_pool ?h) = num_threads (sh_pool h)"
    "sp_thread_name (sh_pool ?h) = sp_thread_name (sh_pool h)"
    "threads_shardedpool (sh_pool ?h) = threads_shardedpool (sh_pool h) @ [t]" by (simp_all add: sgoto_def)
  have "0 \<notin> set ids" "distinct ids" "set ids \<inter> set (threads_shardedpool (sh_pool ?h)) = {}"
    "length ids = unat (num_threads (sh_pool ?h)) - length (sh_objs ?h)"
    "length (c_str (sp_thread_name (sh_pool ?h))) < 16"
    using Cons.prems(2-6) unfolding fields by auto
  from Cons.IH [OF ok this, of "i + 1"]
  obtain h' where h': "start_sharded_threads (i + 1) (map (\<lambda>t _. Inr t) ids) ?h = Ret () h'" "shost_ok h'"
    "sp_start_threads (i + 1) ids (sh_pool ?h) = Ret () (sh_pool h')"
    "map wts_index (sh_objs h') = map wts_index (sh_objs ?h) @ map (\<lambda>k. i + 1 + word_of_nat k) [0..<length ids]"
    "sigmask (sh_caller h') = sigmask (sh_caller ?h)"
    by blast
  have "sp_start_threads i (t # ids) (sh_pool h) = Ret () (sh_pool h')"
    using h'(3) len shost_ok_length [OF Cons.prems(1)] Cons.prems(6) by (simp add: assert_that_def)
  moreover have "map (\<lambda>k. i + word_of_nat k) [0..<length (t # ids)] =
      i # map (\<lambda>k. i + 1 + word_of_nat k) [0..<length ids]"
    by (simp add: upt_conv_Cons map_Suc_upt [symmetric] algebra_simps del: upt_Suc)
  ultimately show ?case
    using h' len new_sharded_thread_eq [OF Cons.prems(6)] by simp
qed

lemma start_threads_list:
  "sp_start_threads i ids s = Ret () s' \<Longrightarrow> length ids = unat (num_threads s) - length (threads_shardedpool s) \<Longrightarrow>
   threads_shardedpool s' = threads_shardedpool s @ ids"
proof (induction ids arbitrary: i s)
  case (Cons t ids)
  let ?s = "sgoto t S_new (s\<lparr>threads_shardedpool := threads_shardedpool s @ [t], thread_index := (thread_index s)(t := i)\<rparr>)"
  have "sp_start_threads (i + 1) ids ?s = Ret () s'" using Cons.prems by (auto simp: outcome_inv split: if_splits)
  from Cons.IH [OF this] show ?case using Cons.prems(2) by (simp add: sgoto_def)
qed (simp split: if_splits)

text \<open>The joins wait exactly as long as \<open>sp_stop_finish\<close> says, and do not fail.\<close>

lemma join_sharded_objects:
  assumes "0 \<notin> (\<lambda>b. thread_id (wts_base b)) ` set bs" "\<forall>i. jr i = 0"
  shows "(\<exists>h'. join_sharded_threads jr bs h = Ret () h' \<and> sh_objs h' = [] \<and>
      sh_pool h' = (sh_pool h)\<lparr>threads_shardedpool := []\<rparr>) \<longleftrightarrow>
    (\<forall>b \<in> set bs. sp_pc (sh_pool h) (thread_id (wts_base b)) = S_exit)"
  using assms(1)
proof (induction bs arbitrary: h)
  case (Cons b bs)
  let ?w = "(sh_caller h)\<lparr>th := (wts_base b)\<lparr>thread_id := 0\<rparr>\<rparr>"
  have "thread_join jr ((sh_caller h)\<lparr>th := wts_base b\<rparr>) = Ret 0 ?w"
    using Cons.prems assms(2) by (simp add: thread_join_def assert_that_def Let_def)
  then show ?case using Cons.IH [of "h\<lparr>sh_caller := ?w\<rparr>"] Cons.prems by simp
qed simp

text \<open>
  The sharded pool's threads are its objects: \<^verbatim>\<open>start()\<close> on a pool without threads creates one object
  per thread, the one at position \<open>k\<close> with shard number \<open>k\<close>, changes the pool as its model says and
  leaves the caller's signal mask alone; each object's \<^verbatim>\<open>entry()\<close> is the worker's entry of the model;
  and with the workers in any state \<open>p\<close> over these threads, the joins of \<^verbatim>\<open>stop()\<close> return exactly when
  \<open>sp_stop_finish\<close> does.
\<close>
theorem sharded_threads_are_objects:
  assumes "sh_objs h = []" "threads_shardedpool (sh_pool h) = []" "length ids = unat (num_threads (sh_pool h))"
    and "0 \<notin> set ids" "distinct ids" "length (c_str (sp_thread_name (sh_pool h))) < 16" "\<forall>i. jr i = 0"
    and "threads_shardedpool p = ids"
  shows "\<exists>h'. start_sharded_threads 0 (map (\<lambda>t _. Inr t) ids) h = Ret () h' \<and>
    sp_start ids (sh_pool h) = Ret () (sh_pool h') \<and>
    map wts_index (sh_objs h') = map word_of_nat [0..<length ids] \<and>
    sigmask (sh_caller h') = sigmask (sh_caller h) \<and>
    (\<forall>b \<in> set (sh_objs h'). WorkThreadSharded_entry e b (sh_pool h') =
       sworker_enter e (thread_id (wts_base b)) (sh_pool h')) \<and>
    ((\<exists>s'. sp_stop_finish t p = Ret () s') \<longleftrightarrow>
      (\<exists>h''. join_sharded_threads jr (sh_objs h') (h'\<lparr>sh_pool := p\<rparr>) = Ret () h'' \<and> sh_objs h'' = [] \<and>
         sh_pool h'' = p\<lparr>threads_shardedpool := []\<rparr>))"
proof -
  have ok: "shost_ok h" using assms(1,2) by (simp add: shost_ok_def)
  obtain h' where h': "start_sharded_threads 0 (map (\<lambda>t _. Inr t) ids) h = Ret () h'" "shost_ok h'"
    "sp_start_threads 0 ids (sh_pool h) = Ret () (sh_pool h')"
    "map wts_index (sh_objs h') = map word_of_nat [0..<length ids]" "sigmask (sh_caller h') = sigmask (sh_caller h)"
    using start_sharded_objects [OF ok assms(4,5), of 0] assms(1-3,6) by auto
  have "threads_shardedpool (sh_pool h') = ids" using start_threads_list [OF h'(3)] assms(2,3) by simp
  then have ids: "(\<lambda>b. thread_id (wts_base b)) ` set (sh_objs h') = set ids" using shost_ok_ids [OF h'(2)] by simp
  have "WorkThreadSharded_entry e b (sh_pool h') = sworker_enter e (thread_id (wts_base b)) (sh_pool h')"
    if "b \<in> set (sh_objs h')" for b
  proof -
    have "(thread_index (sh_pool h'))(thread_id (wts_base b) := wts_index b) = thread_index (sh_pool h')"
      using h'(2) that by (simp add: shost_ok_def fun_upd_idem)
    then show ?thesis by (simp add: WorkThreadSharded_entry_def Let_def)
  qed
  moreover have "0 \<notin> (\<lambda>b. thread_id (wts_base b)) ` set (sh_objs h')" using ids assms(4) by simp
  note join = join_sharded_objects [OF this assms(7), of "h'\<lparr>sh_pool := p\<rparr>"]
  have "(\<forall>b \<in> set (sh_objs h'). sp_pc p (thread_id (wts_base b)) = S_exit) \<longleftrightarrow> (\<forall>i \<in> set ids. sp_pc p i = S_exit)"
    unfolding ids [symmetric] by simp
  then have "(\<exists>s'. sp_stop_finish t p = Ret () s') \<longleftrightarrow>
      (\<exists>h''. join_sharded_threads jr (sh_objs h') (h'\<lparr>sh_pool := p\<rparr>) = Ret () h'' \<and> sh_objs h'' = [] \<and>
         sh_pool h'' = p\<lparr>threads_shardedpool := []\<rparr>)"
    using join assms(8) by (simp add: sp_stop_finish_def)
  ultimately show ?thesis using h' by (intro exI [of _ h'] conjI) (simp_all add: sp_start_def)
qed

end
