(* ===== verification/Sharded_Runs.thy ===== *)
theory Sharded_Runs
  imports Sharded_System Heartbeat_Client
begin

text \<open>
  The sharded pool as a client of the heartbeat map, and concrete runs of it over a small
  queue: one worker paused, one worker drained, and two workers of which one drains and the
  other leaves.
\<close>

section \<open>Heartbeats\<close>

definition sreg :: "spoint \<Rightarrow> bool" where
  "sreg p \<longleftrightarrow> slive p \<and> p \<noteq> S_new"

definition sp_regs :: "'w ShardedThreadPool \<Rightarrow> tid set" where
  "sp_regs s = {t. sreg (sp_pc s t)}"

lemma sp_regs_upd:
  assumes "sp_pc s' = (sp_pc s)(t := p)"
  shows "sp_regs s' = (if sreg p then insert t (sp_regs s) else sp_regs s - {t})"
  using assms by (auto simp: sp_regs_def)

lemma sp_regs_stay:
  assumes "sp_pc s' = (sp_pc s)(t := p)" "sreg p" "sreg (sp_pc s t)"
  shows "sp_regs s' = sp_regs s"
  using assms by (auto simp: sp_regs_def)

definition shb_ok :: "'w ShardedThreadPool \<Rightarrow> bool" where
  "shb_ok s \<longleftrightarrow> hb_rel (hbmp s) (sp_hb s) (sp_regs s)"

lemma beat_hb:
  assumes "sworker_beat e t x = Ret () y" "hb_rel (hbmp x) h T"
  shows "hb_rel (hbmp y) h T \<and> sp_hb y = sp_hb x \<and> sp_pc y = sp_pc x"
proof -
  obtain w m where "sp_wq x = Some w" "y = x\<lparr>hbmp := m\<rparr>"
    "reset_timeout (se_now e) (sp_hb x t) (timeout_interval w) (sucide_timeout_interval w) (hbmp x) = Ret () m"
    using assms(1) unfolding sworker_beat_Ret by blast
  then show ?thesis using reset_timeout_rel [OF _ assms(2)] by simp
qed

lemma shb_stay:
  assumes "shb_ok s" "hb_rel (hbmp s') (sp_hb s) (sp_regs s)" "sp_hb s' = sp_hb s" "sp_pc s' = (sp_pc s)(t := p)"
    "sreg p" "sreg (sp_pc s t)"
  shows "shb_ok s'"
  using assms(2,3) sp_regs_stay [OF assms(4-6)] by (simp add: shb_ok_def)

lemma pause_turn_hb:
  assumes "sworker_pause_turn e t x = Ret () s'" "shb_ok s" "hbmp x = hbmp s" "sp_hb x = sp_hb s" "sp_pc x = sp_pc s"
    "sreg (sp_pc s t)"
  shows "shb_ok s'"
proof (cases "pause_threads x")
  case True
  then obtain y where y: "sworker_beat e t x = Ret () y"
    "s' = sgoto t S_paused (y\<lparr>shardedpool_cond := shardedpool_cond y @ [t]\<rparr>)"
    using assms(1) by (auto simp: sworker_pause_turn_def bind_eq_Ret_iff)
  have "hb_rel (hbmp y) (sp_hb s) (sp_regs s) \<and> sp_hb y = sp_hb s \<and> sp_pc y = sp_pc s"
    using beat_hb [OF y(1), of "sp_hb s" "sp_regs s"] assms(2-5) by (simp add: shb_ok_def)
  then show ?thesis using y(2) assms(6)
    by (intro shb_stay [OF assms(2), of s' t S_paused]) (simp_all add: sgoto_def sreg_def)
next
  case False
  then have "s' = sgoto t S_check_drain (x\<lparr>num_paused := num_paused x - 1\<rparr>)"
    using assms(1) by (simp add: sworker_pause_turn_def)
  then show ?thesis using assms(2-6)
    by (intro shb_stay [OF assms(2), of s' t S_check_drain]) (simp_all add: sgoto_def sreg_def shb_ok_def)
qed

lemma drain_turn_hb:
  assumes "sworker_drain_turn e t x = Ret () s'" "shb_ok s" "hbmp x = hbmp s" "sp_hb x = sp_hb s" "sp_pc x = sp_pc s"
    "sreg (sp_pc s t)"
  shows "shb_ok s'"
proof (cases "drain_threads x")
  case True
  then obtain y where y: "sworker_beat e t x = Ret () y"
    "s' = sgoto t S_drained (y\<lparr>shardedpool_cond := shardedpool_cond y @ [t]\<rparr>)"
    using assms(1) by (auto simp: sworker_drain_turn_def bind_eq_Ret_iff)
  have "hb_rel (hbmp y) (sp_hb s) (sp_regs s) \<and> sp_hb y = sp_hb s \<and> sp_pc y = sp_pc s"
    using beat_hb [OF y(1), of "sp_hb s" "sp_regs s"] assms(2-5) by (simp add: shb_ok_def)
  then show ?thesis using y(2) assms(6)
    by (intro shb_stay [OF assms(2), of s' t S_drained]) (simp_all add: sgoto_def sreg_def)
next
  case False
  then have "s' = sgoto t S_reset (x\<lparr>num_drained := num_drained x - 1\<rparr>)"
    using assms(1) by (simp add: sworker_drain_turn_def)
  then show ?thesis using assms(2-6)
    by (intro shb_stay [OF assms(2), of s' t S_reset]) (simp_all add: sgoto_def sreg_def shb_ok_def)
qed

lemma enter_hb:
  assumes "sworker_enter e t s = Ret () s'" "sp_pc s t = S_new" "shb_ok s"
  shows "shb_ok s'"
proof -
  obtain a m where a: "add_worker t (se_bt e) (sp_name s @ '' thread '' @ se_self e) (unat (thread_index s t)) (hbmp s) =
      Ret a m" "s' = sgoto t S_head (s\<lparr>hbmp := m, sp_hb := (sp_hb s)(t := a)\<rparr>)"
    using assms(1) by (auto simp: sworker_enter_def section_Ret)
  have "hb_rel m ((sp_hb s)(t := a)) (insert t (sp_regs s))"
    using add_worker_rel [OF a(1)] assms(2,3) by (simp add: shb_ok_def sp_regs_def sreg_def)
  moreover have "sp_regs s' = insert t (sp_regs s)" using sp_regs_upd [of s' s t S_head] a(2) by (simp add: sgoto_def sreg_def)
  ultimately show ?thesis using a(2) by (simp add: shb_ok_def sgoto_def)
qed

lemma head_hb:
  assumes "sworker_head e t s = Ret () s'" "sp_pc s t = S_head" "shb_ok s"
  shows "shb_ok s'"
proof (cases "stop_threads s")
  case True
  then obtain m where m: "remove_worker t (se_bt e) (sp_hb s t) (hbmp s) = Ret () m" "s' = sgoto t S_exit (s\<lparr>hbmp := m\<rparr>)"
    using assms(1) by (auto simp: sworker_head_def sworker_exit_def section_Ret)
  have "hb_rel m (sp_hb s) (sp_regs s - {t})"
    using remove_worker_rel [of t "se_bt e" "sp_hb s" "hbmp s" m "sp_regs s"] m(1) assms(2,3)
    by (simp add: shb_ok_def sp_regs_def sreg_def)
  moreover have "sp_regs s' = sp_regs s - {t}" using sp_regs_upd [of s' s t S_exit] m(2) by (simp add: sgoto_def sreg_def)
  ultimately show ?thesis using m(2) by (simp add: shb_ok_def sgoto_def)
next
  case False
  then have "s' = sgoto t S_check_pause s" using assms(1) by (simp add: sworker_head_def sworker_exit_def)
  then show ?thesis using assms(2,3)
    by (intro shb_stay [OF assms(3), of s' t S_check_pause]) (simp_all add: sgoto_def sreg_def shb_ok_def)
qed

lemma goto_hb:
  assumes "shb_ok s" "hbmp x = hbmp s" "sp_hb x = sp_hb s" "sp_pc x = sp_pc s" "sreg p" "sreg (sp_pc s t)"
  shows "shb_ok (sgoto t p x)"
  using assms by (intro shb_stay [OF assms(1), of _ t p]) (simp_all add: sgoto_def shb_ok_def)

lemma worker_hb:
  assumes "spstep ops A_worker s s'" "shb_ok s"
  shows "shb_ok s'"
  using assms(1)
proof (cases rule: spstep.cases)
  case (paused t e)
  then show ?thesis
    using pause_turn_hb [OF _ assms(2), of e t "s\<lparr>num_paused := num_paused s + 1, wait_cond := []\<rparr>" s']
    by (simp add: sworker_pause_def sreg_def)
next
  case (pause_again t e)
  then show ?thesis using pause_turn_hb [OF pause_again(3) assms(2)] by (simp add: sreg_def)
next
  case (drained t e)
  from drained(2) show ?thesis
  proof (cases rule: drain_cases)
    case (full w)
    then show ?thesis using drained(1) assms(2) by (simp add: goto_hb sreg_def)
  next
    case (empty w)
    then show ?thesis using drained(1) drain_turn_hb [OF empty(3) assms(2)] by (simp add: sreg_def)
  qed
next
  case (drain_again t e)
  then show ?thesis using drain_turn_hb [OF drain_again(3) assms(2)] by (simp add: sreg_def)
next
  case (reset t e)
  then obtain y where y: "sworker_beat e t s = Ret () y" "s' = sgoto t S_processing y"
    by (auto simp: sworker_reset_def bind_eq_Ret_iff)
  then show ?thesis using beat_hb [OF y(1), of "sp_hb s" "sp_regs s"] assms(2) reset(1)
    by (intro shb_stay [OF assms(2), of s' t S_processing]) (simp_all add: sgoto_def sreg_def shb_ok_def)
next
  case (processed t)
  then obtain y where y: "wq_call (sop_process ops (thread_index s t)) s = Ret () y" "s' = sgoto t S_head y"
    by (auto simp: sworker_processed_def bind_eq_Ret_iff)
  then have "hbmp y = hbmp s" "sp_hb y = sp_hb s" "sp_pc y = sp_pc s" by (auto simp: wq_call_Ret)
  then show ?thesis using processed(1) assms(2) y(2) by (simp add: goto_hb sreg_def)
next
  case (check_pause t)
  then show ?thesis using assms(2) by (simp add: sworker_check_pause_def goto_hb sreg_def)
next
  case (check_drain t)
  then show ?thesis using assms(2) by (simp add: sworker_check_drain_def goto_hb sreg_def)
next
  case (enter t e)
  then show ?thesis using enter_hb assms(2) by blast
next
  case (head t e)
  then show ?thesis using head_hb assms(2) by blast
qed

lemma spstep_hb:
  assumes "spstep ops a s s'" "shb_ok s"
  shows "shb_ok s'"
proof (cases "a = A_worker")
  case True
  then show ?thesis using worker_hb assms by blast
next
  case False
  have oc: "only_callers s s'" by (rule non_worker_pc [OF assms(1) False])
  have "sreg (sp_pc s' u) = sreg (sp_pc s u)" for u
    using oc unfolding only_callers_def calls_def by (auto simp: sreg_def dest!: spec [of _ u])
  then have "sp_regs s' = sp_regs s" by (simp add: sp_regs_def)
  then show ?thesis using oc assms(2) by (simp add: shb_ok_def only_callers_def)
qed

interpretation sph: heartbeat_client "\<lambda>s s'. \<exists>a. spstep ops a s s'" hbmp sp_hb sp_regs for ops
  by unfold_locales (use spstep_hb in \<open>auto simp: shb_ok_def\<close>)

section \<open>A small queue\<close>

text \<open>The queue holds the shard numbers of the pending items; processing takes one item of a shard.\<close>

definition list_shards :: "(32 word list, 32 word) swq_ops" where
  "list_shards = \<lparr>sop_enqueue = (\<lambda>i w. w @ [i]), sop_enqueue_front = (#), sop_process = remove1, sop_return_waiting = (\<lambda>w. w),
     sop_stop_return_waiting = (\<lambda>w. w), sop_is_shard_empty = (\<lambda>i w. i \<notin> set w)\<rparr>"

definition demo_wq :: "32 word list \<Rightarrow> 32 word list BaseShardedWQ" where
  "demo_wq w = \<lparr>timeout_interval = 0, sucide_timeout_interval = 0, swq_state = w\<rparr>"

definition demo_env :: senv where
  "demo_env = \<lparr>se_now = 0, se_bt = bt_demo, se_self = ''w''\<rparr>"

lemmas shard_demo = list_shards_def demo_wq_def demo_env_def

definition beats :: "tid \<Rightarrow> 32 word list ShardedThreadPool \<Rightarrow> bool" where
  "beats t s \<longleftrightarrow> (\<exists>c. handles (hbmp s) (sp_hb s t) = Some c \<and> suicide_timeout c = time_min)"

lemma demo_beat:
  assumes "beats t s" "sp_wq s = Some (demo_wq w)"
  shows "\<exists>m. sworker_beat demo_env t s = Ret () (s\<lparr>hbmp := m\<rparr>)"
proof -
  obtain c where c: "handles (hbmp s) (sp_hb s t) = Some c" "\<not> expired (suicide_timeout c) 0"
    using assms(1) by (auto simp: beats_def expired_def)
  show ?thesis
    using reset_timeout_run [OF c, of 0 0] assms(2)
    by (auto simp: sworker_beat_def sp_with_hb_def shard_demo)
qed

text \<open>A worker that enters; the heartbeat map is free in every state of these runs.\<close>

lemma demo_enter:
  assumes "shb_ok s" "sp_pc s t = S_new" "sp_wq s = Some w"
  shows "\<exists>m h. sworker_enter demo_env t s = Ret () (sgoto t S_head (s\<lparr>hbmp := m, sp_hb := h\<rparr>)) \<and>
    beats t (s\<lparr>hbmp := m, sp_hb := h\<rparr>)"
proof -
  have "hb_inv (hbmp s)" "hb_writer (hbmp s) = None" using assms(1) by (simp_all add: shb_ok_def hb_rel_def)
  from add_worker_run [OF this, of t "se_bt demo_env" "sp_name s @ '' thread '' @ se_self demo_env"
      "unat (thread_index s t)"]
  obtain m where "add_worker t (se_bt demo_env) (sp_name s @ '' thread '' @ se_self demo_env)
      (unat (thread_index s t)) (hbmp s) = Ret (next_addr (hbmp s)) m"
    "handles m (next_addr (hbmp s)) = Some ((new_handle (sp_name s @ '' thread '' @ se_self demo_env))
       \<lparr>hh_thread_id := unat (thread_index s t)\<rparr>)" by auto
  then show ?thesis using assms(3)
    by (intro exI [of _ m] exI [of _ "(sp_hb s)(t := next_addr (hbmp s))"])
      (simp add: sworker_enter_def sp_with_hb_def assert_that_def beats_def new_handle_def)
qed

section \<open>One worker\<close>

definition shard0 :: "32 word list ShardedThreadPool" where
  "shard0 = ShardedWQ_ctor 0 0 [] (ShardedThreadPool_ctor hb_demo ''pool'' ''tp'' 1)"

lemma shard0_reach: "sp_reach list_shards shard0"
  unfolding shard0_def
  by (intro sp_reach.step [OF sp_reach.start spstep.set_wq]) (simp add: ShardedThreadPool_ctor_def)

text \<open>Worker 9 has entered its loop and is about to look at \<^verbatim>\<open>pause_threads\<close>.\<close>

definition shard_one :: "32 word list ShardedThreadPool \<Rightarrow> bool" where
  "shard_one s \<longleftrightarrow> sp_reach list_shards s \<and> sp_pc s = (\<lambda>_. S_outside)(9 := S_check_pause) \<and> num_threads s = 1 \<and>
     num_paused s = 0 \<and> num_drained s = 0 \<and> \<not> stop_threads s \<and> \<not> pause_threads s \<and> \<not> drain_threads s \<and>
     sp_wq s = Some (demo_wq []) \<and> threads_shardedpool s = [9] \<and> thread_index s 9 = 0 \<and> wait_cond s = [] \<and>
     shardedpool_cond s = [] \<and> beats 9 s"

lemma shard_one_exists: "\<exists>s. shard_one s"
proof -
  let ?a = "sgoto 9 S_new (shard0\<lparr>threads_shardedpool := [9], thread_index := (thread_index shard0)(9 := 0)\<rparr>)"
  have s0: "sp_pc shard0 = (\<lambda>_. S_outside)" "threads_shardedpool shard0 = []" "num_threads shard0 = 1"
    "sp_thread_name shard0 = ''tp''" "num_paused shard0 = 0" "num_drained shard0 = 0" "\<not> stop_threads shard0"
    "\<not> pause_threads shard0" "\<not> drain_threads shard0" "sp_wq shard0 = Some (demo_wq [])" "wait_cond shard0 = []"
    "shardedpool_cond shard0 = []" "hbmp shard0 = hb_demo"
    by (simp_all add: shard0_def ShardedWQ_ctor_def set_wq_def ShardedThreadPool_ctor_def demo_wq_def)
  have "sp_start [9] shard0 = Ret () ?a"
    by (simp add: sp_start_def s0 c_str_def assert_that_def sgoto_def)
  then have "spstep list_shards A_start shard0 ?a" by (intro spstep.start [of "[9]"]) (simp_all add: s0)
  then have ra: "sp_reach list_shards ?a" by (rule sp_reach.step [OF shard0_reach])
  have "m_workers hb_demo = []" by (simp add: hb_demo_def HeartbeatMap_ctor_def)
  then have "shb_ok ?a"
    using hb_demo_inv by (simp add: shb_ok_def hb_rel_def sp_regs_def sreg_def sgoto_def s0)
  moreover have "sp_pc ?a 9 = S_new" "sp_wq ?a = Some (demo_wq [])" by (simp_all add: sgoto_def s0)
  ultimately obtain m h where e: "sworker_enter demo_env 9 ?a = Ret () (sgoto 9 S_head (?a\<lparr>hbmp := m, sp_hb := h\<rparr>))"
    "beats 9 (?a\<lparr>hbmp := m, sp_hb := h\<rparr>)" using demo_enter by blast
  let ?b = "sgoto 9 S_head (?a\<lparr>hbmp := m, sp_hb := h\<rparr>)"
  have rb: "sp_reach list_shards ?b" by (rule sp_reach.step [OF ra spstep.enter [OF _ e(1)]]) simp
  have "sworker_head demo_env 9 ?b = Ret () (sgoto 9 S_check_pause ?b)" by (simp add: sworker_head_def sworker_exit_def sgoto_def s0)
  then have rc: "sp_reach list_shards (sgoto 9 S_check_pause ?b)"
    by (intro sp_reach.step [OF rb spstep.head [of _ 9]]) simp_all
  have "shard_one (sgoto 9 S_check_pause ?b)"
    using e(2) rc by (simp add: shard_one_def sgoto_def s0 beats_def)
  then show ?thesis by blast
qed

lemma beats_cong: "hbmp s' = hbmp s \<Longrightarrow> sp_hb s' = sp_hb s \<Longrightarrow> beats t s' = beats t s"
  by (simp add: beats_def)

text \<open>Caller 7 waits in \<^verbatim>\<open>pause()\<close>, worker 9 has just arrived in the pause branch.\<close>

lemma shard_paused_exists:
  "\<exists>s. sp_reach list_shards s \<and> sp_pc s = (\<lambda>_. S_outside)(7 := SC_pausing, 9 := S_paused) \<and> wait_cond s = [] \<and>
     num_threads s = 1 \<and> num_paused s = 1 \<and> pause_threads s \<and> threads_shardedpool s = [9] \<and>
     shardedpool_cond s = [9]"
proof -
  obtain x where x: "shard_one x" using shard_one_exists by blast
  note xs = x [unfolded shard_one_def]
  let ?a = "sgoto 7 SC_pausing (x\<lparr>pause_threads := True, sp_wq := Some (demo_wq []), wait_cond := [7]\<rparr>)"
  let ?b = "sgoto 9 S_pause_lock ?a"
  let ?c = "?b\<lparr>num_paused := 1, wait_cond := []\<rparr>"
  have "sp_pause list_shards 7 x = Ret () ?a"
    using xs by (simp add: sp_pause_def wq_call_def sp_pause_turn_def shard_demo)
  then have ra: "sp_reach list_shards ?a"
    using xs sp_reach.step [of list_shards x, OF _ spstep.pause [of x 7]] by simp
  have "sworker_check_pause 9 ?a = ?b" by (simp add: sworker_check_pause_def sgoto_def)
  then have rb: "sp_reach list_shards ?b"
    using sp_reach.step [OF ra spstep.check_pause [of ?a 9]] xs by simp
  have "beats 9 ?c" using xs beats_cong [of ?c x 9] by (simp add: sgoto_def)
  then obtain m where m: "sworker_beat demo_env 9 ?c = Ret () (?c\<lparr>hbmp := m\<rparr>)"
    using demo_beat [of 9 ?c] by (auto simp: sgoto_def)
  let ?d = "sgoto 9 S_paused (?c\<lparr>hbmp := m, shardedpool_cond := [9]\<rparr>)"
  have "?b\<lparr>num_paused := num_paused ?b + 1, wait_cond := []\<rparr> = ?c" using xs by (simp add: sgoto_def)
  then have "sworker_pause demo_env 9 ?b = Ret () ?d"
    using m xs by (simp add: sworker_pause_def sworker_pause_turn_def) (simp add: sgoto_def)
  then have "sp_reach list_shards ?d" by (intro sp_reach.step [OF rb spstep.paused [of ?b 9]]) simp_all
  moreover have "sp_pc ?d = (\<lambda>_. S_outside)(7 := SC_pausing, 9 := S_paused)" "wait_cond ?d = []" "num_threads ?d = 1"
    "num_paused ?d = 1" "pause_threads ?d" "threads_shardedpool ?d = [9]" "shardedpool_cond ?d = [9]"
    using xs by (simp_all add: sgoto_def)
  ultimately show ?thesis by blast
qed

text \<open>Caller 7 waits in \<^verbatim>\<open>drain()\<close>, worker 9 has just arrived in the drain branch.\<close>

definition shard_drained :: "32 word list ShardedThreadPool \<Rightarrow> bool" where
  "shard_drained s \<longleftrightarrow> sp_reach list_shards s \<and> sp_pc s = (\<lambda>_. S_outside)(7 := SC_draining, 9 := S_drained) \<and>
     wait_cond s = [] \<and> num_threads s = 1 \<and> num_drained s = 1 \<and> sp_wq s = Some (demo_wq []) \<and>
     threads_shardedpool s = [9] \<and>
     (\<exists>x. shard_one x \<and> sp_run list_shards (\<lambda>a. a \<noteq> A_queue \<and> a \<noteq> A_set_wq) x s)"

lemma shard_drained_exists: "\<exists>s. shard_drained s"
proof -
  obtain x where x: "shard_one x" using shard_one_exists by blast
  note xs = x [unfolded shard_one_def]
  let ?a = "sgoto 9 S_check_drain x"
  let ?b = "sgoto 7 SC_draining (?a\<lparr>drain_threads := True, sp_wq := Some (demo_wq []), wait_cond := [7]\<rparr>)"
  let ?c = "sgoto 9 S_drain_lock ?b"
  let ?d = "?c\<lparr>num_drained := 1, wait_cond := []\<rparr>"
  have "sworker_check_pause 9 x = ?a" using xs by (simp add: sworker_check_pause_def sgoto_def)
  then have sa: "spstep list_shards A_worker x ?a" using spstep.check_pause [of x 9] xs by simp
  have "sp_drain list_shards 7 ?a = Ret () ?b"
    using xs by (simp add: sp_drain_def wq_call_def sp_drain_turn_def shard_demo assert_that_def) (simp add: sgoto_def)
  then have sb: "spstep list_shards A_drain ?a ?b" using xs by (intro spstep.drain [of ?a 7]) simp_all
  have "sworker_check_drain 9 ?b = ?c" by (simp add: sworker_check_drain_def sgoto_def)
  then have sc: "spstep list_shards A_worker ?b ?c" using spstep.check_drain [of ?b 9] xs by simp
  have "beats 9 ?d" using xs beats_cong [of ?d x 9] by (simp add: sgoto_def)
  then obtain m where m: "sworker_beat demo_env 9 ?d = Ret () (?d\<lparr>hbmp := m\<rparr>)"
    using demo_beat [of 9 ?d] by (auto simp: sgoto_def)
  let ?e = "sgoto 9 S_drained (?d\<lparr>hbmp := m, shardedpool_cond := [9]\<rparr>)"
  have eq: "?c\<lparr>num_drained := num_drained ?c + 1, wait_cond := []\<rparr> = ?d" "sp_wq ?c = Some (demo_wq [])"
    "sop_is_shard_empty list_shards (thread_index ?c 9) (swq_state (demo_wq []))" "drain_threads ?d"
    "shardedpool_cond ?d = []"
    using xs by (simp_all add: sgoto_def shard_demo)
  have "sworker_drain list_shards demo_env 9 ?c = Ret () ?e"
    using m eq by (simp add: sworker_drain_def sworker_drain_turn_def)
  then have sd: "spstep list_shards A_worker ?c ?e" by (intro spstep.drained [of ?c 9]) simp_all
  have run: "sp_run list_shards (\<lambda>a. a \<noteq> A_queue \<and> a \<noteq> A_set_wq) x ?e"
    unfolding sp_run_def
    by (rule rtranclp.rtrancl_into_rtrancl [OF rtranclp.rtrancl_into_rtrancl [OF
        rtranclp.rtrancl_into_rtrancl [OF rtranclp.rtrancl_into_rtrancl [OF rtranclp.rtrancl_refl]]]])
      (use sa sb sc sd in blast)+
  have "sp_reach list_shards ?e" using sp_run_reach [OF run] xs by simp
  moreover have "sp_pc ?e = (\<lambda>_. S_outside)(7 := SC_draining, 9 := S_drained)" "wait_cond ?e = []" "num_threads ?e = 1"
    "num_drained ?e = 1" "sp_wq ?e = Some (demo_wq [])" "threads_shardedpool ?e = [9]"
    using xs by (simp_all add: sgoto_def)
  ultimately have "shard_drained ?e" unfolding shard_drained_def using run x by blast
  then show ?thesis by blast
qed

section \<open>Two workers\<close>

definition hb_reach :: "32 word list ShardedThreadPool \<Rightarrow> bool" where
  "hb_reach s \<longleftrightarrow> sp_reach list_shards s \<and> shb_ok s"

lemma hb_reach_step: "hb_reach s \<Longrightarrow> spstep list_shards a s s' \<Longrightarrow> hb_reach s'"
  unfolding hb_reach_def using sp_reach.step spstep_hb by blast

lemma demo_leave:
  assumes "shb_ok s" "sp_pc s t = S_head" "stop_threads s"
  shows "\<exists>m. sworker_head demo_env t s = Ret () (sgoto t S_exit (s\<lparr>hbmp := m\<rparr>))"
proof -
  have "t \<in> sp_regs s" using assms(2) by (simp add: sp_regs_def sreg_def)
  then obtain m where "remove_worker t (se_bt demo_env) (sp_hb s t) (hbmp s) = Ret () m"
    using sph.handles_owned(4) assms(1) unfolding shb_ok_def by blast
  then show ?thesis using assms(3) by (intro exI [of _ m]) (simp add: sworker_head_def sworker_exit_def sp_with_hb_def)
qed

definition shard2 :: "32 word list ShardedThreadPool" where
  "shard2 = sgoto 9 S_new (sgoto 8 S_new ((ShardedWQ_ctor 0 0 [] (ShardedThreadPool_ctor hb_demo ''pool'' ''tp'' 2))
     \<lparr>threads_shardedpool := [8, 9], thread_index := (\<lambda>_. 0)(8 := 0, 9 := 1)\<rparr>))"

lemma shard2_facts:
  "sp_pc shard2 = (\<lambda>_. S_outside)(8 := S_new, 9 := S_new)" "threads_shardedpool shard2 = [8, 9]"
  "num_threads shard2 = 2" "num_paused shard2 = 0" "num_drained shard2 = 0" "\<not> stop_threads shard2"
  "\<not> pause_threads shard2" "\<not> drain_threads shard2" "sp_wq shard2 = Some (demo_wq [])" "wait_cond shard2 = []"
  "shardedpool_cond shard2 = []" "thread_index shard2 8 = 0" "hbmp shard2 = hb_demo"
  by (simp_all add: shard2_def ShardedWQ_ctor_def set_wq_def ShardedThreadPool_ctor_def demo_wq_def sgoto_def)

lemma shard2_reach: "hb_reach shard2"
proof -
  let ?s = "ShardedWQ_ctor 0 0 [] (ShardedThreadPool_ctor hb_demo ''pool'' ''tp'' 2)"
  have r: "sp_reach list_shards ?s"
    by (intro sp_reach.step [OF sp_reach.start spstep.set_wq]) (simp add: ShardedThreadPool_ctor_def)
  have s: "sp_pc ?s = (\<lambda>_. S_outside)" "threads_shardedpool ?s = []" "num_threads ?s = 2" "sp_thread_name ?s = ''tp''"
    "thread_index ?s = (\<lambda>_. 0)"
    by (simp_all add: ShardedWQ_ctor_def set_wq_def ShardedThreadPool_ctor_def)
  have "sp_start [8, 9] ?s = Ret () shard2"
    by (simp add: sp_start_def s c_str_def assert_that_def sgoto_def shard2_def)
  then have "spstep list_shards A_start ?s shard2" by (intro spstep.start [of "[8, 9]"]) (simp_all add: s)
  then have "sp_reach list_shards shard2" by (rule sp_reach.step [OF r])
  moreover have "m_workers hb_demo = []" by (simp add: hb_demo_def HeartbeatMap_ctor_def)
  then have "shb_ok shard2"
    using hb_demo_inv by (simp add: shb_ok_def hb_rel_def sp_regs_def sreg_def shard2_facts)
  ultimately show ?thesis by (simp add: hb_reach_def)
qed

text \<open>Worker 8 waits in the drain branch for caller 7; worker 9 has not run yet.\<close>

lemma shard2_half:
  "\<exists>s. hb_reach s \<and> sp_pc s = (\<lambda>_. S_outside)(7 := SC_draining, 8 := S_drained, 9 := S_new) \<and> drain_threads s \<and>
     threads_shardedpool s = [8, 9] \<and> sp_wq s = Some (demo_wq []) \<and> \<not> stop_threads s \<and> num_threads s = 2 \<and>
     num_paused s = 0"
proof -
  obtain m h where e: "sworker_enter demo_env 8 shard2 = Ret () (sgoto 8 S_head (shard2\<lparr>hbmp := m, sp_hb := h\<rparr>))"
    "beats 8 (shard2\<lparr>hbmp := m, sp_hb := h\<rparr>)"
    using demo_enter [of shard2 8] shard2_reach by (auto simp: hb_reach_def shard2_facts)
  let ?x = "shard2\<lparr>hbmp := m, sp_hb := h\<rparr>"
  let ?b = "sgoto 8 S_check_drain ?x"
  let ?c = "sgoto 7 SC_draining (?b\<lparr>drain_threads := True, sp_wq := Some (demo_wq []), wait_cond := [7]\<rparr>)"
  let ?d = "sgoto 8 S_drain_lock ?c"
  let ?e = "?d\<lparr>num_drained := 1, wait_cond := []\<rparr>"
  have r: "hb_reach (sgoto 8 S_head ?x)"
    by (rule hb_reach_step [OF shard2_reach spstep.enter [OF _ e(1)]]) (simp add: shard2_facts)
  have h: "sworker_head demo_env 8 (sgoto 8 S_head ?x) = Ret () (sgoto 8 S_check_pause ?x)"
    by (simp add: sworker_head_def sworker_exit_def sgoto_def shard2_facts)
  have ra: "hb_reach (sgoto 8 S_check_pause ?x)"
    by (rule hb_reach_step [OF r spstep.head [OF _ h]]) simp
  have "sworker_check_pause 8 (sgoto 8 S_check_pause ?x) = ?b"
    by (simp add: sworker_check_pause_def sgoto_def shard2_facts)
  then have rb: "hb_reach ?b"
    using hb_reach_step [OF ra spstep.check_pause [of "sgoto 8 S_check_pause ?x" 8]] by simp
  have "sp_drain list_shards 7 ?b = Ret () ?c"
    by (simp add: sp_drain_def wq_call_def sp_drain_turn_def assert_that_def list_shards_def sgoto_def shard2_facts demo_wq_def)
  then have rc: "hb_reach ?c" using hb_reach_step [OF rb spstep.drain [of ?b 7]] by (simp add: shard2_facts)
  have "sworker_check_drain 8 ?c = ?d" by (simp add: sworker_check_drain_def sgoto_def)
  then have rd: "hb_reach ?d" using hb_reach_step [OF rc spstep.check_drain [of ?c 8]] by simp
  have "beats 8 ?e" using e(2) beats_cong [of ?e ?x 8] by (simp add: sgoto_def)
  then obtain m' where m': "sworker_beat demo_env 8 ?e = Ret () (?e\<lparr>hbmp := m'\<rparr>)"
    using demo_beat [of 8 ?e] by (auto simp: sgoto_def)
  let ?f = "sgoto 8 S_drained (?e\<lparr>hbmp := m', shardedpool_cond := [8]\<rparr>)"
  have eq: "?d\<lparr>num_drained := num_drained ?d + 1, wait_cond := []\<rparr> = ?e" "sp_wq ?d = Some (demo_wq [])"
    "sop_is_shard_empty list_shards (thread_index ?d 8) (swq_state (demo_wq []))" "drain_threads ?e"
    "shardedpool_cond ?e = []"
    by (simp_all add: sgoto_def shard2_facts shard_demo)
  have "sworker_drain list_shards demo_env 8 ?d = Ret () ?f"
    using m' eq by (simp add: sworker_drain_def sworker_drain_turn_def)
  then have "hb_reach ?f" using hb_reach_step [OF rd spstep.drained [of ?d 8]] by simp
  moreover have "sp_pc ?f = (\<lambda>_. S_outside)(7 := SC_draining, 8 := S_drained, 9 := S_new)" "drain_threads ?f"
    "threads_shardedpool ?f = [8, 9]" "sp_wq ?f = Some (demo_wq [])" "\<not> stop_threads ?f" "num_threads ?f = 2"
    "num_paused ?f = 0"
    by (simp_all add: sgoto_def shard2_facts fun_eq_iff)
  ultimately show ?thesis by blast
qed

text \<open>Then \<^verbatim>\<open>stop()\<close> is called, and worker 9 starts and leaves.\<close>

lemma shard2_stuck:
  "\<exists>s. sp_reach list_shards s \<and> sp_pc s = (\<lambda>_. S_outside)(6 := SC_stopping, 7 := SC_draining, 8 := S_drained, 9 := S_exit) \<and>
     drain_threads s \<and> threads_shardedpool s = [8, 9]"
proof -
  obtain x where x: "hb_reach x" "sp_pc x = (\<lambda>_. S_outside)(7 := SC_draining, 8 := S_drained, 9 := S_new)"
    "drain_threads x" "threads_shardedpool x = [8, 9]" "sp_wq x = Some (demo_wq [])" using shard2_half by blast
  let ?a = "sgoto 6 SC_stopping (x\<lparr>stop_threads := True, sp_wq := Some (demo_wq [])\<rparr>)"
  have "sp_stop_begin list_shards 6 x = Ret () ?a"
    by (simp add: sp_stop_begin_def wq_call_def assert_that_def shard_demo x(5))
  moreover have "sp_pc x u \<noteq> SC_stopping" for u by (simp add: x(2))
  ultimately have ra: "hb_reach ?a" using hb_reach_step [OF x(1) spstep.stop [of x 6]] x(2) by simp
  then obtain m h where e: "sworker_enter demo_env 9 ?a = Ret () (sgoto 9 S_head (?a\<lparr>hbmp := m, sp_hb := h\<rparr>))"
    using demo_enter [of ?a 9] x(2) by (auto simp: hb_reach_def sgoto_def)
  let ?b = "sgoto 9 S_head (?a\<lparr>hbmp := m, sp_hb := h\<rparr>)"
  have rb: "hb_reach ?b" by (rule hb_reach_step [OF ra spstep.enter [OF _ e]]) (simp add: x(2))
  then obtain n where n: "sworker_head demo_env 9 ?b = Ret () (sgoto 9 S_exit (?b\<lparr>hbmp := n\<rparr>))"
    using demo_leave [of ?b 9] by (auto simp: hb_reach_def sgoto_def)
  let ?c = "sgoto 9 S_exit (?b\<lparr>hbmp := n\<rparr>)"
  have "hb_reach ?c" by (rule hb_reach_step [OF rb spstep.head [OF _ n]]) simp
  moreover have "sp_pc ?c = (\<lambda>_. S_outside)(6 := SC_stopping, 7 := SC_draining, 8 := S_drained, 9 := S_exit)"
    "drain_threads ?c" "threads_shardedpool ?c = [8, 9]" using x by (simp_all add: sgoto_def fun_eq_iff)
  ultimately show ?thesis unfolding hb_reach_def by blast
qed

end
