(* ===== verification/Sharded_Props.thy ===== *)
theory Sharded_Props
  imports Sharded_Runs
begin

text \<open>
  The properties of the sharded pool, for every subclass of \<^verbatim>\<open>ShardedWQ\<close>: what the counters
  mean, what the return of \<^verbatim>\<open>pause()\<close> and \<^verbatim>\<open>drain()\<close> guarantees and for how long, who may
  sleep, and the runs in which \<^verbatim>\<open>drain()\<close>, \<^verbatim>\<open>stop()\<close> and a restart do not do what they are for.
\<close>

section \<open>Counters\<close>

lemma card_at_le:
  assumes "sp_roster pc ths n idx" "slive x"
  shows "card {u. pc u = x} \<le> length ths \<and> length ths \<le> unat n"
proof -
  have "{u. pc u = x} \<subseteq> set ths" using assms by (auto simp: sp_roster_def)
  then have "card {u. pc u = x} \<le> card (set ths)" by (intro card_mono) auto
  then show ?thesis using assms(1) by (auto simp: sp_roster_def distinct_card)
qed

lemma all_at:
  assumes "sp_roster pc ths n idx" "slive x" "word_of_nat (card {u. pc u = x}) = n"
  shows "{u. pc u = x} = set ths \<and> length ths = unat n"
proof
  show eq: "{u. pc u = x} = set ths"
    using not_all [OF assms(1,2)] assms by (auto simp: sp_roster_def)
  have "word_of_nat (length ths) = n" using assms(1,3) eq by (simp add: sp_roster_def distinct_card)
  then show "length ths = unat n"
    using assms(1) le_unat_uoi [of "length ths" n] by (auto simp: sp_roster_def)
qed

lemma counters_exact:
  assumes "sp_inv s"
  shows "unat (num_paused s) = card {u. sp_pc s u = S_paused}"
    "unat (num_drained s) = card {u. sp_pc s u = S_drained}"
    "num_paused s \<le> num_threads s" "num_drained s \<le> num_threads s"
proof -
  note parts = sp_inv_parts [OF assms]
  have le: "card {u. sp_pc s u = x} \<le> unat (num_threads s)" if "slive x" for x
    using card_at_le [OF parts(2) that] by simp
  show p: "unat (num_paused s) = card {u. sp_pc s u = S_paused}"
    "unat (num_drained s) = card {u. sp_pc s u = S_drained}"
    using parts(1) le [of S_paused] le [of S_drained] le_unat_uoi
    by (simp_all add: sp_counts_def) blast+
  show "num_paused s \<le> num_threads s" "num_drained s \<le> num_threads s"
    using p le [of S_paused] le [of S_drained] by (simp_all add: word_le_nat_alt)
qed

text \<open>
  C33: the counters of the sharded pool. In every reachable state \<^verbatim>\<open>num_paused\<close> and \<^verbatim>\<open>num_drained\<close>
  are the numbers of workers inside the pause and the drain branch, never above \<^verbatim>\<open>num_threads\<close>
  and so never wrapped; the workers are those in the vector, at most \<^verbatim>\<open>num_threads\<close>, the one at
  position \<open>i\<close> serving shard \<open>i\<close>; and no worker that has passed its assertion sees a null queue.
\<close>
theorem sharded_counters:
  assumes "sp_reach ops s"
  shows "unat (num_paused s) = card {u. sp_pc s u = S_paused} \<and>
    unat (num_drained s) = card {u. sp_pc s u = S_drained} \<and>
    num_paused s \<le> num_threads s \<and> num_drained s \<le> num_threads s \<and>
    {u. slive (sp_pc s u)} \<subseteq> set (threads_shardedpool s) \<and>
    length (threads_shardedpool s) \<in> {0, unat (num_threads s)} \<and>
    map (thread_index s) (threads_shardedpool s) = map word_of_nat [0..<length (threads_shardedpool s)] \<and>
    (slive (sp_pc s t) \<and> sp_pc s t \<noteq> S_new \<longrightarrow> sp_wq s \<noteq> None)"
proof -
  have inv: "sp_inv s" "sp_full s" using sp_reach_inv [OF assms] by simp_all
  note parts = sp_inv_parts [OF inv(1)]
  have "map (thread_index s) (threads_shardedpool s) = map word_of_nat [0..<length (threads_shardedpool s)]"
    using parts(2) by (intro nth_equalityI) (simp_all add: sp_roster_def)
  then show ?thesis
    using counters_exact [OF inv(1)] parts(2) inv(2) worker_wq [OF inv(1), of t]
    by (auto simp: sp_roster_def sp_full_def)
qed

theorem sharded_counters_witness:
  "\<exists>s :: 32 word list ShardedThreadPool. threads_shardedpool s = [9] \<and> sp_pc s 9 = S_check_pause \<and>
     map (thread_index s) [9] = [0] \<and> unat (num_paused s) = card {u. sp_pc s u = S_paused}"
proof -
  obtain s where s: "shard_one s" using shard_one_exists by blast
  then show ?thesis
    using sharded_counters [of list_shards s 9] by (intro exI [of _ s]) (simp add: shard_one_def)
qed

section \<open>\<^verbatim>\<open>pause()\<close>\<close>

definition same_counts :: "'w ShardedThreadPool \<Rightarrow> 'w ShardedThreadPool \<Rightarrow> bool" where
  "same_counts s s' \<longleftrightarrow> num_paused s' = num_paused s \<and> num_drained s' = num_drained s \<and>
     num_threads s' = num_threads s"

lemma drain_turn_counts:
  "sp_drain_turn ops t s = Ret () s' \<Longrightarrow> same_counts s s' \<and> pause_threads s' = pause_threads s"
  by (cases "num_threads s = num_drained s") (auto simp: sp_drain_turn_def section_Ret sgoto_def same_counts_def)

lemma pause_turn_counts:
  "num_paused (sp_pause_turn t s) = num_paused s \<and> num_drained (sp_pause_turn t s) = num_drained s \<and>
   num_threads (sp_pause_turn t s) = num_threads s \<and> pause_threads (sp_pause_turn t s) = pause_threads s"
  by (simp add: sp_pause_turn_def sgoto_def)

lemma start_counts:
  "sp_start_threads i ws s = Ret () s' \<Longrightarrow> same_counts s s' \<and> pause_threads s' = pause_threads s"
proof (induction ws arbitrary: i s)
  case (Cons w ws)
  show ?case
  proof (cases "length (threads_shardedpool s) < unat (num_threads s)")
    case True
    then have "sp_start_threads (i + 1) ws (sgoto w S_new (s\<lparr>threads_shardedpool := threads_shardedpool s @ [w],
        thread_index := (thread_index s)(w := i)\<rparr>)) = Ret () s'"
      using Cons.prems by (auto simp: outcome_inv)
    from Cons.IH [OF this] show ?thesis by (simp add: same_counts_def sgoto_def)
  qed (use Cons.prems in \<open>simp add: same_counts_def\<close>)
qed (simp add: same_counts_def split: if_splits)

lemma non_worker_step:
  assumes "spstep ops a s s'" "a \<noteq> A_worker"
  shows "same_counts s s' \<and> (a \<noteq> A_unpause \<and> pause_threads s \<longrightarrow> pause_threads s')"
  using assms
proof (cases rule: spstep.cases)
  case (start ws)
  then show ?thesis using start_counts [of 0 ws s s'] by (simp add: sp_start_def)
next
  case (drain t)
  then obtain w where "sp_drain_turn ops t (s\<lparr>drain_threads := True, sp_wq := Some w\<rparr>) = Ret () s'"
    by (auto simp: sp_drain_def section_Ret)
  from drain_turn_counts [OF this] show ?thesis by (simp add: same_counts_def)
next
  case (draining t)
  then show ?thesis using drain_turn_counts by blast
next
  case (pause t)
  then obtain w where "s' = sp_pause_turn t (s\<lparr>pause_threads := True, sp_wq := Some w\<rparr>)"
    by (auto simp: sp_pause_def section_Ret)
  then show ?thesis by (simp add: pause_turn_counts same_counts_def)
next
  case (pausing t)
  then show ?thesis by (simp add: pause_turn_counts same_counts_def)
next
  case (stopped t)
  then have "s' = sgoto t S_outside (s\<lparr>threads_shardedpool := []\<rparr>)"
    by (simp add: sp_stop_finish_def split: if_splits)
  then show ?thesis by (simp add: same_counts_def sgoto_def)
next
  case (stop t)
  then obtain w where "s' = sgoto t SC_stopping (s\<lparr>stop_threads := True, sp_wq := Some w\<rparr>)"
    by (auto simp: sp_stop_begin_def section_Ret)
  then show ?thesis by (simp add: same_counts_def sgoto_def)
qed (auto simp: swq_queue_def swq_queue_front_def ShardedWQ_ctor_def set_wq_def sp_unpause_def section_Ret same_counts_def)

lemma worker_step_paused:
  assumes "spstep ops A_worker s s'" "\<forall>u. slive (sp_pc s u) \<longrightarrow> sp_pc s u = S_paused" "pause_threads s"
  shows "num_paused s' = num_paused s"
proof -
  obtain t e where "sworker_pause_turn e t s = Ret () s'"
    by (rule worker_acts [OF assms(1)]) (use assms(2) in blast)
  then show ?thesis
    by (cases rule: pause_turn_cases) (use assms(3) in \<open>simp_all add: sgoto_def\<close>)
qed

definition paused_all :: "'w ShardedThreadPool \<Rightarrow> bool" where
  "paused_all s \<longleftrightarrow> pause_threads s \<and> num_threads s = num_paused s"

lemma paused_all_workers:
  assumes "sp_inv s" "paused_all s"
  shows "{u. sp_pc s u = S_paused} = set (threads_shardedpool s)"
    "length (threads_shardedpool s) = unat (num_threads s)"
    "slive (sp_pc s u) \<longrightarrow> sp_pc s u = S_paused"
proof -
  note parts = sp_inv_parts [OF assms(1)]
  show *: "{u. sp_pc s u = S_paused} = set (threads_shardedpool s)"
    "length (threads_shardedpool s) = unat (num_threads s)"
    using all_at [OF parts(2), of S_paused] parts(1) assms(2) by (simp_all add: sp_counts_def paused_all_def)
  show "slive (sp_pc s u) \<longrightarrow> sp_pc s u = S_paused" using * parts(2) by (auto simp: sp_roster_def)
qed

lemma paused_all_run:
  assumes "sp_run ops (\<lambda>a. a \<noteq> A_unpause) s s'" "sp_reach ops s" "paused_all s"
  shows "paused_all s'"
  using assms(1)
proof (induction rule: sp_run_induct)
  case base
  show ?case by (rule assms(3))
next
  case (step a x y)
  have inv: "sp_inv x" using sp_reach_inv sp_run_reach [OF step(1) assms(2)] by blast
  show ?case
  proof (cases "a = A_worker")
    case True
    then have "num_paused y = num_paused x"
      using worker_step_paused [of ops x y] step(3,4) paused_all_workers(3) [OF inv step(4)]
      by (simp add: paused_all_def)
    moreover have "same_pool x y" using worker_same step(3) True by blast
    ultimately show ?thesis using step(4) by (simp add: paused_all_def same_pool_def)
  next
    case False
    then show ?thesis using non_worker_step [OF step(3) False] step(2,4) by (simp add: paused_all_def same_counts_def)
  qed
qed

text \<open>
  C22: \<^verbatim>\<open>pause()\<close> of the sharded pool. When a call of \<^verbatim>\<open>pause()\<close> returns and the pause has not been
  lifted, every worker there is sits in the pause branch, and stays there, whatever else is
  called and however the threads are scheduled, until \<^verbatim>\<open>unpause()\<close> is called: no worker
  processes anything in between.
\<close>
theorem sharded_pause_holds:
  assumes "sp_reach ops s"
    and "(sp_pc s t = S_outside \<and> sp_pause ops t s = Ret () s') \<or>
      (sp_pc s t = SC_pausing \<and> t \<notin> set (wait_cond s) \<and> s' = sp_pause_turn t s)"
    and "sp_pc s' t = S_outside" "pause_threads s'" "sp_run ops (\<lambda>a. a \<noteq> A_unpause) s' s''"
  shows "{u. slive (sp_pc s'' u)} = set (threads_shardedpool s'') \<and>
    {u. slive (sp_pc s'' u)} = {u. sp_pc s'' u = S_paused} \<and>
    length (threads_shardedpool s'') = unat (num_threads s'')"
proof -
  have "spstep ops A_pause s s'" using assms(2) by (auto intro: spstep.pause spstep.pausing)
  then have reach: "sp_reach ops s'" by (rule sp_reach.step [OF assms(1)])
  obtain x where "s' = sp_pause_turn t x" using assms(2) by (auto simp: sp_pause_def section_Ret)
  then have "num_threads s' = num_paused s'"
    using assms(3) by (cases "num_threads x = num_paused x") (simp_all add: sp_pause_turn_def sgoto_def)
  then have "paused_all s'" using assms(4) by (simp add: paused_all_def)
  then have paused: "paused_all s''" by (rule paused_all_run [OF assms(5) reach])
  have "sp_inv s''" using sp_reach_inv [OF sp_run_reach [OF assms(5) reach]] by simp
  note all = paused_all_workers [OF this paused]
  have "{u. slive (sp_pc s'' u)} = {u. sp_pc s'' u = S_paused}" using all(3) by auto
  then show ?thesis using all by auto
qed

theorem sharded_pause_holds_witness:
  "\<exists>s. sp_reach list_shards s \<and> threads_shardedpool s = [9] \<and> {u. slive (sp_pc s u)} = {u. sp_pc s u = S_paused}"
proof -
  obtain s where s: "sp_reach list_shards s" "sp_pc s = (\<lambda>_. S_outside)(7 := SC_pausing, 9 := S_paused)"
    "wait_cond s = []" "num_threads s = 1" "num_paused s = 1" "pause_threads s" "threads_shardedpool s = [9]"
    using shard_paused_exists by blast
  have turn: "sp_pause_turn 7 s = sgoto 7 S_outside s" by (simp add: sp_pause_turn_def s)
  have run: "sp_run list_shards (\<lambda>a. a \<noteq> A_unpause) (sgoto 7 S_outside s) (sgoto 7 S_outside s)"
    by (simp add: sp_run_def)
  have "{u. slive (sp_pc (sgoto 7 S_outside s) u)} = {u. sp_pc (sgoto 7 S_outside s) u = S_paused}"
    using sharded_pause_holds [OF s(1), of 7 "sgoto 7 S_outside s", OF _ _ _ run] s turn by (simp add: sgoto_def)
  moreover have "sp_reach list_shards (sgoto 7 S_outside s)"
    using sp_reach.step [OF s(1) spstep.pausing [of s 7]] s turn by simp
  ultimately show ?thesis using s(7) by (intro exI [of _ "sgoto 7 S_outside s"]) (simp add: sgoto_def)
qed

text \<open>
  \<^verbatim>\<open>stop()\<close> while paused. As long as all workers of a pool with at least one worker are paused
  and nobody calls \<^verbatim>\<open>unpause()\<close>, \<^verbatim>\<open>stop()\<close> cannot get past its first \<^verbatim>\<open>join()\<close>: the inner loop of
  the pause branch does not look at \<^verbatim>\<open>stop_threads\<close>.
\<close>
theorem sharded_stop_blocked_by_pause:
  assumes "sp_reach ops s" "paused_all s" "num_threads s \<noteq> 0" "sp_run ops (\<lambda>a. a \<noteq> A_unpause) s s'"
  shows "sp_stop_finish t s' = Block s'"
proof -
  have paused: "paused_all s'" by (rule paused_all_run [OF assms(4,1,2)])
  have inv: "sp_inv s'" using sp_reach_inv [OF sp_run_reach [OF assms(4,1)]] by simp
  have "num_threads s' = num_threads s"
    using assms(4)
  proof (induction rule: sp_run_induct)
    case (step a x y)
    then show ?case
      using non_worker_step [OF step(3)] worker_same [of ops x y]
      by (cases "a = A_worker") (auto simp: same_pool_def same_counts_def)
  qed simp
  then have "0 < unat (num_threads s')" using assms(3) by (simp add: unat_gt_0)
  then obtain w where w: "w \<in> set (threads_shardedpool s')"
    using paused_all_workers(2) [OF inv paused] by (cases "threads_shardedpool s'") auto
  then have "sp_pc s' w = S_paused" using paused_all_workers(1) [OF inv paused] by auto
  then have "sp_pc s' w \<noteq> S_exit" by simp
  with w show ?thesis unfolding sp_stop_finish_def by auto
qed

theorem sharded_stop_blocked_by_pause_witness:
  "\<exists>s. sp_reach list_shards s \<and> paused_all s \<and> sp_stop_finish 6 s = Block s"
proof -
  obtain s where s: "sp_reach list_shards s" "num_threads s = 1" "num_paused s = 1" "pause_threads s"
    using shard_paused_exists by blast
  then have "paused_all s" "num_threads s \<noteq> 0" by (simp_all add: paused_all_def)
  moreover have "sp_run list_shards (\<lambda>a. a \<noteq> A_unpause) s s" by (simp add: sp_run_def)
  ultimately show ?thesis using sharded_stop_blocked_by_pause [OF s(1)] s(1) by blast
qed

section \<open>\<^verbatim>\<open>drain()\<close>\<close>

text \<open>
  What \<^verbatim>\<open>drain()\<close> needs of the queue: processing, and the two calls that release and hold back
  the threads waiting in \<^verbatim>\<open>_process\<close>, do not put anything into an empty shard.
\<close>

definition no_refill :: "('w, 'u) swq_ops \<Rightarrow> bool" where
  "no_refill ops \<longleftrightarrow> (\<forall>i j w. sop_is_shard_empty ops i w \<longrightarrow>
     sop_is_shard_empty ops i (sop_process ops j w) \<and> sop_is_shard_empty ops i (sop_return_waiting ops w) \<and>
     sop_is_shard_empty ops i (sop_stop_return_waiting ops w))"

definition shard_empty :: "('w, 'u) swq_ops \<Rightarrow> 'w ShardedThreadPool \<Rightarrow> 32 word \<Rightarrow> bool" where
  "shard_empty ops s i \<longleftrightarrow>
     (case sp_wq s of None \<Rightarrow> False | Some w \<Rightarrow> sop_is_shard_empty ops i (swq_state w))"

text \<open>The workers in the drain branch have empty shards.\<close>

definition drained_empty :: "('w, 'u) swq_ops \<Rightarrow> 'w ShardedThreadPool \<Rightarrow> bool" where
  "drained_empty ops s \<longleftrightarrow> (\<forall>u. sp_pc s u = S_drained \<longrightarrow> shard_empty ops s (thread_index s u))"

lemma shard_empty_call:
  assumes "wq_call f s = Ret () s'" "shard_empty ops s i"
    "\<And>w. sop_is_shard_empty ops i w \<Longrightarrow> sop_is_shard_empty ops i (f w)"
  shows "shard_empty ops s' i"
  using assms by (auto simp: wq_call_Ret shard_empty_def)

lemma drained_empty_call:
  assumes "drained_empty ops s" "wq_call f x = Ret () y" "sp_wq x = sp_wq s"
    "\<And>i w. sop_is_shard_empty ops i w \<Longrightarrow> sop_is_shard_empty ops i (f w)"
    "sp_wq s' = sp_wq y" "thread_index s' = thread_index s"
    "\<And>u. sp_pc s' u = S_drained \<Longrightarrow> sp_pc s u = S_drained"
  shows "drained_empty ops s'"
  unfolding drained_empty_def
proof (intro allI impI)
  fix u assume "sp_pc s' u = S_drained"
  then have "shard_empty ops x (thread_index s u)"
    using assms(1,3,7) by (simp add: drained_empty_def shard_empty_def)
  from shard_empty_call [OF assms(2) this assms(4)] show "shard_empty ops s' (thread_index s' u)"
    by (simp add: shard_empty_def assms(5,6))
qed

lemma drained_empty_same:
  assumes "drained_empty ops s" "sp_wq s' = sp_wq s" "thread_index s' = thread_index s"
    "\<And>u. sp_pc s' u = S_drained \<Longrightarrow> sp_pc s u = S_drained"
  shows "drained_empty ops s'"
  using assms by (simp add: drained_empty_def shard_empty_def)

lemma drained_empty_drain_turn:
  assumes "sp_drain_turn ops t s = Ret () s'" "drained_empty ops s" "no_refill ops"
  shows "drained_empty ops s'"
proof (cases "num_threads s = num_drained s")
  case True
  then obtain y where y: "wq_call (sop_stop_return_waiting ops) (s\<lparr>drain_threads := False\<rparr>) = Ret () y"
    "s' = sgoto t S_outside (y\<lparr>shardedpool_cond := []\<rparr>)"
    using assms(1) by (auto simp: sp_drain_turn_def bind_eq_Ret_iff)
  have "thread_index y = thread_index s" "sp_pc y = sp_pc s" using y(1) by (auto simp: wq_call_Ret)
  then show ?thesis
    using assms(3) y(2)
    by (intro drained_empty_call [OF assms(2) y(1)]) (auto simp: sgoto_def no_refill_def split: if_splits)
next
  case False
  then have "s' = sgoto t SC_draining (s\<lparr>wait_cond := wait_cond s @ [t]\<rparr>)"
    using assms(1) by (simp add: sp_drain_turn_def)
  then show ?thesis by (intro drained_empty_same [OF assms(2)]) (auto simp: sgoto_def split: if_splits)
qed

lemma drained_empty_start:
  assumes "sp_start_threads i ws s = Ret () s'" "drained_empty ops s" "distinct ws"
    "\<forall>w \<in> set ws. sp_pc s w = S_outside"
  shows "drained_empty ops s'"
  using assms
proof (induction ws arbitrary: i s)
  case (Cons w ws)
  show ?case
  proof (cases "length (threads_shardedpool s) < unat (num_threads s)")
    case True
    let ?s = "sgoto w S_new (s\<lparr>threads_shardedpool := threads_shardedpool s @ [w],
        thread_index := (thread_index s)(w := i)\<rparr>)"
    have "sp_start_threads (i + 1) ws ?s = Ret () s'" using Cons.prems(1) True by (auto simp: outcome_inv)
    moreover have "drained_empty ops ?s"
      using Cons.prems(2) by (simp add: drained_empty_def shard_empty_def sgoto_def)
    ultimately show ?thesis using Cons.prems(3,4) by (intro Cons.IH) auto
  qed (use Cons.prems in simp)
qed (simp split: if_splits)

lemma drained_empty_goto:
  assumes "drained_empty ops s" "sp_wq x = sp_wq s" "thread_index x = thread_index s" "sp_pc x = sp_pc s"
    "p \<noteq> S_drained"
  shows "drained_empty ops (sgoto t p x)"
  using assms by (intro drained_empty_same [OF assms(1)]) (auto simp: sgoto_def split: if_splits)

lemma drained_empty_pause_turn:
  assumes "sworker_pause_turn e t x = Ret () s'" "drained_empty ops s" "sp_wq x = sp_wq s"
    "thread_index x = thread_index s" "sp_pc x = sp_pc s"
  shows "drained_empty ops s'"
  using assms(1)
proof (cases rule: pause_turn_cases)
  case stay
  then show ?thesis using assms by (simp add: drained_empty_goto)
next
  case leave
  then show ?thesis using assms by (simp add: drained_empty_goto)
qed

lemma drained_empty_worker_drain:
  assumes "sworker_drain_turn e t x = Ret () s'" "drained_empty ops s" "sp_wq x = sp_wq s"
    "thread_index x = thread_index s" "sp_pc x = sp_pc s" "shard_empty ops s (thread_index s t)"
  shows "drained_empty ops s'"
  using assms(1)
proof (cases rule: drain_turn_cases)
  case stay
  then show ?thesis using assms by (simp add: drained_empty_def shard_empty_def sgoto_def)
next
  case leave
  then show ?thesis using assms by (simp add: drained_empty_goto)
qed

lemma drained_empty_worker:
  assumes "spstep ops A_worker s s'" "drained_empty ops s" "no_refill ops"
  shows "drained_empty ops s'"
  using assms(1)
proof (cases rule: spstep.cases)
  case (enter t e)
  then show ?thesis using assms(2)
    by (auto simp: sworker_enter_def section_Ret intro!: drained_empty_goto)
next
  case (head t e)
  then show ?thesis using assms(2)
    by (auto simp: sworker_head_def sworker_exit_def section_Ret intro!: drained_empty_goto split: if_splits)
next
  case (check_pause t)
  then show ?thesis using assms(2) by (simp add: sworker_check_pause_def drained_empty_goto)
next
  case (check_drain t)
  then show ?thesis using assms(2) by (simp add: sworker_check_drain_def drained_empty_goto)
next
  case (paused t e)
  then show ?thesis
    using drained_empty_pause_turn [OF _ assms(2), of e t "s\<lparr>num_paused := num_paused s + 1, wait_cond := []\<rparr>" s']
    by (simp add: sworker_pause_def)
next
  case (pause_again t e)
  then show ?thesis using drained_empty_pause_turn [OF _ assms(2), of e t s s'] by simp
next
  case (drained t e)
  from drained(2) show ?thesis
  proof (cases rule: drain_cases)
    case (full w)
    then show ?thesis using assms(2) by (simp add: drained_empty_goto)
  next
    case (empty w)
    then show ?thesis
      by (intro drained_empty_worker_drain [OF empty(3) assms(2)]) (simp_all add: shard_empty_def)
  qed
next
  case (drain_again t e)
  then show ?thesis using assms(2)
    by (intro drained_empty_worker_drain [OF drain_again(3) assms(2)]) (simp_all add: drained_empty_def)
next
  case (reset t e)
  then show ?thesis using assms(2)
    by (auto simp: sworker_reset_def section_Ret intro!: drained_empty_goto)
next
  case (processed t)
  then obtain y where y: "wq_call (sop_process ops (thread_index s t)) s = Ret () y" "s' = sgoto t S_head y"
    by (auto simp: sworker_processed_def bind_eq_Ret_iff)
  have "thread_index y = thread_index s" "sp_pc y = sp_pc s" using y(1) by (auto simp: wq_call_Ret)
  then show ?thesis using assms(3) y(2)
    by (intro drained_empty_call [OF assms(2) y(1)]) (auto simp: sgoto_def no_refill_def split: if_splits)
qed

text \<open>A caller's virtual call, and then at most its own point and the two lists of sleepers.\<close>

lemma drained_empty_caller:
  assumes "drained_empty ops s" "no_refill ops" "f = sop_return_waiting ops \<or> f = sop_stop_return_waiting ops"
    "wq_call f x = Ret () y" "sp_wq x = sp_wq s" "thread_index x = thread_index s" "sp_pc x = sp_pc s"
  shows "drained_empty ops y"
proof -
  have "thread_index y = thread_index s" "sp_pc y = sp_pc s" using assms(4,6,7) by (auto simp: wq_call_Ret)
  then show ?thesis
    using assms(2,3) by (intro drained_empty_call [OF assms(1,4,5)]) (auto simp: no_refill_def)
qed

lemma drained_empty_caller_turn: "drained_empty ops s \<Longrightarrow> drained_empty ops (sp_pause_turn t s)"
  by (simp add: sp_pause_turn_def drained_empty_goto)

lemma drained_empty_step:
  assumes "spstep ops a s s'" "a \<noteq> A_queue" "a \<noteq> A_set_wq" "drained_empty ops s" "no_refill ops"
  shows "drained_empty ops s'"
proof (cases "a = A_worker")
  case True
  then show ?thesis using drained_empty_worker assms by blast
next
  case False
  note call = drained_empty_caller [OF assms(4,5)]
  from assms(1) show ?thesis
  proof (cases rule: spstep.cases)
    case (start ws)
    then show ?thesis using drained_empty_start [of 0 ws s s'] assms(4) by (simp add: sp_start_def)
  next
    case (stop t)
    then obtain y where y: "wq_call (sop_return_waiting ops) (s\<lparr>stop_threads := True\<rparr>) = Ret () y"
      "s' = sgoto t SC_stopping y" by (auto simp: sp_stop_begin_def outcome_inv)
    have "drained_empty ops y" by (rule call [OF _ y(1)]) simp_all
    then show ?thesis unfolding y(2) by (intro drained_empty_goto) simp_all
  next
    case (stopped t)
    then have "s' = sgoto t S_outside (s\<lparr>threads_shardedpool := []\<rparr>)"
      by (simp add: sp_stop_finish_def split: if_splits)
    then show ?thesis using assms(4) by (simp add: drained_empty_goto)
  next
    case (pause t)
    then obtain y where y: "wq_call (sop_return_waiting ops) (s\<lparr>pause_threads := True\<rparr>) = Ret () y"
      "s' = sp_pause_turn t y" by (auto simp: sp_pause_def outcome_inv)
    have "drained_empty ops y" by (rule call [OF _ y(1)]) simp_all
    then show ?thesis unfolding y(2) by (rule drained_empty_caller_turn)
  next
    case (pausing t)
    then show ?thesis using assms(4) by (simp add: drained_empty_caller_turn)
  next
    case unpause
    then obtain y where y: "wq_call (sop_stop_return_waiting ops) (s\<lparr>pause_threads := False\<rparr>) = Ret () y"
      "s' = y\<lparr>shardedpool_cond := []\<rparr>" by (auto simp: sp_unpause_def outcome_inv)
    have "drained_empty ops y" by (rule call [OF _ y(1)]) simp_all
    then show ?thesis unfolding y(2) by (rule drained_empty_same) simp_all
  next
    case (drain t)
    then obtain y where y: "wq_call (sop_return_waiting ops) (s\<lparr>drain_threads := True\<rparr>) = Ret () y"
      "sp_drain_turn ops t y = Ret () s'" by (auto simp: sp_drain_def outcome_inv)
    have "drained_empty ops y" by (rule call [OF _ y(1)]) simp_all
    then show ?thesis by (rule drained_empty_drain_turn [OF y(2) _ assms(5)])
  next
    case (draining t)
    then show ?thesis using drained_empty_drain_turn assms(4,5) by blast
  next
    case (wake_up ts)
    then show ?thesis by (intro drained_empty_same [OF assms(4)]) simp_all
  next
    case (wait_wake_up ts)
    then show ?thesis by (intro drained_empty_same [OF assms(4)]) simp_all
  qed (use False assms(2,3) in simp_all)
qed

text \<open>
  C23: \<^verbatim>\<open>drain()\<close> of the sharded pool, from a state in which no worker is in the drain branch. If
  nothing is queued meanwhile and processing does not refill an empty shard, then whenever a
  call of \<^verbatim>\<open>drain()\<close> returns, every shard is empty, no worker is inside \<^verbatim>\<open>_process\<close>, and the drain
  has been lifted.
\<close>
theorem sharded_drain_empties:
  assumes "no_refill ops" "sp_reach ops s" "num_drained s = 0"
    and "sp_run ops (\<lambda>a. a \<noteq> A_queue \<and> a \<noteq> A_set_wq) s s1"
    and "(sp_pc s1 t = S_outside \<and> sp_drain ops t s1 = Ret () s2) \<or>
      (sp_pc s1 t = SC_draining \<and> t \<notin> set (wait_cond s1) \<and> sp_drain_turn ops t s1 = Ret () s2)"
    and "sp_pc s2 t = S_outside" "i < unat (num_threads s2)"
  shows "shard_empty ops s2 (word_of_nat i) \<and> \<not> drain_threads s2 \<and> (\<forall>u. sp_pc s2 u \<noteq> S_processing)"
proof -
  have inv: "sp_inv s" using sp_reach_inv [OF assms(2)] by simp
  have "card {u. sp_pc s u = S_drained} = 0" using counters_exact(2) [OF inv] assms(3) by simp
  moreover have "finite {u. sp_pc s u = S_drained}"
    using sp_inv_parts(1) [OF inv] unfolding sp_counts_def by (elim conjE finite_subset [rotated]) auto
  ultimately have "drained_empty ops s" by (auto simp: drained_empty_def)
  with assms(4) have "drained_empty ops s1"
  proof (induction rule: sp_run_induct)
    case (step a x y)
    then show ?case using drained_empty_step [OF step(3)] assms(1) by blast
  qed
  moreover have step: "spstep ops A_drain s1 s2" using assms(5) by (auto intro: spstep.drain spstep.draining)
  ultimately have empty: "drained_empty ops s2" using drained_empty_step [OF step] assms(1) by simp
  have inv2: "sp_inv s2"
    using sp_reach_inv [OF sp_reach.step [OF sp_run_reach [OF assms(4,2)] step]] by simp
  obtain y where "sp_drain_turn ops t y = Ret () s2" using assms(5) by (auto simp: sp_drain_def outcome_inv)
  then have lifted: "num_threads s2 = num_drained s2 \<and> \<not> drain_threads s2"
    using assms(6) by (cases "num_threads y = num_drained y") (auto simp: sp_drain_turn_def section_Ret sgoto_def)
  note parts = sp_inv_parts [OF inv2]
  have all: "{u. sp_pc s2 u = S_drained} = set (threads_shardedpool s2)"
    "length (threads_shardedpool s2) = unat (num_threads s2)"
    using all_at [OF parts(2), of S_drained] parts(1) lifted by (simp_all add: sp_counts_def)
  have "threads_shardedpool s2 ! i \<in> set (threads_shardedpool s2)" using all(2) assms(7) by simp
  then have "sp_pc s2 (threads_shardedpool s2 ! i) = S_drained" using all(1) by blast
  moreover have "thread_index s2 (threads_shardedpool s2 ! i) = word_of_nat i"
    using parts(2) all(2) assms(7) by (simp add: sp_roster_def)
  ultimately have "shard_empty ops s2 (word_of_nat i)"
    using empty unfolding drained_empty_def by fastforce
  moreover have "sp_pc s2 u \<noteq> S_processing" for u
  proof
    assume u: "sp_pc s2 u = S_processing"
    then have "u \<in> set (threads_shardedpool s2)" using parts(2) by (simp add: sp_roster_def)
    then have "sp_pc s2 u = S_drained" using all(1) by blast
    then show False using u by simp
  qed
  ultimately show ?thesis using lifted by blast
qed

theorem sharded_drain_empties_witness:
  "\<exists>s s'. shard_drained s \<and> sp_drain_turn list_shards 7 s = Ret () s' \<and> shard_empty list_shards s' 0"
proof -
  obtain s where s: "shard_drained s" using shard_drained_exists by blast
  obtain x where x: "shard_one x" "sp_run list_shards (\<lambda>a. a \<noteq> A_queue \<and> a \<noteq> A_set_wq) x s"
    using s by (auto simp: shard_drained_def)
  have turn: "\<exists>s'. sp_drain_turn list_shards 7 s = Ret () s' \<and> sp_pc s' 7 = S_outside \<and> num_threads s' = 1"
    using s by (auto simp: shard_drained_def sp_drain_turn_def wq_call_def sgoto_def)
  then obtain s' where s': "sp_drain_turn list_shards 7 s = Ret () s'" "sp_pc s' 7 = S_outside" "num_threads s' = 1"
    by blast
  have "no_refill list_shards" by (simp add: no_refill_def list_shards_def notin_set_remove1)
  moreover have "sp_pc s 7 = SC_draining \<and> 7 \<notin> set (wait_cond s)" using s by (simp add: shard_drained_def)
  ultimately have "shard_empty list_shards s' (word_of_nat 0)"
    using sharded_drain_empties [of list_shards x s 7 s' 0] x s' by (simp add: shard_one_def)
  then show ?thesis using s s'(1) by auto
qed

text \<open>
  C40: a second \<^verbatim>\<open>drain()\<close> can return too early. A pool with one worker reaches a state in which
  thread 7 is in \<^verbatim>\<open>drain()\<close> and the worker, whose shard is empty, is counted as drained. That call returns, the
  flag goes down and the worker is notified, but it has not yet had its turn in which it decrements \<^verbatim>\<open>num_drained\<close>. An
  item is queued in its shard, and thread 7 calls \<^verbatim>\<open>drain()\<close> again: the call counts the worker although it has
  not looked at its shard since, and returns at once with the item still there.
\<close>
theorem sharded_drain_returns_early:
  "\<exists>s0 s1 s2 s3. sp_reach list_shards s0 \<and> num_threads s0 = 1 \<and> threads_shardedpool s0 = [9] \<and> thread_index s0 9 = 0 \<and>
     sp_pc s0 7 = SC_draining \<and> sp_pc s0 9 = S_drained \<and> shard_empty list_shards s0 0 \<and>
     sp_drain_turn list_shards 7 s0 = Ret () s1 \<and> sp_pc s1 7 = S_outside \<and> \<not> drain_threads s1 \<and> shardedpool_cond s1 = [] \<and>
     swq_queue list_shards 0 s1 = Ret () s2 \<and> sp_pc s2 9 = S_drained \<and> \<not> shard_empty list_shards s2 (thread_index s2 9) \<and>
     sp_reach list_shards s2 \<and> sp_drain list_shards 7 s2 = Ret () s3 \<and> sp_pc s3 7 = S_outside \<and>
     \<not> shard_empty list_shards s3 (thread_index s3 9)"
proof -
  obtain s where s: "sp_reach list_shards s" "sp_pc s = (\<lambda>_. S_outside)(7 := SC_draining, 9 := S_drained)"
    "wait_cond s = []" "num_threads s = 1" "num_drained s = 1" "sp_wq s = Some (demo_wq [])"
    "threads_shardedpool s = [9]"
    using shard_drained_exists by (auto simp: shard_drained_def)
  have index: "thread_index s 9 = 0"
    using sp_inv_parts(2) [OF conjunct1 [OF sp_reach_inv [OF s(1)]]] s(7) by (simp add: sp_roster_def)
  let ?a = "sgoto 7 S_outside (s\<lparr>drain_threads := False, sp_wq := Some (demo_wq []), shardedpool_cond := []\<rparr>)"
  let ?b = "?a\<lparr>sp_wq := Some (demo_wq [0])\<rparr>"
  let ?c = "sgoto 7 S_outside (?b\<lparr>drain_threads := False, sp_wq := Some (demo_wq [0]), shardedpool_cond := []\<rparr>)"
  have a: "sp_drain_turn list_shards 7 s = Ret () ?a"
    by (simp add: sp_drain_turn_def wq_call_def shard_demo s)
  then have ra: "sp_reach list_shards ?a" using sp_reach.step [OF s(1) spstep.draining [of s 7]] s(2,3) by simp
  have b: "swq_queue list_shards 0 ?a = Ret () ?b" by (simp add: swq_queue_def wq_call_def sgoto_def shard_demo)
  then have rb: "sp_reach list_shards ?b" by (rule sp_reach.step [OF ra spstep.queue])
  have c: "sp_drain list_shards 7 ?b = Ret () ?c"
    by (simp add: sp_drain_def sp_drain_turn_def wq_call_def assert_that_def sgoto_def shard_demo s(4,5))
  have "shard_empty list_shards s 0" "\<not> shard_empty list_shards ?b (thread_index ?b 9)"
    "\<not> shard_empty list_shards ?c (thread_index ?c 9)" using index by (simp_all add: shard_empty_def sgoto_def shard_demo s(6))
  then show ?thesis
    using s(1,2,4,7) index a b c rb
    by (intro exI [of _ s] exI [of _ ?a] exI [of _ ?b] exI [of _ ?c]) (simp add: sgoto_def)
qed

section \<open>Sleepers\<close>

text \<open>
  nobody sleeps for nothing. In every reachable state a worker asleep in the pause or drain
  branch is held there by the flag it waits for, and a caller asleep in \<^verbatim>\<open>pause()\<close> or \<^verbatim>\<open>drain()\<close>
  still misses a worker; whoever makes the condition true has woken them all.
\<close>
theorem sharded_sleepers_have_reason:
  assumes "sp_reach ops s"
  shows "(t \<in> set (shardedpool_cond s) \<longrightarrow>
      (sp_pc s t = S_paused \<and> pause_threads s) \<or> (sp_pc s t = S_drained \<and> drain_threads s)) \<and>
    (t \<in> set (wait_cond s) \<longrightarrow>
      (sp_pc s t = SC_pausing \<and> num_paused s < num_threads s) \<or>
      (sp_pc s t = SC_draining \<and> num_drained s < num_threads s))"
proof -
  have inv: "sp_inv s" using sp_reach_inv [OF assms] by simp
  note parts = sp_inv_parts [OF inv]
  show ?thesis using parts(3,4) counters_exact(3,4) [OF inv] unfolding sp_waits_def sp_sleeps_def by fastforce
qed

theorem sharded_sleepers_have_reason_witness:
  "\<exists>s. sp_reach list_shards s \<and> 9 \<in> set (shardedpool_cond s) \<and> pause_threads s"
proof -
  obtain s where s: "sp_reach list_shards s" "shardedpool_cond s = [9]"
    "sp_pc s = (\<lambda>_. S_outside)(7 := SC_pausing, 9 := S_paused)" using shard_paused_exists by blast
  then show ?thesis using sharded_sleepers_have_reason [OF s(1), of 9] by (intro exI [of _ s]) simp
qed

section \<open>After \<^verbatim>\<open>stop()\<close>\<close>

text \<open>
  no restart. \<^verbatim>\<open>stop()\<close> sets \<^verbatim>\<open>stop_threads\<close> and nothing resets it. Once a call of \<^verbatim>\<open>stop()\<close> has
  returned, no worker ever reaches the body of its loop again, whatever is called afterwards,
  \<^verbatim>\<open>start()\<close> included: a worker started later registers and leaves.
\<close>
theorem sharded_no_restart:
  assumes "sp_reach ops s" "sp_pc s t = SC_stopping" "sp_stop_finish t s = Ret () s'"
    and "sp_run ops (\<lambda>_. True) s' s''"
  shows "stop_threads s'' \<and> (slive (sp_pc s'' u) \<longrightarrow> sp_pc s'' u = S_new \<or> sp_pc s'' u = S_head)"
proof -
  have inv: "sp_inv s" using sp_reach_inv [OF assms(1)] by simp
  have stop: "stop_threads s" using sp_inv_parts(5) [OF inv] assms(2) by (auto simp: sp_flags_def)
  have s': "s' = sgoto t S_outside (s\<lparr>threads_shardedpool := []\<rparr>)"
    and exit: "\<forall>w \<in> set (threads_shardedpool s). sp_pc s w = S_exit"
    using assms(3) by (auto simp: sp_stop_finish_def split: if_splits)
  have "\<not> slive (sp_pc s u)" for u
    using exit sp_inv_parts(2) [OF inv] unfolding sp_roster_def by (metis slive.simps(2))
  then have "stop_threads s' \<and> (\<forall>u. slive (sp_pc s' u) \<longrightarrow> sp_pc s' u = S_new \<or> sp_pc s' u = S_head)"
    using stop by (simp add: s' sgoto_def)
  with assms(4) have "stop_threads s'' \<and> (\<forall>u. slive (sp_pc s'' u) \<longrightarrow> sp_pc s'' u = S_new \<or> sp_pc s'' u = S_head)"
  proof (induction rule: sp_run_induct)
    case (step a x y)
    then have x: "stop_threads x" "\<And>u. slive (sp_pc x u) \<Longrightarrow> sp_pc x u = S_new \<or> sp_pc x u = S_head" by auto
    show ?case
    proof (cases "a = A_worker")
      case False
      have "calls p \<Longrightarrow> \<not> slive p" for p by (auto simp: calls_def)
      then show ?thesis using non_worker_pc [OF step(3) False] x unfolding only_callers_def by metis
    next
      case True
      then have st: "spstep ops A_worker x y" using step(3) by simp
      obtain v e where v: "sp_pc x v = S_new \<or> sp_pc x v = S_head" "\<forall>u. u \<noteq> v \<longrightarrow> sp_pc y u = sp_pc x u"
        "sp_pc x v = S_new \<longrightarrow> sworker_enter e v x = Ret () y" "sp_pc x v = S_head \<longrightarrow> sworker_head e v x = Ret () y"
        by (rule worker_acts [OF st]) (use x(2) in blast)
      have "sp_pc y v = S_head \<or> sp_pc y v = S_exit"
        using v(1,3,4) x(1) by (auto simp: sworker_enter_def sworker_head_def sworker_exit_def section_Ret)
      moreover have "stop_threads y" using worker_same [OF st] x(1) by (simp add: same_pool_def)
      ultimately show ?thesis using v(2) x(2) by (metis slive.simps(2))
    qed
  qed
  then show ?thesis by blast
qed

theorem sharded_no_restart_witness:
  "\<exists>s s'. sp_reach list_shards s \<and> sp_stop_finish 6 s = Ret () s' \<and> stop_threads s'"
proof -
  have s0: "sp_pc shard0 = (\<lambda>_. S_outside)" "threads_shardedpool shard0 = []" "sp_wq shard0 = Some (demo_wq [])"
    by (simp_all add: shard0_def ShardedWQ_ctor_def set_wq_def ShardedThreadPool_ctor_def demo_wq_def)
  let ?a = "sgoto 6 SC_stopping (shard0\<lparr>stop_threads := True, sp_wq := Some (demo_wq [])\<rparr>)"
  have "sp_stop_begin list_shards 6 shard0 = Ret () ?a"
    by (simp add: sp_stop_begin_def wq_call_def assert_that_def shard_demo s0)
  then have ra: "sp_reach list_shards ?a" using sp_reach.step [OF shard0_reach spstep.stop [of shard0 6]] s0(1) by simp
  obtain b where b: "sp_stop_finish 6 ?a = Ret () b" by (simp add: sp_stop_finish_def sgoto_def s0)
  have "sp_run list_shards (\<lambda>_. True) b b" by (simp add: sp_run_def)
  then show ?thesis using sharded_no_restart [OF ra _ b, of b 9] ra b by auto
qed

section \<open>\<^verbatim>\<open>stop()\<close> during a \<^verbatim>\<open>drain()\<close>\<close>

text \<open>One worker waits in the drain branch, another has left.\<close>

definition drain_stuck :: "'w ShardedThreadPool \<Rightarrow> bool" where
  "drain_stuck s \<longleftrightarrow> drain_threads s \<and> (\<exists>u \<in> set (threads_shardedpool s). sp_pc s u = S_drained) \<and>
     (\<exists>v \<in> set (threads_shardedpool s). sp_pc s v = S_exit)"

lemma drain_stuck_missing:
  assumes "sp_inv s" "drain_stuck s"
  shows "num_threads s \<noteq> num_drained s"
proof -
  note parts = sp_inv_parts [OF assms(1)]
  obtain v where v: "v \<in> set (threads_shardedpool s)" "sp_pc s v = S_exit" using assms(2) by (auto simp: drain_stuck_def)
  then show ?thesis
    using not_all [OF parts(2), of S_drained v] parts(1) by (simp add: sp_counts_def)
qed

lemma start_full:
  "sp_start ws s = Ret () s' \<Longrightarrow> length (threads_shardedpool s) = unat (num_threads s) \<Longrightarrow> s' = s"
  by (cases ws) (simp_all add: sp_start_def)

lemma drain_turn_waits:
  assumes "num_threads s \<noteq> num_drained s" "sp_drain_turn ops t s = Ret () s'"
  shows "s' = sgoto t SC_draining (s\<lparr>wait_cond := wait_cond s @ [t]\<rparr>)"
  using assms by (simp add: sp_drain_turn_def)

lemma drain_stuck_members:
  assumes "spstep ops a s s'" "a \<noteq> A_worker" "sp_full s" "drain_threads s" "num_threads s \<noteq> num_drained s"
    "\<exists>u \<in> set (threads_shardedpool s). sp_pc s u \<noteq> S_exit"
  shows "threads_shardedpool s' = threads_shardedpool s \<and> drain_threads s'"
  using assms(1)
proof (cases rule: spstep.cases)
  case (start ws)
  then show ?thesis using start_full [OF start(5)] assms(3,4,6) by (auto simp: sp_full_def)
next
  case (stopped t)
  then show ?thesis using assms(6) by (auto simp: sp_stop_finish_def split: if_splits)
next
  case (stop t)
  then obtain w where "s' = sgoto t SC_stopping (s\<lparr>stop_threads := True, sp_wq := Some w\<rparr>)"
    by (auto simp: sp_stop_begin_def section_Ret)
  then show ?thesis using assms(4) by (simp add: sgoto_def)
next
  case (pause t)
  then obtain w where "s' = sp_pause_turn t (s\<lparr>pause_threads := True, sp_wq := Some w\<rparr>)"
    by (auto simp: sp_pause_def section_Ret)
  then show ?thesis using assms(4) by (simp add: sp_pause_turn_def sgoto_def)
next
  case (pausing t)
  then show ?thesis using assms(4) by (simp add: sp_pause_turn_def sgoto_def)
next
  case (drain t)
  then obtain w where w: "sp_drain_turn ops t (s\<lparr>drain_threads := True, sp_wq := Some w\<rparr>) = Ret () s'"
    by (auto simp: sp_drain_def section_Ret)
  show ?thesis using drain_turn_waits [OF _ w] assms(4,5) by (simp add: sgoto_def)
next
  case (draining t)
  show ?thesis using drain_turn_waits [OF assms(5) draining(4)] assms(4) by (simp add: sgoto_def)
qed (use assms(2,4) in \<open>auto simp: swq_queue_def swq_queue_front_def ShardedWQ_ctor_def set_wq_def sp_unpause_def section_Ret\<close>)

lemma drain_stuck_step:
  assumes "spstep ops a s s'" "sp_inv s" "sp_full s" "drain_stuck s"
  shows "drain_stuck s'"
proof -
  obtain u v where u: "u \<in> set (threads_shardedpool s)" "sp_pc s u = S_drained"
    and v: "v \<in> set (threads_shardedpool s)" "sp_pc s v = S_exit" and d: "drain_threads s"
    using assms(4) by (auto simp: drain_stuck_def)
  have "threads_shardedpool s' = threads_shardedpool s \<and> drain_threads s' \<and> sp_pc s' u = S_drained \<and>
      sp_pc s' v = S_exit"
  proof (cases "a = A_worker")
    case True
    then have st: "spstep ops A_worker s s'" using assms(1) by simp
    obtain t e where t: "slive (sp_pc s t)" "\<forall>x. x \<noteq> t \<longrightarrow> sp_pc s' x = sp_pc s x"
      "sp_pc s t = S_drained \<longrightarrow> sworker_drain_turn e t s = Ret () s'"
      by (rule worker_acts [OF st]) blast
    have "sp_pc s' v = S_exit" using t(1,2) v(2) by (metis slive.simps(2))
    moreover have "sp_pc s' u = S_drained"
    proof (cases "u = t")
      case True
      then have "sworker_drain_turn e t s = Ret () s'" using t(3) u(2) by simp
      then show ?thesis by (cases rule: drain_turn_cases) (use d True in simp_all)
    qed (use t(2) u(2) in simp)
    ultimately show ?thesis using worker_same [OF st] d by (simp add: same_pool_def)
  next
    case False
    have "sp_pc s' x = sp_pc s x" if "sp_pc s x \<in> {S_drained, S_exit}" for x
      using non_worker_pc [OF assms(1) False] that unfolding only_callers_def calls_def
      by (auto dest!: spec [of _ x])
    then have "sp_pc s' u = sp_pc s u" "sp_pc s' v = sp_pc s v" using u(2) v(2) by simp_all
    then show ?thesis
      using drain_stuck_members [OF assms(1) False assms(3) d drain_stuck_missing [OF assms(2,4)] bexI [of _ u]] u v
      by simp
  qed
  then show ?thesis using u(1) v(1) unfolding drain_stuck_def by auto
qed

text \<open>
  \<^verbatim>\<open>stop()\<close> during a \<^verbatim>\<open>drain()\<close>. If, while a drain is in progress, one worker is already waiting
  in the drain branch and another one has seen \<^verbatim>\<open>stop_threads\<close> and left, then neither call ever
  returns, however the run goes on: \<^verbatim>\<open>drain()\<close> misses the worker that left, the waiting worker
  does not look at \<^verbatim>\<open>stop_threads\<close>, and \<^verbatim>\<open>stop()\<close> joins it.
\<close>
theorem sharded_stop_drain_deadlock:
  assumes "sp_reach ops s" "drain_stuck s" "sp_run ops (\<lambda>_. True) s s'"
  shows "drain_stuck s' \<and> sp_stop_finish t s' = Block s' \<and>
    (\<forall>s2. sp_drain_turn ops u s' = Ret () s2 \<longrightarrow> sp_pc s2 u = SC_draining)"
proof -
  have stuck: "drain_stuck s'"
    using assms(3)
  proof (induction rule: sp_run_induct)
    case base
    show ?case by (rule assms(2))
  next
    case (step a x y)
    have "sp_inv x" "sp_full x" using sp_reach_inv [OF sp_run_reach [OF step(1) assms(1)]] by simp_all
    then show ?case using drain_stuck_step [OF step(3)] step(4) by simp
  qed
  have inv: "sp_inv s'" using sp_reach_inv [OF sp_run_reach [OF assms(3,1)]] by simp
  have "sp_stop_finish t s' = Block s'"
    using stuck by (force simp: sp_stop_finish_def drain_stuck_def)
  moreover have "sp_pc s2 u = SC_draining" if "sp_drain_turn ops u s' = Ret () s2" for s2
    using drain_turn_waits [OF drain_stuck_missing [OF inv stuck] that] by simp
  ultimately show ?thesis using stuck by blast
qed

theorem sharded_stop_drain_deadlock_witness:
  "\<exists>s. sp_reach list_shards s \<and> sp_pc s 7 = SC_draining \<and> sp_pc s 6 = SC_stopping \<and> sp_stop_finish 6 s = Block s"
proof -
  obtain s where s: "sp_reach list_shards s" "drain_threads s" "threads_shardedpool s = [8, 9]"
    "sp_pc s = (\<lambda>_. S_outside)(6 := SC_stopping, 7 := SC_draining, 8 := S_drained, 9 := S_exit)"
    using shard2_stuck by blast
  have "drain_stuck s" by (simp add: drain_stuck_def s)
  moreover have "sp_run list_shards (\<lambda>_. True) s s" by (simp add: sp_run_def)
  ultimately show ?thesis
    using sharded_stop_drain_deadlock [OF s(1), of s 6 7] s(1,4) by (intro exI [of _ s]) simp
qed

end
