(* ===== verification/Sharded_Turns.thy ===== *)
theory Sharded_Turns
  imports Sharded_Props Schedule
begin

text \<open>
  The worker of the sharded pool as a function from section to section: where each section leads
  and what it changes, that every turn returns, and the number of turns that are left.
\<close>

section \<open>Turns of the workers\<close>

text \<open>
  The next section of worker \<open>t\<close>, \<^verbatim>\<open>_process\<close> returning included. A worker asleep in
  \<^verbatim>\<open>shardedpool_cond\<close> and a thread that is not a worker have none.
\<close>

definition sworker_turn ::
  "('w, 'u) swq_ops \<Rightarrow> senv \<Rightarrow> tid \<Rightarrow> 'w ShardedThreadPool \<Rightarrow> (unit, 'w ShardedThreadPool) outcome" where
  "sworker_turn ops e t s =
     (case sp_pc s t of
        S_new \<Rightarrow> sworker_enter e t s
      | S_head \<Rightarrow> sworker_head e t s
      | S_check_pause \<Rightarrow> Ret () (sworker_check_pause t s)
      | S_pause_lock \<Rightarrow> sworker_pause e t s
      | S_paused \<Rightarrow> if t \<in> set (shardedpool_cond s) then Block s else sworker_pause_turn e t s
      | S_check_drain \<Rightarrow> Ret () (sworker_check_drain t s)
      | S_drain_lock \<Rightarrow> sworker_drain ops e t s
      | S_drained \<Rightarrow> if t \<in> set (shardedpool_cond s) then Block s else sworker_drain_turn e t s
      | S_reset \<Rightarrow> sworker_reset e t s
      | S_processing \<Rightarrow> sworker_processed ops t s
      | _ \<Rightarrow> Block s)"

lemma sworker_turn_step: "sworker_turn ops e t s = Ret () s' \<Longrightarrow> spstep ops A_worker s s'"
  by (cases "sp_pc s t") (auto simp: sworker_turn_def split: if_splits intro: spstep.intros)

text \<open>Where a section leads.\<close>

fun snext :: "('w, 'u) swq_ops \<Rightarrow> 'w ShardedThreadPool \<Rightarrow> tid \<Rightarrow> spoint \<Rightarrow> spoint" where
  "snext ops s t S_new = S_head"
| "snext ops s t S_head = (if stop_threads s then S_exit else S_check_pause)"
| "snext ops s t S_check_pause = (if pause_threads s then S_pause_lock else S_check_drain)"
| "snext ops s t S_pause_lock = (if pause_threads s then S_paused else S_check_drain)"
| "snext ops s t S_paused = (if pause_threads s then S_paused else S_check_drain)"
| "snext ops s t S_check_drain = (if drain_threads s then S_drain_lock else S_reset)"
| "snext ops s t S_drain_lock =
     (if drain_threads s \<and> shard_empty ops s (thread_index s t) then S_drained else S_reset)"
| "snext ops s t S_drained = (if drain_threads s then S_drained else S_reset)"
| "snext ops s t S_reset = S_processing"
| "snext ops s t S_processing = S_head"
| "snext ops s t p = p"

definition turn_effect ::
  "('w, 'u) swq_ops \<Rightarrow> tid \<Rightarrow> spoint \<Rightarrow> 'w ShardedThreadPool \<Rightarrow> 'w ShardedThreadPool \<Rightarrow> bool" where
  "turn_effect ops t p s s' \<longleftrightarrow> sp_pc s' = (sp_pc s)(t := p) \<and>
     set (shardedpool_cond s') =
       (if p = S_paused \<or> p = S_drained then insert t (set (shardedpool_cond s)) else set (shardedpool_cond s)) \<and>
     (if sp_pc s t = S_processing
      then \<exists>x. wq_call (sop_process ops (thread_index s t)) s = Ret () x \<and> sp_wq s' = sp_wq x
      else sp_wq s' = sp_wq s)"

lemma pause_turn_effect:
  assumes "sworker_pause_turn e t x = Ret () s'" "sp_pc x = sp_pc s" "shardedpool_cond x = shardedpool_cond s"
    "sp_wq x = sp_wq s" "sp_pc s t \<noteq> S_processing"
  shows "turn_effect ops t (if pause_threads x then S_paused else S_check_drain) s s'"
  using assms(1)
  by (cases rule: pause_turn_cases) (use assms(2-5) in \<open>simp_all add: turn_effect_def sgoto_def\<close>)

lemma drain_turn_effect:
  assumes "sworker_drain_turn e t x = Ret () s'" "sp_pc x = sp_pc s" "shardedpool_cond x = shardedpool_cond s"
    "sp_wq x = sp_wq s" "sp_pc s t \<noteq> S_processing"
  shows "turn_effect ops t (if drain_threads x then S_drained else S_reset) s s'"
  using assms(1)
  by (cases rule: drain_turn_cases) (use assms(2-5) in \<open>simp_all add: turn_effect_def sgoto_def\<close>)

lemma sworker_turn_effect:
  assumes "sworker_turn ops e t s = Ret () s'"
  shows "slive (sp_pc s t) \<and> turn_effect ops t (snext ops s t (sp_pc s t)) s s'"
proof (cases "sp_pc s t")
  case S_new
  then obtain m h where "s' = sgoto t S_head (s\<lparr>hbmp := m, sp_hb := h\<rparr>)"
    using assms by (auto simp: sworker_turn_def sworker_enter_def section_Ret)
  then show ?thesis using S_new by (simp add: turn_effect_def sgoto_def)
next
  case S_head
  then have "(\<not> stop_threads s \<and> s' = sgoto t S_check_pause s) \<or> (stop_threads s \<and> (\<exists>m. s' = sgoto t S_exit (s\<lparr>hbmp := m\<rparr>)))"
    using assms by (auto simp: sworker_turn_def sworker_head_def sworker_exit_def section_Ret split: if_splits)
  then show ?thesis using S_head by (elim disjE conjE exE) (simp_all add: turn_effect_def sgoto_def)
next
  case S_check_pause
  then show ?thesis using assms by (auto simp: sworker_turn_def sworker_check_pause_def turn_effect_def sgoto_def)
next
  case S_pause_lock
  then have "sworker_pause_turn e t (s\<lparr>num_paused := num_paused s + 1, wait_cond := []\<rparr>) = Ret () s'"
    using assms by (simp add: sworker_turn_def sworker_pause_def)
  from pause_turn_effect [OF this, of s ops] S_pause_lock show ?thesis by simp
next
  case S_paused
  then show ?thesis using assms pause_turn_effect [of e t s s' s ops] by (auto simp: sworker_turn_def split: if_splits)
next
  case S_check_drain
  then show ?thesis using assms by (auto simp: sworker_turn_def sworker_check_drain_def turn_effect_def sgoto_def)
next
  case S_drain_lock
  then have "sworker_drain ops e t s = Ret () s'" using assms by (simp add: sworker_turn_def)
  then show ?thesis
  proof (cases rule: drain_cases)
    case (full w)
    then show ?thesis using S_drain_lock by (simp add: turn_effect_def shard_empty_def sgoto_def)
  next
    case (empty w)
    then have "shard_empty ops s (thread_index s t)" by (simp add: shard_empty_def)
    then show ?thesis using drain_turn_effect [OF empty(3), of s ops] S_drain_lock by simp
  qed
next
  case S_drained
  then show ?thesis using assms drain_turn_effect [of e t s s' s ops] by (auto simp: sworker_turn_def split: if_splits)
next
  case S_reset
  then obtain m where "s' = sgoto t S_processing (s\<lparr>hbmp := m\<rparr>)"
    using assms by (auto simp: sworker_turn_def sworker_reset_def section_Ret)
  then show ?thesis using S_reset by (simp add: turn_effect_def sgoto_def)
next
  case S_processing
  then obtain x where x: "wq_call (sop_process ops (thread_index s t)) s = Ret () x" "s' = sgoto t S_head x"
    using assms by (auto simp: sworker_turn_def sworker_processed_def bind_eq_Ret_iff)
  then have "sp_pc x = sp_pc s" "shardedpool_cond x = shardedpool_cond s" by (auto simp: wq_call_Ret)
  then show ?thesis using x S_processing by (auto simp: turn_effect_def sgoto_def)
qed (use assms in \<open>simp_all add: sworker_turn_def\<close>)

lemma sworker_turn_awake:
  assumes "sworker_turn ops e t s = Ret () s'" "sp_inv s"
  shows "t \<notin> set (shardedpool_cond s)"
  using assms(1) worker_awake [OF assms(2), of t]
  by (cases "sp_pc s t") (simp_all add: sworker_turn_def split: if_splits)

section \<open>Every turn returns\<close>

lemma beat_returns:
  assumes "hb_rel (hbmp s) (sp_hb s) T" "t \<in> T" "hb_in_time (hbmp s) (se_now e)" "sp_wq s = Some w"
  shows "\<exists>h. sworker_beat e t s = Ret () (s\<lparr>hbmp := h\<rparr>)"
  using reset_returns [OF assms(1-3), of "timeout_interval w" "sucide_timeout_interval w"] assms(4)
  by (auto simp: sworker_beat_def sp_with_hb_def)

lemma pause_turn_returns:
  assumes "hb_rel (hbmp s) (sp_hb s) T" "t \<in> T" "hb_in_time (hbmp s) (se_now e)" "sp_wq s = Some w"
  shows "\<exists>s'. sworker_pause_turn e t s = Ret () s'"
  using beat_returns [OF assms] by (auto simp: sworker_pause_turn_def)

lemma drain_turn_returns:
  assumes "hb_rel (hbmp s) (sp_hb s) T" "t \<in> T" "hb_in_time (hbmp s) (se_now e)" "sp_wq s = Some w"
  shows "\<exists>s'. sworker_drain_turn e t s = Ret () s'"
  using beat_returns [OF assms] by (auto simp: sworker_drain_turn_def)

lemma enter_returns:
  assumes "shb_ok s" "sp_pc s t = S_new" "sp_wq s = Some w"
  shows "\<exists>s'. sworker_enter e t s = Ret () s'"
proof -
  have "hb_inv (hbmp s)" "hb_writer (hbmp s) = None" using assms(1) by (simp_all add: shb_ok_def hb_rel_def)
  from add_worker_run [OF this, of t "se_bt e" "sp_name s @ '' thread '' @ se_self e" "unat (thread_index s t)"]
  show ?thesis using assms(3) by (auto simp: sworker_enter_def sp_with_hb_def assert_that_def)
qed

lemma head_returns:
  assumes "hb_rel (hbmp s) (sp_hb s) T" "t \<in> T"
  shows "\<exists>s'. sworker_head e t s = Ret () s'"
proof -
  have "hb_inv (hbmp s)" "hb_writer (hbmp s) = None" "sp_hb s t \<in> set (m_workers (hbmp s))"
    using assms by (simp_all add: hb_rel_def)
  from remove_worker_run [OF this, of t "se_bt e"] show ?thesis
    by (auto simp: sworker_head_def sworker_exit_def sp_with_hb_def)
qed

lemma sworker_turn_returns:
  assumes "shb_ok s" "hb_in_time (hbmp s) (se_now e)" "sp_wq s \<noteq> None" "slive (sp_pc s t)"
    "t \<notin> set (shardedpool_cond s)"
  shows "\<exists>s'. sworker_turn ops e t s = Ret () s'"
proof (cases "sp_pc s t = S_new")
  case True
  then show ?thesis using enter_returns [OF assms(1)] assms(3) by (auto simp: sworker_turn_def)
next
  case False
  obtain w where w: "sp_wq s = Some w" using assms(3) by blast
  have rel: "hb_rel (hbmp s) (sp_hb s) (sp_regs s)" "t \<in> sp_regs s"
    using assms(1,4) False by (simp_all add: shb_ok_def sp_regs_def sreg_def)
  note turns = pause_turn_returns [OF _ rel(2) _ ] drain_turn_returns [OF _ rel(2)]
  show ?thesis
  proof (cases "sp_pc s t")
    case S_head
    then show ?thesis using head_returns [OF rel] by (simp add: sworker_turn_def)
  next
    case S_pause_lock
    then show ?thesis using rel(1) assms(2) w by (simp add: sworker_turn_def sworker_pause_def turns)
  next
    case S_paused
    then show ?thesis using rel(1) assms(2,5) w by (simp add: sworker_turn_def turns)
  next
    case S_drain_lock
    then show ?thesis using rel(1) assms(2) w by (simp add: sworker_turn_def sworker_drain_def turns)
  next
    case S_drained
    then show ?thesis using rel(1) assms(2,5) w by (simp add: sworker_turn_def turns)
  next
    case S_reset
    then show ?thesis using beat_returns [OF rel assms(2) w] by (auto simp: sworker_turn_def sworker_reset_def)
  next
    case S_processing
    then show ?thesis using w by (simp add: sworker_turn_def sworker_processed_def wq_call_def)
  qed (use assms(4) False in \<open>simp_all add: sworker_turn_def\<close>)
qed

section \<open>Counting turns\<close>

text \<open>A pool with a queue and all its threads.\<close>

definition pool_ready :: "('w, 'u) swq_ops \<Rightarrow> 'w ShardedThreadPool \<Rightarrow> bool" where
  "pool_ready ops s \<longleftrightarrow> sp_reach ops s \<and> shb_ok s \<and> sp_wq s \<noteq> None \<and>
     length (threads_shardedpool s) = unat (num_threads s)"

lemma pool_ready_inv: "pool_ready ops s \<Longrightarrow> sp_inv s"
  using sp_reach_inv by (auto simp: pool_ready_def)

lemma pool_ready_turn:
  assumes "sworker_turn ops e t s = Ret () s'" "pool_ready ops s"
  shows "pool_ready ops s' \<and> same_pool s s'"
proof -
  have step: "spstep ops A_worker s s'" by (rule sworker_turn_step [OF assms(1)])
  have same: "same_pool s s'" by (rule worker_same [OF step])
  have "sp_wq s' \<noteq> None"
    using sworker_turn_effect [OF assms(1)] assms(2)
    by (auto simp: turn_effect_def pool_ready_def wq_call_Ret split: if_splits)
  then show ?thesis
    using assms(2) same sp_reach.step [OF _ step] worker_hb [OF step] by (simp add: pool_ready_def same_pool_def)
qed

text \<open>What one worker has left by the measure \<open>r\<close>, and all of them together.\<close>

definition share_of :: "('w ShardedThreadPool \<Rightarrow> tid \<Rightarrow> nat) \<Rightarrow> 'w ShardedThreadPool \<Rightarrow> tid \<Rightarrow> nat" where
  "share_of r s t = (if t \<in> set (shardedpool_cond s) then 0 else r s t)"

definition turns_of :: "('w ShardedThreadPool \<Rightarrow> tid \<Rightarrow> nat) \<Rightarrow> 'w ShardedThreadPool \<Rightarrow> nat" where
  "turns_of r s = (\<Sum>t \<in> set (threads_shardedpool s). share_of r s t)"

lemma share_of_turn:
  assumes "sworker_turn ops e t s = Ret () s'" "pool_ready ops s"
    and "r s t > (if snext ops s t (sp_pc s t) \<in> {S_paused, S_drained} then 0 else r s' t)"
    and "\<And>u. u \<noteq> t \<Longrightarrow> r s' u \<le> r s u"
  shows "share_of r s' t < share_of r s t" "u \<noteq> t \<Longrightarrow> share_of r s' u \<le> share_of r s u"
proof -
  have eff: "turn_effect ops t (snext ops s t (sp_pc s t)) s s'" using sworker_turn_effect [OF assms(1)] by simp
  have awake: "t \<notin> set (shardedpool_cond s)" by (rule sworker_turn_awake [OF assms(1) pool_ready_inv [OF assms(2)]])
  show "share_of r s' t < share_of r s t"
    using assms(3) eff awake by (auto simp: share_of_def turn_effect_def split: if_splits)
  show "share_of r s' u \<le> share_of r s u" if "u \<noteq> t"
    using assms(4) [OF that] eff that by (auto simp: share_of_def turn_effect_def split: if_splits)
qed

lemma turns_of_drops:
  assumes "sworker_turn ops e t s = Ret () s'" "pool_ready ops s"
    and "share_of r s' t < share_of r s t" "\<And>u. u \<noteq> t \<Longrightarrow> share_of r s' u \<le> share_of r s u"
  shows "turns_of r s' < turns_of r s"
proof -
  have same: "threads_shardedpool s' = threads_shardedpool s"
    using pool_ready_turn [OF assms(1,2)] by (simp add: same_pool_def)
  have "t \<in> set (threads_shardedpool s)"
    using sp_inv_parts(2) [OF pool_ready_inv [OF assms(2)]] sworker_turn_effect [OF assms(1)] by (simp add: sp_roster_def)
  then show ?thesis unfolding turns_of_def same by (intro sum_drops [of _ t]) (simp_all add: assms(3,4))
qed

text \<open>When no worker has a turn left, all of them sleep.\<close>

lemma no_turn_asleep:
  assumes "pool_ready ops s" "hb_in_time (hbmp s) (se_now e)" "no_turn (sworker_turn ops) e s" "slive (sp_pc s t)"
  shows "(sp_pc s t = S_paused \<and> pause_threads s) \<or> (sp_pc s t = S_drained \<and> drain_threads s)"
proof -
  have "t \<in> set (shardedpool_cond s)"
    using sworker_turn_returns [of s e t ops] assms by (auto simp: pool_ready_def no_turn_def)
  then show ?thesis using sp_inv_parts(4) [OF pool_ready_inv [OF assms(1)]] by (simp add: sp_sleeps_def)
qed

lemma all_counted:
  assumes "pool_ready ops s" "\<not> stop_threads s" "\<And>t. slive (sp_pc s t) \<Longrightarrow> sp_pc s t = x" "slive x"
  shows "word_of_nat (card {u. sp_pc s u = x}) = num_threads s"
proof -
  note parts = sp_inv_parts [OF pool_ready_inv [OF assms(1)]]
  have "slive (sp_pc s t)" if "t \<in> set (threads_shardedpool s)" for t
    using parts(2,5) that assms(2) by (auto simp: sp_roster_def sp_flags_def)
  moreover have "slive (sp_pc s t) \<Longrightarrow> t \<in> set (threads_shardedpool s)" for t
    using parts(2) by (simp add: sp_roster_def)
  ultimately have "{u. sp_pc s u = x} = set (threads_shardedpool s)" using assms(3,4) by auto
  moreover have "distinct (threads_shardedpool s)" using parts(2) by (simp add: sp_roster_def)
  ultimately show ?thesis using assms(1) by (simp add: pool_ready_def distinct_card)
qed

end
