(* ===== verification/Sharded_Live.thy ===== *)
theory Sharded_Live
  imports Sharded_Turns
begin

text \<open>
  Progress of the sharded pool: \<^verbatim>\<open>pause()\<close>, \<^verbatim>\<open>drain()\<close> and \<^verbatim>\<open>stop()\<close>, each called on its own, return
  after a bounded number of turns of the workers; \<^verbatim>\<open>pause()\<close> during a \<^verbatim>\<open>drain()\<close> may block both.
\<close>

section \<open>\<^verbatim>\<open>pause()\<close> returns\<close>

definition pausing_pool :: "('w, 'u) swq_ops \<Rightarrow> 'w ShardedThreadPool \<Rightarrow> bool" where
  "pausing_pool ops s \<longleftrightarrow> pool_ready ops s \<and> pause_threads s \<and> \<not> drain_threads s \<and> \<not> stop_threads s"

fun pause_rank :: "spoint \<Rightarrow> nat" where
  "pause_rank S_paused = 1"
| "pause_rank S_pause_lock = 1"
| "pause_rank S_check_pause = 2"
| "pause_rank S_head = 3"
| "pause_rank S_new = 4"
| "pause_rank S_processing = 4"
| "pause_rank S_reset = 5"
| "pause_rank S_drained = 6"
| "pause_rank S_drain_lock = 6"
| "pause_rank S_check_drain = 6"
| "pause_rank _ = 0"

definition pause_share :: "'w ShardedThreadPool \<Rightarrow> tid \<Rightarrow> nat" where
  "pause_share s t = pause_rank (sp_pc s t)"

definition pause_left :: "'w ShardedThreadPool \<Rightarrow> nat" where
  "pause_left = turns_of pause_share"

lemma pausing_pool_turn:
  assumes "sworker_turn ops e t s = Ret () s'" "pausing_pool ops s"
  shows "pausing_pool ops s'" "share_of pause_share s' t < share_of pause_share s t"
    "u \<noteq> t \<Longrightarrow> share_of pause_share s' u \<le> share_of pause_share s u" "pause_left s' < pause_left s"
proof -
  have ready: "pool_ready ops s" using assms(2) by (simp add: pausing_pool_def)
  show "pausing_pool ops s'"
    using pool_ready_turn [OF assms(1) ready] assms(2) by (simp add: pausing_pool_def same_pool_def)
  have live: "slive (sp_pc s t)" and pc: "sp_pc s' = (sp_pc s)(t := snext ops s t (sp_pc s t))"
    using sworker_turn_effect [OF assms(1)] by (simp_all add: turn_effect_def)
  have "pause_rank (sp_pc s t) >
      (if snext ops s t (sp_pc s t) \<in> {S_paused, S_drained} then 0 else pause_rank (snext ops s t (sp_pc s t)))"
    using live assms(2) by (cases "sp_pc s t") (simp_all add: pausing_pool_def pool_ready_def)
  then have "share_of pause_share s' t < share_of pause_share s t \<and>
      (\<forall>u. u \<noteq> t \<longrightarrow> share_of pause_share s' u \<le> share_of pause_share s u)"
    by (intro conjI allI impI share_of_turn [OF assms(1) ready]) (auto simp: pause_share_def pc)
  then show drop: "share_of pause_share s' t < share_of pause_share s t"
    "u \<noteq> t \<Longrightarrow> share_of pause_share s' u \<le> share_of pause_share s u" for u by blast+
  show "pause_left s' < pause_left s"
    unfolding pause_left_def by (rule turns_of_drops [OF assms(1) ready drop])
qed

interpretation spp: schedule "sworker_turn ops" "pausing_pool ops" pause_left for ops
  by unfold_locales (use pausing_pool_turn(1,4) in blast)+

interpretation sppt: thread_turns "sworker_turn ops" "pausing_pool ops" "share_of pause_share" for ops
  by unfold_locales (use pausing_pool_turn(1-3) in blast)+

lemma turns_of_le:
  assumes "pool_ready ops s" "\<And>t. r s t \<le> f t"
  shows "turns_of r s \<le> (\<Sum>t \<in> set (threads_shardedpool s). f t)"
  unfolding turns_of_def using assms(2) by (intro sum_mono) (simp add: share_of_def)

lemma pool_ready_card:
  assumes "pool_ready ops s"
  shows "card (set (threads_shardedpool s)) = unat (num_threads s)"
  using assms sp_inv_parts(2) [OF pool_ready_inv [OF assms]]
  by (simp add: pool_ready_def sp_roster_def distinct_card)

lemma pause_left_le:
  assumes "pool_ready ops s"
  shows "pause_left s \<le> 6 * unat (num_threads s)" "share_of pause_share s t \<le> 6"
proof -
  have "pause_rank p \<le> 6" for p by (cases p) simp_all
  then show "pause_left s \<le> 6 * unat (num_threads s)" "share_of pause_share s t \<le> 6"
    using turns_of_le [OF assms, of pause_share "\<lambda>_. 6"] pool_ready_card [OF assms]
    by (simp_all add: pause_left_def pause_share_def share_of_def)
qed

lemma run_num_threads:
  assumes "sp_run ops P s s'"
  shows "num_threads s' = num_threads s"
  using assms
proof (induction rule: sp_run_induct)
  case (step a x y)
  then show ?case
    using non_worker_step [OF step(3)] worker_same [of ops x y]
    by (cases "a = A_worker") (auto simp: same_pool_def same_counts_def)
qed simp

lemma run_turns_run:
  assumes "run_turns (sworker_turn ops) xs s = Ret () s'"
  shows "sp_run ops (\<lambda>_. True) s s'"
  using run_turns_steps [OF _ assms, of "\<lambda>x y. \<exists>a. True \<and> spstep ops a x y"] sworker_turn_step
  unfolding sp_run_def by blast

lemma run_pool_ready:
  assumes "hb_inv hb" "hb_writer hb = None" "m_workers hb = []"
    "sp_run ops (\<lambda>_. True) (ShardedThreadPool_ctor hb nm tn n) s"
    "sp_wq s \<noteq> None" "length (threads_shardedpool s) = unat n"
  shows "pool_ready ops s \<and> num_threads s = n"
proof -
  have "num_threads s = n" using run_num_threads [OF assms(4)] by (simp add: ShardedThreadPool_ctor_def)
  moreover have "sp_reach ops s" using sp_run_reach [OF assms(4) sp_reach.start] .
  moreover have "shb_ok (ShardedThreadPool_ctor hb nm tn n)"
    using assms(1-3) by (simp add: shb_ok_def hb_rel_def ShardedThreadPool_ctor_def sp_regs_def sreg_def)
  with assms(4) have "shb_ok s" by (induction rule: sp_run_induct) (use spstep_hb in blast)+
  ultimately show ?thesis using assms(5,6) by (simp add: pool_ready_def)
qed

lemma pausing_pool_done:
  assumes "pausing_pool ops s" "hb_in_time (hbmp s) (se_now e)" "no_turn (sworker_turn ops) e s"
  shows "num_paused s = num_threads s" "sp_pc s c = SC_pausing \<Longrightarrow> c \<notin> set (wait_cond s)"
    "sp_pc (sp_pause_turn c s) c = S_outside"
proof -
  have ready: "pool_ready ops s" and "\<not> drain_threads s" "\<not> stop_threads s"
    using assms(1) by (simp_all add: pausing_pool_def)
  then have "slive (sp_pc s t) \<Longrightarrow> sp_pc s t = S_paused" for t using no_turn_asleep [OF ready assms(2,3)] by blast
  note all = all_counted [OF ready \<open>\<not> stop_threads s\<close> this]
  note parts = sp_inv_parts [OF pool_ready_inv [OF ready]]
  show paused: "num_paused s = num_threads s" using all parts(1) by (simp add: sp_counts_def)
  show "c \<notin> set (wait_cond s)" if "sp_pc s c = SC_pausing" using parts(3) paused that by (auto simp: sp_waits_def)
  show "sp_pc (sp_pause_turn c s) c = S_outside" using paused by (simp add: sp_pause_turn_def)
qed

text \<open>
  C24: \<^verbatim>\<open>pause()\<close> returns. Take any state of a sharded pool built over a free heartbeat map, with its
  queue and its threads, not stopped and not draining, in which a pause has been asked for, and
  let the workers run in any order with nothing else happening. They take at most six turns
  each. When none has a turn left, and no suicide timeout has passed, all of them are counted as
  paused, and every caller of \<^verbatim>\<open>pause()\<close> is awake and returns.
\<close>
theorem sharded_pause_returns:
  assumes "hb_inv hb" "hb_writer hb = None" "m_workers hb = []"
    and "sp_run ops (\<lambda>_. True) (ShardedThreadPool_ctor hb nm tn n) s"
    and "sp_wq s \<noteq> None" "length (threads_shardedpool s) = unat n" "\<not> stop_threads s"
    and "pause_threads s" "\<not> drain_threads s" "run_turns (sworker_turn ops) xs s = Ret () s'"
  shows "length xs \<le> 6 * unat n \<and> (\<forall>t. turns_by t xs \<le> 6) \<and>
    (hb_in_time (hbmp s') (se_now e) \<and> (\<forall>t r. sworker_turn ops e t s' \<noteq> Ret () r) \<longrightarrow>
      num_paused s' = n \<and> (\<forall>c. sp_pc s' c = SC_pausing \<longrightarrow> c \<notin> set (wait_cond s') \<and>
        sp_pc (sp_pause_turn c s') c = S_outside))"
proof (intro conjI impI)
  have ready: "pool_ready ops s" "num_threads s = n" using run_pool_ready [OF assms(1-6)] by simp_all
  then have pausing: "pausing_pool ops s" using assms(7-9) by (simp add: pausing_pool_def)
  from spp.run_bound [OF assms(10) this] have good: "pausing_pool ops s'" and "length xs \<le> pause_left s" by simp_all
  then show "length xs \<le> 6 * unat n" using pause_left_le(1) [OF ready(1)] ready(2) by simp
  show "\<forall>t. turns_by t xs \<le> 6"
    using sppt.turns_bound [OF assms(10) pausing] pause_left_le(2) [OF ready(1)] by (meson add_leE order_trans)
  have n: "num_threads s' = n" using run_num_threads [OF run_turns_run [OF assms(10)]] ready(2) by simp
  assume "hb_in_time (hbmp s') (se_now e) \<and> (\<forall>t r. sworker_turn ops e t s' \<noteq> Ret () r)"
  then have "hb_in_time (hbmp s') (se_now e)" "no_turn (sworker_turn ops) e s'" by (simp_all add: no_turn_def)
  note end_state = pausing_pool_done [OF good this]
  show "num_paused s' = n" using end_state(1) n by simp
  show "\<forall>c. sp_pc s' c = SC_pausing \<longrightarrow> c \<notin> set (wait_cond s') \<and> sp_pc (sp_pause_turn c s') c = S_outside"
    using end_state(2,3) by blast
qed

section \<open>\<^verbatim>\<open>drain()\<close> returns\<close>

text \<open>
  What this needs of the queue: a size of each shard, zero when \<^verbatim>\<open>is_shard_empty\<close> says so, that
  \<^verbatim>\<open>_process\<close> makes smaller for its own shard, unless that is empty, and larger for none.
\<close>

definition shard_sizes :: "('w, 'u) swq_ops \<Rightarrow> (32 word \<Rightarrow> 'w \<Rightarrow> nat) \<Rightarrow> bool" where
  "shard_sizes ops sz \<longleftrightarrow> (\<forall>i j w. (sop_is_shard_empty ops i w \<longleftrightarrow> sz i w = 0) \<and>
     sz i (sop_process ops j w) \<le> sz i w \<and> (sz i w \<noteq> 0 \<longrightarrow> sz i (sop_process ops i w) < sz i w))"

definition size_of :: "(32 word \<Rightarrow> 'w \<Rightarrow> nat) \<Rightarrow> 'w ShardedThreadPool \<Rightarrow> tid \<Rightarrow> nat" where
  "size_of sz s t = (case sp_wq s of None \<Rightarrow> 0 | Some w \<Rightarrow> sz (thread_index s t) (swq_state w))"

fun drain_rank :: "nat \<Rightarrow> spoint \<Rightarrow> nat" where
  "drain_rank k S_drained = 1"
| "drain_rank k S_drain_lock = 6 * k + 1"
| "drain_rank k S_check_drain = 6 * k + 2"
| "drain_rank k S_check_pause = 6 * k + 3"
| "drain_rank k S_pause_lock = 6 * k + 3"
| "drain_rank k S_paused = 6 * k + 3"
| "drain_rank k S_head = 6 * k + 4"
| "drain_rank k S_new = 6 * k + 5"
| "drain_rank k S_processing = 6 * max k 1 - 1"
| "drain_rank k S_reset = 6 * max k 1"
| "drain_rank k _ = 0"

definition draining_pool ::
  "('w, 'u) swq_ops \<Rightarrow> (32 word \<Rightarrow> 'w \<Rightarrow> nat) \<Rightarrow> 'w ShardedThreadPool \<Rightarrow> bool" where
  "draining_pool ops sz s \<longleftrightarrow> pool_ready ops s \<and> drain_threads s \<and> \<not> pause_threads s \<and> \<not> stop_threads s \<and>
     shard_sizes ops sz"

definition drain_share :: "(32 word \<Rightarrow> 'w \<Rightarrow> nat) \<Rightarrow> 'w ShardedThreadPool \<Rightarrow> tid \<Rightarrow> nat" where
  "drain_share sz s t = drain_rank (size_of sz s t) (sp_pc s t)"

definition drain_left :: "(32 word \<Rightarrow> 'w \<Rightarrow> nat) \<Rightarrow> 'w ShardedThreadPool \<Rightarrow> nat" where
  "drain_left sz = turns_of (drain_share sz)"

lemma drain_rank_mono: "j \<le> k \<Longrightarrow> drain_rank j p \<le> drain_rank k p"
  by (cases p) auto

lemma size_of_turn:
  assumes "sworker_turn ops e t s = Ret () s'" "shard_sizes ops sz"
  shows "size_of sz s' u \<le> size_of sz s u" "sp_pc s t \<noteq> S_processing \<Longrightarrow> size_of sz s' u = size_of sz s u"
    "sp_pc s t = S_processing \<Longrightarrow> size_of sz s' t = 0 \<or> size_of sz s' t < size_of sz s t"
proof -
  have idx: "thread_index s' = thread_index s"
    using worker_same [OF sworker_turn_step [OF assms(1)]] by (simp add: same_pool_def)
  have wq: "if sp_pc s t = S_processing
      then \<exists>x. wq_call (sop_process ops (thread_index s t)) s = Ret () x \<and> sp_wq s' = sp_wq x
      else sp_wq s' = sp_wq s"
    using sworker_turn_effect [OF assms(1)] by (simp add: turn_effect_def)
  show same: "size_of sz s' u = size_of sz s u" if "sp_pc s t \<noteq> S_processing" for u
    using wq that idx by (simp add: size_of_def split: option.splits)
  have call: "\<exists>w. sp_wq s = Some w \<and> sp_wq s' = Some (w\<lparr>swq_state := sop_process ops (thread_index s t) (swq_state w)\<rparr>)"
    if "sp_pc s t = S_processing" using wq that by (auto simp: wq_call_Ret)
  show "size_of sz s' u \<le> size_of sz s u"
    by (cases "sp_pc s t = S_processing")
      (use call assms(2) idx same in \<open>auto simp: size_of_def shard_sizes_def\<close>)
  show "size_of sz s' t = 0 \<or> size_of sz s' t < size_of sz s t" if proc: "sp_pc s t = S_processing"
  proof -
    obtain w where "sp_wq s = Some w" "sp_wq s' = Some (w\<lparr>swq_state := sop_process ops (thread_index s t) (swq_state w)\<rparr>)"
      using call [OF proc] by blast
    moreover have "sz i (sop_process ops i v) = 0 \<or> sz i (sop_process ops i v) < sz i v" for i v
      using assms(2) by (metis le_zero_eq shard_sizes_def)
    ultimately show ?thesis using idx by (simp add: size_of_def)
  qed
qed

lemma draining_pool_turn:
  assumes "sworker_turn ops e t s = Ret () s'" "draining_pool ops sz s"
  shows "draining_pool ops sz s'" "share_of (drain_share sz) s' t < share_of (drain_share sz) s t"
    "u \<noteq> t \<Longrightarrow> share_of (drain_share sz) s' u \<le> share_of (drain_share sz) s u" "drain_left sz s' < drain_left sz s"
proof -
  have ready: "pool_ready ops s" and sizes: "shard_sizes ops sz" using assms(2) by (simp_all add: draining_pool_def)
  show "draining_pool ops sz s'"
    using pool_ready_turn [OF assms(1) ready] assms(2) by (simp add: draining_pool_def same_pool_def)
  let ?p = "snext ops s t (sp_pc s t)"
  have live: "slive (sp_pc s t)" and pc: "sp_pc s' = (sp_pc s)(t := ?p)"
    using sworker_turn_effect [OF assms(1)] by (simp_all add: turn_effect_def)
  note size = size_of_turn [OF assms(1) sizes]
  have empty: "shard_empty ops s (thread_index s t) \<longleftrightarrow> size_of sz s t = 0"
    using ready sizes by (auto simp: shard_empty_def size_of_def shard_sizes_def pool_ready_def)
  have "(if ?p \<in> {S_paused, S_drained} then 0 else drain_rank (size_of sz s' t) ?p) < drain_rank (size_of sz s t) (sp_pc s t)"
  proof (cases "sp_pc s t = S_processing")
    case True
    then show ?thesis using size(3) by auto
  next
    case False
    then show ?thesis
      using live assms(2) empty size(2) [OF False, of t]
      by (cases "sp_pc s t") (auto simp: draining_pool_def pool_ready_def)
  qed
  then have "share_of (drain_share sz) s' t < share_of (drain_share sz) s t \<and>
      (\<forall>u. u \<noteq> t \<longrightarrow> share_of (drain_share sz) s' u \<le> share_of (drain_share sz) s u)"
    by (intro conjI allI impI share_of_turn [OF assms(1) ready]) (auto simp: drain_share_def pc drain_rank_mono size(1))
  then show drop: "share_of (drain_share sz) s' t < share_of (drain_share sz) s t"
    "u \<noteq> t \<Longrightarrow> share_of (drain_share sz) s' u \<le> share_of (drain_share sz) s u" for u by blast+
  show "drain_left sz s' < drain_left sz s"
    unfolding drain_left_def by (rule turns_of_drops [OF assms(1) ready drop])
qed

interpretation spd: schedule "sworker_turn ops" "draining_pool ops sz" "drain_left sz" for ops sz
  by unfold_locales (use draining_pool_turn(1,4) in blast)+

interpretation spdt: thread_turns "sworker_turn ops" "draining_pool ops sz" "share_of (drain_share sz)" for ops sz
  by unfold_locales (use draining_pool_turn(1-3) in blast)+

lemma drain_left_le:
  assumes "pool_ready ops s"
  shows "drain_left sz s \<le> (\<Sum>t \<in> set (threads_shardedpool s). 6 * size_of sz s t + 6)"
    "share_of (drain_share sz) s t \<le> 6 * size_of sz s t + 6"
proof -
  have le: "drain_rank k p \<le> 6 * k + 6" for k p by (cases p) auto
  then show "drain_left sz s \<le> (\<Sum>t \<in> set (threads_shardedpool s). 6 * size_of sz s t + 6)"
    unfolding drain_left_def by (intro turns_of_le [OF assms]) (simp add: drain_share_def)
  show "share_of (drain_share sz) s t \<le> 6 * size_of sz s t + 6" using le by (simp add: share_of_def drain_share_def)
qed

lemma draining_pool_done:
  assumes "draining_pool ops sz s" "hb_in_time (hbmp s) (se_now e)" "no_turn (sworker_turn ops) e s"
  shows "num_drained s = num_threads s" "sp_pc s c = SC_draining \<Longrightarrow> c \<notin> set (wait_cond s)"
    "\<exists>r. sp_drain_turn ops c s = Ret () r \<and> sp_pc r c = S_outside"
proof -
  have ready: "pool_ready ops s" and "\<not> pause_threads s" "\<not> stop_threads s"
    using assms(1) by (simp_all add: draining_pool_def)
  then have "slive (sp_pc s t) \<Longrightarrow> sp_pc s t = S_drained" for t using no_turn_asleep [OF ready assms(2,3)] by blast
  note all = all_counted [OF ready \<open>\<not> stop_threads s\<close> this]
  note parts = sp_inv_parts [OF pool_ready_inv [OF ready]]
  show drained: "num_drained s = num_threads s" using all parts(1) by (simp add: sp_counts_def)
  show "c \<notin> set (wait_cond s)" if "sp_pc s c = SC_draining" using parts(3) drained that by (auto simp: sp_waits_def)
  show "\<exists>r. sp_drain_turn ops c s = Ret () r \<and> sp_pc r c = S_outside"
    using drained ready by (auto simp: sp_drain_turn_def wq_call_def pool_ready_def)
qed

text \<open>A call of \<^verbatim>\<open>drain()\<close> that does not return at once.\<close>

lemma swq_drain_waits:
  assumes "swq_drain ops c s0 = Ret () s" "sp_pc s c \<noteq> S_outside"
  obtains w where "sp_wq s0 \<noteq> None" "num_threads s0 \<noteq> num_drained s0"
    "s = sgoto c SC_draining (s0\<lparr>drain_threads := True, sp_wq := Some w, wait_cond := wait_cond s0 @ [c]\<rparr>)"
proof -
  obtain v where v: "sp_wq s0 = Some v" "sp_drain_turn ops c (s0\<lparr>drain_threads := True,
      sp_wq := Some (v\<lparr>swq_state := sop_return_waiting ops (swq_state v)\<rparr>)\<rparr>) = Ret () s"
    using assms(1) by (auto simp: swq_drain_def sp_drain_def section_Ret)
  have "num_threads s0 \<noteq> num_drained s0"
    using v(2) assms(2) by (auto simp: sp_drain_turn_def section_Ret)
  with v that show thesis using drain_turn_waits [OF _ v(2)] by simp
qed

lemma turns_keep_callers:
  assumes "run_turns (sworker_turn ops) xs s = Ret () s'" "\<not> slive (sp_pc s c)"
  shows "sp_pc s' c = sp_pc s c"
  using assms
proof (induction xs arbitrary: s)
  case (Cons x xs)
  obtain s1 where s1: "sworker_turn ops (fst x) (snd x) s = Ret () s1" "run_turns (sworker_turn ops) xs s1 = Ret () s'"
    using Cons.prems(1) by (auto simp: bind_eq_Ret_iff)
  have "sp_pc s1 c = sp_pc s c"
    using sworker_turn_effect [OF s1(1)] Cons.prems(2) by (auto simp: turn_effect_def)
  then show ?case using Cons.IH [OF s1(2)] Cons.prems(2) by simp
qed simp

text \<open>
  C25: \<^verbatim>\<open>drain()\<close> returns. In any state of a sharded pool built over a free heartbeat map, with its
  threads running, neither stopped nor paused, let a thread call \<^verbatim>\<open>drain()\<close> on the queue and have
  to wait, and let the workers run in any order with nothing else happening. Each takes at most
  six turns for every item of its shard and six more. When none has a turn left, and no suicide
  timeout has passed, all workers are counted as drained, the caller is awake, and its next turn
  returns. The queue is any one whose \<^verbatim>\<open>_process\<close> takes items out of its shard and adds none.
\<close>
theorem sharded_drain_returns:
  assumes "hb_inv hb" "hb_writer hb = None" "m_workers hb = []"
    and "sp_run ops (\<lambda>_. True) (ShardedThreadPool_ctor hb nm tn n) s0"
    and "length (threads_shardedpool s0) = unat n" "\<not> stop_threads s0" "\<not> pause_threads s0" "sp_pc s0 c = S_outside"
    and "swq_drain ops c s0 = Ret () s" "sp_pc s c \<noteq> S_outside" "shard_sizes ops sz"
    and "run_turns (sworker_turn ops) xs s = Ret () s'"
  shows "length xs \<le> (\<Sum>t \<in> set (threads_shardedpool s). 6 * size_of sz s t + 6) \<and>
    (\<forall>t. turns_by t xs \<le> 6 * size_of sz s t + 6) \<and>
    (hb_in_time (hbmp s') (se_now e) \<and> (\<forall>t r. sworker_turn ops e t s' \<noteq> Ret () r) \<longrightarrow>
      num_drained s' = n \<and> sp_pc s' c = SC_draining \<and> c \<notin> set (wait_cond s') \<and>
      (\<exists>r. sp_drain_turn ops c s' = Ret () r \<and> sp_pc r c = S_outside))"
proof (intro conjI impI)
  obtain w where s: "sp_wq s0 \<noteq> None"
    "s = sgoto c SC_draining (s0\<lparr>drain_threads := True, sp_wq := Some w, wait_cond := wait_cond s0 @ [c]\<rparr>)"
    using swq_drain_waits [OF assms(9,10)] by blast
  have step: "spstep ops A_drain s0 s" using spstep.drain [OF assms(8)] assms(9) by (simp add: swq_drain_def)
  have "sp_run ops (\<lambda>_. True) (ShardedThreadPool_ctor hb nm tn n) s"
    by (rule sp_run_snoc [OF assms(4) step]) simp
  then have ready: "pool_ready ops s" "num_threads s = n"
    using run_pool_ready [OF assms(1-3), of ops nm tn n s] assms(5) s(2) by (simp_all add: sgoto_def)
  then have draining: "draining_pool ops sz s" using assms(6,7,11) s(2) by (simp add: draining_pool_def sgoto_def)
  from spd.run_bound [OF assms(12) this] have good: "draining_pool ops sz s'" and "length xs \<le> drain_left sz s"
    by simp_all
  then show "length xs \<le> (\<Sum>t \<in> set (threads_shardedpool s). 6 * size_of sz s t + 6)"
    using drain_left_le(1) [OF ready(1), of sz] by simp
  show "\<forall>t. turns_by t xs \<le> 6 * size_of sz s t + 6"
    using spdt.turns_bound [OF assms(12) draining] drain_left_le(2) [OF ready(1)] by (meson add_leE order_trans)
  have n: "num_threads s' = n" using run_num_threads [OF run_turns_run [OF assms(12)]] ready(2) by simp
  assume "hb_in_time (hbmp s') (se_now e) \<and> (\<forall>t r. sworker_turn ops e t s' \<noteq> Ret () r)"
  then have "hb_in_time (hbmp s') (se_now e)" "no_turn (sworker_turn ops) e s'" by (simp_all add: no_turn_def)
  note end_state = draining_pool_done [OF good this]
  show pc: "sp_pc s' c = SC_draining" using turns_keep_callers [OF assms(12), of c] s(2) by simp
  show "num_drained s' = n" using end_state(1) n by simp
  show "c \<notin> set (wait_cond s')" by (rule end_state(2) [OF pc])
  show "\<exists>r. sp_drain_turn ops c s' = Ret () r \<and> sp_pc r c = S_outside" by (rule end_state(3))
qed

section \<open>\<^verbatim>\<open>stop()\<close> returns\<close>

definition stopping_pool :: "('w, 'u) swq_ops \<Rightarrow> 'w ShardedThreadPool \<Rightarrow> bool" where
  "stopping_pool ops s \<longleftrightarrow> pool_ready ops s \<and> stop_threads s \<and> \<not> pause_threads s \<and> \<not> drain_threads s"

fun stop_rank :: "spoint \<Rightarrow> nat" where
  "stop_rank S_head = 1"
| "stop_rank S_new = 2"
| "stop_rank S_processing = 2"
| "stop_rank S_reset = 3"
| "stop_rank S_check_drain = 4"
| "stop_rank S_drain_lock = 4"
| "stop_rank S_drained = 4"
| "stop_rank S_check_pause = 5"
| "stop_rank S_pause_lock = 5"
| "stop_rank S_paused = 5"
| "stop_rank _ = 0"

definition stop_share :: "'w ShardedThreadPool \<Rightarrow> tid \<Rightarrow> nat" where
  "stop_share s t = stop_rank (sp_pc s t)"

definition stop_left :: "'w ShardedThreadPool \<Rightarrow> nat" where
  "stop_left = turns_of stop_share"

lemma stopping_pool_turn:
  assumes "sworker_turn ops e t s = Ret () s'" "stopping_pool ops s"
  shows "stopping_pool ops s'" "share_of stop_share s' t < share_of stop_share s t"
    "u \<noteq> t \<Longrightarrow> share_of stop_share s' u \<le> share_of stop_share s u" "stop_left s' < stop_left s"
proof -
  have ready: "pool_ready ops s" using assms(2) by (simp add: stopping_pool_def)
  show "stopping_pool ops s'"
    using pool_ready_turn [OF assms(1) ready] assms(2) by (simp add: stopping_pool_def same_pool_def)
  let ?p = "snext ops s t (sp_pc s t)"
  have live: "slive (sp_pc s t)" and pc: "sp_pc s' = (sp_pc s)(t := ?p)"
    using sworker_turn_effect [OF assms(1)] by (simp_all add: turn_effect_def)
  have "(if ?p \<in> {S_paused, S_drained} then 0 else stop_rank ?p) < stop_rank (sp_pc s t)"
    using live assms(2) by (cases "sp_pc s t") (simp_all add: stopping_pool_def)
  then have "share_of stop_share s' t < share_of stop_share s t \<and>
      (\<forall>u. u \<noteq> t \<longrightarrow> share_of stop_share s' u \<le> share_of stop_share s u)"
    by (intro conjI allI impI share_of_turn [OF assms(1) ready]) (auto simp: stop_share_def pc)
  then show drop: "share_of stop_share s' t < share_of stop_share s t"
    "u \<noteq> t \<Longrightarrow> share_of stop_share s' u \<le> share_of stop_share s u" for u by blast+
  show "stop_left s' < stop_left s"
    unfolding stop_left_def by (rule turns_of_drops [OF assms(1) ready drop])
qed

interpretation sps: schedule "sworker_turn ops" "stopping_pool ops" stop_left for ops
  by unfold_locales (use stopping_pool_turn(1,4) in blast)+

interpretation spst: thread_turns "sworker_turn ops" "stopping_pool ops" "share_of stop_share" for ops
  by unfold_locales (use stopping_pool_turn(1-3) in blast)+

lemma stop_left_le:
  assumes "pool_ready ops s"
  shows "stop_left s \<le> 5 * unat (num_threads s)" "share_of stop_share s t \<le> 5"
proof -
  have "stop_rank p \<le> 5" for p by (cases p) simp_all
  then show "stop_left s \<le> 5 * unat (num_threads s)" "share_of stop_share s t \<le> 5"
    using turns_of_le [OF assms, of stop_share "\<lambda>_. 5"] pool_ready_card [OF assms]
    by (simp_all add: stop_left_def stop_share_def share_of_def)
qed

lemma stopping_pool_done:
  assumes "stopping_pool ops s" "hb_in_time (hbmp s) (se_now e)" "no_turn (sworker_turn ops) e s"
  shows "t \<in> set (threads_shardedpool s) \<Longrightarrow> sp_pc s t = S_exit" "m_workers (hbmp s) = []"
    "sp_stop_finish c s = Ret () (sgoto c S_outside (s\<lparr>threads_shardedpool := []\<rparr>))"
proof -
  have ready: "pool_ready ops s" "\<not> pause_threads s" "\<not> drain_threads s"
    using assms(1) by (simp_all add: stopping_pool_def)
  then have none: "\<not> slive (sp_pc s u)" for u using no_turn_asleep [OF ready(1) assms(2,3)] by blast
  then show exit: "sp_pc s t = S_exit" if "t \<in> set (threads_shardedpool s)" for t
    using sp_inv_parts(2) [OF pool_ready_inv [OF ready(1)]] that by (auto simp: sp_roster_def)
  have "sp_regs s = {}" using none by (simp add: sp_regs_def sreg_def)
  then show "m_workers (hbmp s) = []" using ready(1) by (simp add: pool_ready_def shb_ok_def hb_rel_def)
  show "sp_stop_finish c s = Ret () (sgoto c S_outside (s\<lparr>threads_shardedpool := []\<rparr>))"
    using exit by (simp add: sp_stop_finish_def)
qed

text \<open>
  C26: \<^verbatim>\<open>stop()\<close> returns. In any state of a sharded pool built over a free heartbeat map, with its
  queue and its threads, let \<^verbatim>\<open>stop()\<close> be called while nobody pauses or drains, and let the workers
  run in any order with nothing else happening. Each takes at most five turns. When none has a turn
  left, and no suicide timeout has passed, all of them have left their loops, the heartbeat map
  lists none of them, and \<^verbatim>\<open>stop()\<close> returns with an empty vector.
\<close>
theorem sharded_stop_returns:
  assumes "hb_inv hb" "hb_writer hb = None" "m_workers hb = []"
    and "sp_run ops (\<lambda>_. True) (ShardedThreadPool_ctor hb nm tn n) i"
    and "length (threads_shardedpool i) = unat n" "\<not> pause_threads i" "\<not> drain_threads i" "sp_pc i c = S_outside"
    and "\<forall>u. sp_pc i u \<noteq> SC_stopping" "sp_stop_begin ops c i = Ret () s"
    and "run_turns (sworker_turn ops) xs s = Ret () s'"
  shows "length xs \<le> 5 * unat n \<and> (\<forall>t. turns_by t xs \<le> 5) \<and>
    (hb_in_time (hbmp s') (se_now e) \<and> (\<forall>t r. sworker_turn ops e t s' \<noteq> Ret () r) \<longrightarrow>
      m_workers (hbmp s') = [] \<and> sp_pc s' c = SC_stopping \<and>
      (\<exists>r. sp_stop_finish c s' = Ret () r \<and> sp_pc r c = S_outside \<and> threads_shardedpool r = []))"
proof (intro conjI impI)
  obtain w where s: "s = sgoto c SC_stopping (i\<lparr>stop_threads := True, sp_wq := Some w\<rparr>)"
    using assms(10) by (auto simp: sp_stop_begin_def section_Ret)
  have "sp_run ops (\<lambda>_. True) (ShardedThreadPool_ctor hb nm tn n) s"
    by (rule sp_run_snoc [OF assms(4) spstep.stop [OF assms(8-10)]]) simp
  then have ready: "pool_ready ops s" "num_threads s = n"
    using run_pool_ready [OF assms(1-3), of ops nm tn n s] assms(5) s by (simp_all add: sgoto_def)
  then have stopping: "stopping_pool ops s" using assms(6,7) s by (simp add: stopping_pool_def sgoto_def)
  from sps.run_bound [OF assms(11) this] have good: "stopping_pool ops s'" and "length xs \<le> stop_left s" by simp_all
  then show "length xs \<le> 5 * unat n" using stop_left_le(1) [OF ready(1)] ready(2) by simp
  show "\<forall>t. turns_by t xs \<le> 5"
    using spst.turns_bound [OF assms(11) stopping] stop_left_le(2) [OF ready(1)] by (meson add_leE order_trans)
  assume "hb_in_time (hbmp s') (se_now e) \<and> (\<forall>t r. sworker_turn ops e t s' \<noteq> Ret () r)"
  then have "hb_in_time (hbmp s') (se_now e)" "no_turn (sworker_turn ops) e s'" by (simp_all add: no_turn_def)
  note end_state = stopping_pool_done [OF good this]
  show "m_workers (hbmp s') = []" by (rule end_state(2))
  show "sp_pc s' c = SC_stopping" using turns_keep_callers [OF assms(11), of c] s by simp
  show "\<exists>r. sp_stop_finish c s' = Ret () r \<and> sp_pc r c = S_outside \<and> threads_shardedpool r = []"
    using end_state(3) [of c] by (simp add: sgoto_def)
qed

section \<open>Runs\<close>

text \<open>A pool of one worker, started but not yet run, over a queue that holds \<open>w\<close>.\<close>

definition shard_start :: "32 word list \<Rightarrow> 32 word list ShardedThreadPool" where
  "shard_start w = sgoto 9 S_new ((ShardedWQ_ctor 0 0 w (ShardedThreadPool_ctor hb_demo ''pool'' ''tp'' 1))
     \<lparr>threads_shardedpool := [9]\<rparr>)"

lemmas shard_start_defs = shard_start_def ShardedWQ_ctor_def set_wq_def ShardedThreadPool_ctor_def sgoto_def

lemma shard_start_run:
  "sp_run list_shards (\<lambda>_. True) (ShardedThreadPool_ctor hb_demo ''pool'' ''tp'' 1) (shard_start w)"
proof -
  let ?a = "ShardedThreadPool_ctor hb_demo ''pool'' ''tp'' 1 :: 32 word list ShardedThreadPool"
  let ?b = "ShardedWQ_ctor 0 0 w ?a"
  have a: "spstep list_shards A_set_wq ?a ?b" by (rule spstep.set_wq) (simp add: ShardedThreadPool_ctor_def)
  have "sp_start [9] ?b = Ret () (shard_start w)"
    by (simp add: sp_start_def shard_start_defs c_str_def assert_that_def fun_eq_iff)
  then have b: "spstep list_shards A_start ?b (shard_start w)"
    by (intro spstep.start [of "[9]"]) (simp_all add: ShardedWQ_ctor_def set_wq_def ShardedThreadPool_ctor_def)
  show ?thesis by (rule sp_run_snoc [OF sp_run_snoc [OF sp_run_refl a] b]) simp_all
qed

lemma shard_start_ready: "pool_ready list_shards (shard_start w)"
proof -
  have "m_workers hb_demo = []" by (simp add: hb_demo_def HeartbeatMap_ctor_def)
  then show ?thesis
    using run_pool_ready [OF hb_demo_inv _ shard_start_run, of w] by (simp add: shard_start_defs)
qed

text \<open>The clock at its earliest value, at which no timeout has passed.\<close>

definition early_env :: senv where
  "early_env = \<lparr>se_now = time_min, se_bt = bt_demo, se_self = ''w''\<rparr>"

theorem sharded_pause_returns_witness:
  "\<exists>s xs s'. sp_pause list_shards 7 (shard_start [0, 0]) = Ret () s \<and> sp_pc s 7 = SC_pausing \<and>
     run_turns (sworker_turn list_shards) xs s = Ret () s' \<and> length xs \<le> 6 \<and>
     sp_pc (sp_pause_turn 7 s') 7 = S_outside"
proof -
  let ?s = "sgoto 7 SC_pausing ((shard_start [0, 0])\<lparr>pause_threads := True, wait_cond := [7]\<rparr>)"
  have p: "sp_pause list_shards 7 (shard_start [0, 0]) = Ret () ?s"
    by (simp add: sp_pause_def sp_pause_turn_def wq_call_def shard_demo shard_start_defs)
  have run: "sp_run list_shards (\<lambda>_. True) (ShardedThreadPool_ctor hb_demo ''pool'' ''tp'' 1) ?s"
    by (rule sp_run_snoc [OF shard_start_run spstep.pause [OF _ p]]) (simp_all add: shard_start_defs)
  have hb: "m_workers hb_demo = []" by (simp add: hb_demo_def HeartbeatMap_ctor_def)
  have s: "sp_wq ?s \<noteq> None" "length (threads_shardedpool ?s) = unat (1 :: 32 word)" "\<not> stop_threads ?s"
    "pause_threads ?s" "\<not> drain_threads ?s" by (simp_all add: shard_start_defs)
  have "pausing_pool list_shards ?s"
    using run_pool_ready [OF hb_demo_inv hb run s(1,2)] s(3-5) by (simp add: pausing_pool_def)
  then obtain xs s' where xs: "run_turns (sworker_turn list_shards) xs ?s = Ret () s'"
    "no_turn (sworker_turn list_shards) early_env s'" using spp.schedule_exists by blast
  have pc: "sp_pc s' 7 = SC_pausing" using turns_keep_callers [OF xs(1), of 7] by simp
  have "length xs \<le> 6 * unat (1 :: 32 word) \<and> sp_pc (sp_pause_turn 7 s') 7 = S_outside"
    using sharded_pause_returns [OF hb_demo_inv hb run s xs(1), of early_env] xs(2) pc
    by (simp add: in_time_min no_turn_def early_env_def)
  then show ?thesis using p xs(1) by (intro exI [of _ ?s] exI [of _ xs] exI [of _ s']) simp
qed

text \<open>The size of a shard is the number of its pending items.\<close>

lemma list_shards_sizes: "shard_sizes list_shards (\<lambda>i w. count_list w i)"
proof -
  have "count_list (remove1 j w) i \<le> count_list w i" for i j :: "32 word" and w by (induction w) auto
  moreover have "count_list (remove1 i w) i < count_list w i" if "count_list w i \<noteq> 0" for i :: "32 word" and w
    using that by (induction w) (auto split: if_splits)
  moreover have "i \<notin> set w \<longleftrightarrow> count_list w i = 0" for i :: "32 word" and w by (simp add: count_list_0_iff)
  ultimately show ?thesis by (simp add: shard_sizes_def list_shards_def)
qed

theorem sharded_drain_returns_witness:
  "\<exists>s xs s' r. swq_drain list_shards 7 (shard_start [0, 0]) = Ret () s \<and> sp_pc s 7 = SC_draining \<and>
     run_turns (sworker_turn list_shards) xs s = Ret () s' \<and> length xs \<le> 18 \<and>
     sp_drain_turn list_shards 7 s' = Ret () r \<and> sp_pc r 7 = S_outside"
proof -
  let ?init = "shard_start [0, 0]" and ?sz = "\<lambda>(i :: 32 word) w. count_list w i"
  let ?s = "sgoto 7 SC_draining (?init\<lparr>drain_threads := True, wait_cond := [7]\<rparr>)"
  have d: "swq_drain list_shards 7 ?init = Ret () ?s"
    by (simp add: swq_drain_def sp_drain_def sp_drain_turn_def wq_call_def assert_that_def shard_demo shard_start_defs)
  have hb: "m_workers hb_demo = []" by (simp add: hb_demo_def HeartbeatMap_ctor_def)
  have s0: "length (threads_shardedpool ?init) = unat (1 :: 32 word)" "\<not> stop_threads ?init" "\<not> pause_threads ?init"
    "sp_pc ?init 7 = S_outside" "sp_pc ?s 7 \<noteq> S_outside" by (simp_all add: shard_start_defs)
  have "pool_ready list_shards ?s"
    using d run_pool_ready [OF hb_demo_inv hb sp_run_snoc [OF shard_start_run spstep.drain [of ?init 7]]] s0(4)
    by (simp add: swq_drain_def shard_start_defs)
  then have "draining_pool list_shards ?sz ?s"
    using list_shards_sizes by (simp add: draining_pool_def shard_start_defs)
  then obtain xs s' where xs: "run_turns (sworker_turn list_shards) xs ?s = Ret () s'"
    "no_turn (sworker_turn list_shards) early_env s'" using spd.schedule_exists by blast
  have "length xs \<le> (\<Sum>t \<in> set (threads_shardedpool ?s). 6 * size_of ?sz ?s t + 6) \<and>
      (\<exists>r. sp_drain_turn list_shards 7 s' = Ret () r \<and> sp_pc r 7 = S_outside)"
    using sharded_drain_returns [OF hb_demo_inv hb shard_start_run s0(1-4) d s0(5) list_shards_sizes xs(1), of early_env]
      xs(2) by (simp add: in_time_min no_turn_def early_env_def)
  then have "length xs \<le> 18 \<and> (\<exists>r. sp_drain_turn list_shards 7 s' = Ret () r \<and> sp_pc r 7 = S_outside)"
    by (simp add: size_of_def shard_start_defs)
  moreover have "sp_pc ?s 7 = SC_draining" by simp
  ultimately show ?thesis using d xs(1) by blast
qed

theorem sharded_stop_returns_witness:
  "\<exists>s xs s' r. sp_stop_begin list_shards 7 (shard_start [0]) = Ret () s \<and> sp_pc s 7 = SC_stopping \<and>
     run_turns (sworker_turn list_shards) xs s = Ret () s' \<and> length xs \<le> 5 \<and>
     sp_stop_finish 7 s' = Ret () r \<and> threads_shardedpool r = []"
proof -
  let ?init = "shard_start [0]"
  let ?s = "sgoto 7 SC_stopping (?init\<lparr>stop_threads := True\<rparr>)"
  have b: "sp_stop_begin list_shards 7 ?init = Ret () ?s"
    by (simp add: sp_stop_begin_def wq_call_def assert_that_def shard_demo shard_start_defs)
  have hb: "m_workers hb_demo = []" by (simp add: hb_demo_def HeartbeatMap_ctor_def)
  have init: "length (threads_shardedpool ?init) = unat (1 :: 32 word)" "\<not> pause_threads ?init"
    "\<not> drain_threads ?init" "sp_pc ?init 7 = S_outside" "\<forall>u. sp_pc ?init u \<noteq> SC_stopping"
    by (simp_all add: shard_start_defs)
  have "pool_ready list_shards ?s"
    using run_pool_ready [OF hb_demo_inv hb sp_run_snoc [OF shard_start_run spstep.stop [OF init(4,5) b]]]
    by (simp add: shard_start_defs)
  then have "stopping_pool list_shards ?s" by (simp add: stopping_pool_def shard_start_defs)
  then obtain xs s' where xs: "run_turns (sworker_turn list_shards) xs ?s = Ret () s'"
    "no_turn (sworker_turn list_shards) early_env s'" using sps.schedule_exists by blast
  have "length xs \<le> 5 * unat (1 :: 32 word) \<and> (\<exists>r. sp_stop_finish 7 s' = Ret () r \<and> threads_shardedpool r = [])"
    using sharded_stop_returns [OF hb_demo_inv hb shard_start_run init b xs(1), of early_env] xs(2)
    by (auto simp: in_time_min no_turn_def early_env_def)
  moreover have "sp_pc ?s 7 = SC_stopping" by simp
  ultimately show ?thesis using b xs(1) by auto
qed

section \<open>\<^verbatim>\<open>pause()\<close> and \<^verbatim>\<open>drain()\<close> together\<close>

text \<open>One worker waits in the pause branch, another one in the drain branch.\<close>

definition crossed :: "'w ShardedThreadPool \<Rightarrow> bool" where
  "crossed s \<longleftrightarrow> pause_threads s \<and> drain_threads s \<and> (\<exists>u \<in> set (threads_shardedpool s). sp_pc s u = S_paused) \<and>
     (\<exists>v \<in> set (threads_shardedpool s). sp_pc s v = S_drained)"

lemma crossed_missing:
  assumes "sp_inv s" "crossed s"
  shows "num_threads s \<noteq> num_paused s" "num_threads s \<noteq> num_drained s"
proof -
  note parts = sp_inv_parts [OF assms(1)]
  obtain u v where "u \<in> set (threads_shardedpool s)" "sp_pc s u = S_paused" "v \<in> set (threads_shardedpool s)"
    "sp_pc s v = S_drained" using assms(2) by (auto simp: crossed_def)
  then show "num_threads s \<noteq> num_paused s" "num_threads s \<noteq> num_drained s"
    using not_all [OF parts(2), of S_paused v] not_all [OF parts(2), of S_drained u] parts(1)
    by (simp_all add: sp_counts_def)
qed

lemma held_worker:
  assumes "spstep ops A_worker s s'" "sp_pc s u = S_paused \<and> pause_threads s \<or> sp_pc s u = S_drained \<and> drain_threads s"
  shows "sp_pc s' u = sp_pc s u"
proof -
  obtain t e where t: "\<forall>x. x \<noteq> t \<longrightarrow> sp_pc s' x = sp_pc s x"
    "sp_pc s t = S_paused \<longrightarrow> sworker_pause_turn e t s = Ret () s'"
    "sp_pc s t = S_drained \<longrightarrow> sworker_drain_turn e t s = Ret () s'"
    by (rule worker_acts [OF assms(1)]) blast
  show ?thesis
  proof (cases "u = t")
    case True
    then consider "sp_pc s t = S_paused" "pause_threads s" "sworker_pause_turn e t s = Ret () s'"
      | "sp_pc s t = S_drained" "drain_threads s" "sworker_drain_turn e t s = Ret () s'"
      using assms(2) t(2,3) by auto
    then show ?thesis
      by cases (auto simp: True elim!: pause_turn_cases drain_turn_cases)
  qed (use t(1) in simp)
qed

lemma crossed_step:
  assumes "spstep ops a s s'" "a \<noteq> A_unpause" "sp_inv s" "sp_full s" "crossed s"
  shows "crossed s'"
proof -
  obtain u v where u: "u \<in> set (threads_shardedpool s)" "sp_pc s u = S_paused"
    and v: "v \<in> set (threads_shardedpool s)" "sp_pc s v = S_drained"
    and flags: "pause_threads s" "drain_threads s" using assms(5) by (auto simp: crossed_def)
  have "threads_shardedpool s' = threads_shardedpool s \<and> pause_threads s' \<and> drain_threads s' \<and>
      sp_pc s' u = sp_pc s u \<and> sp_pc s' v = sp_pc s v"
  proof (cases "a = A_worker")
    case True
    then have st: "spstep ops A_worker s s'" using assms(1) by simp
    then show ?thesis
      using worker_same [OF st] held_worker [OF st, of u] held_worker [OF st, of v] u v flags
      by (simp add: same_pool_def)
  next
    case False
    have "sp_pc s' x = sp_pc s x" if "sp_pc s x \<in> {S_paused, S_drained}" for x
      using non_worker_pc [OF assms(1) False] that unfolding only_callers_def calls_def
      by (auto dest!: spec [of _ x])
    then have "sp_pc s' u = sp_pc s u" "sp_pc s' v = sp_pc s v" using u(2) v(2) by simp_all
    moreover have "pause_threads s'" using non_worker_step [OF assms(1) False] assms(2) flags(1) by simp
    ultimately show ?thesis
      using drain_stuck_members [OF assms(1) False assms(4) flags(2) crossed_missing(2) [OF assms(3,5)] bexI [of _ u]] u
      by simp
  qed
  then show ?thesis using u v unfolding crossed_def by auto
qed

text \<open>
  C39: \<^verbatim>\<open>pause()\<close> during a \<^verbatim>\<open>drain()\<close>. If one worker waits in the pause branch and another one in
  the drain branch, then until \<^verbatim>\<open>unpause()\<close> is called, however the run goes on, no call of \<^verbatim>\<open>pause()\<close>,
  of \<^verbatim>\<open>drain()\<close> or of \<^verbatim>\<open>stop()\<close> returns: each of the first two waits for all workers to be in its own
  branch, and \<^verbatim>\<open>stop()\<close> joins workers that do not look at \<^verbatim>\<open>stop_threads\<close>.
\<close>
theorem sharded_pause_drain_deadlock:
  assumes "sp_reach ops s" "crossed s" "sp_run ops (\<lambda>a. a \<noteq> A_unpause) s s'"
  shows "crossed s' \<and> sp_pc (sp_pause_turn c s') c = SC_pausing \<and>
    (\<forall>r. sp_drain_turn ops d s' = Ret () r \<longrightarrow> sp_pc r d = SC_draining) \<and> sp_stop_finish t s' = Block s'"
proof -
  have stuck: "crossed s'"
    using assms(3)
  proof (induction rule: sp_run_induct)
    case base
    show ?case by (rule assms(2))
  next
    case (step a x y)
    have "sp_inv x" "sp_full x" using sp_reach_inv [OF sp_run_reach [OF step(1) assms(1)]] by simp_all
    then show ?case using crossed_step [OF step(3,2)] step(4) by simp
  qed
  have inv: "sp_inv s'" using sp_reach_inv [OF sp_run_reach [OF assms(3,1)]] by simp
  note missing = crossed_missing [OF inv stuck]
  have "sp_pc (sp_pause_turn c s') c = SC_pausing" using missing(1) by (simp add: sp_pause_turn_def)
  moreover have "sp_pc r d = SC_draining" if "sp_drain_turn ops d s' = Ret () r" for r
    using drain_turn_waits [OF missing(2) that] by simp
  moreover have "sp_stop_finish t s' = Block s'" using stuck by (force simp: sp_stop_finish_def crossed_def)
  ultimately show ?thesis using stuck by blast
qed

text \<open>
  Worker 8 waits in the drain branch for caller 7, caller 6 waits in \<^verbatim>\<open>pause()\<close>, and worker 9 is
  on its way from \<open>S_new\<close> to the pause branch.
\<close>

definition crossing :: "spoint \<Rightarrow> 32 word list ShardedThreadPool \<Rightarrow> bool" where
  "crossing p s \<longleftrightarrow> hb_reach s \<and> pause_threads s \<and> drain_threads s \<and> \<not> stop_threads s \<and> sp_wq s \<noteq> None \<and>
     threads_shardedpool s = [8, 9] \<and>
     sp_pc s = (\<lambda>_. S_outside)(6 := SC_pausing, 7 := SC_draining, 8 := S_drained, 9 := p)"

lemma crossing_turn:
  assumes "crossing p s" "slive p" "p \<noteq> S_paused" "p \<noteq> S_drained"
  shows "\<exists>s'. crossing (snext list_shards s 9 p) s'"
proof -
  have c: "hb_reach s" "sp_wq s \<noteq> None" "sp_pc s 9 = p" using assms(1) by (simp_all add: crossing_def)
  have "sp_inv s" "shb_ok s" using c(1) sp_reach_inv by (auto simp: hb_reach_def)
  then have "9 \<notin> set (shardedpool_cond s)" using worker_awake c(3) assms(3,4) by blast
  then obtain s' where s': "sworker_turn list_shards early_env 9 s = Ret () s'"
    using sworker_turn_returns [OF \<open>shb_ok s\<close> _ c(2), of early_env 9 list_shards] c(3) assms(2)
    by (auto simp: early_env_def in_time_min)
  have "hb_reach s'" by (rule hb_reach_step [OF c(1) sworker_turn_step [OF s']])
  moreover have "same_pool s s'" by (rule worker_same [OF sworker_turn_step [OF s']])
  moreover have eff: "turn_effect list_shards 9 (snext list_shards s 9 p) s s'"
    using sworker_turn_effect [OF s'] c(3) by simp
  then have "sp_wq s' \<noteq> None" using c(2) by (auto simp: turn_effect_def wq_call_Ret split: if_splits)
  ultimately have "crossing (snext list_shards s 9 p) s'"
    using eff assms(1) by (simp add: crossing_def turn_effect_def same_pool_def)
  then show ?thesis by blast
qed

lemma crossing_exists: "\<exists>s. crossing S_paused s"
proof -
  obtain x where x: "hb_reach x" "sp_pc x = (\<lambda>_. S_outside)(7 := SC_draining, 8 := S_drained, 9 := S_new)"
    "drain_threads x" "threads_shardedpool x = [8, 9]" "sp_wq x = Some (demo_wq [])" "\<not> stop_threads x"
    "num_threads x = 2" "num_paused x = 0" using shard2_half by blast
  let ?a = "sgoto 6 SC_pausing (x\<lparr>pause_threads := True, sp_wq := Some (demo_wq []), wait_cond := wait_cond x @ [6]\<rparr>)"
  have "sp_pause list_shards 6 x = Ret () ?a"
    by (simp add: sp_pause_def sp_pause_turn_def wq_call_def shard_demo x(5,7,8))
  then have "hb_reach ?a" using hb_reach_step [OF x(1) spstep.pause [of x 6]] x(2) by simp
  then have a: "crossing S_new ?a" using x by (auto simp: crossing_def sgoto_def)
  have flags: "crossing p s \<Longrightarrow> pause_threads s \<and> \<not> stop_threads s" for p s by (simp add: crossing_def)
  obtain b where b: "crossing S_head b" using crossing_turn [OF a] by auto
  obtain c where c: "crossing S_check_pause c" using crossing_turn [OF b] flags [OF b] by auto
  obtain d where d: "crossing S_pause_lock d" using crossing_turn [OF c] flags [OF c] by auto
  show ?thesis using crossing_turn [OF d] flags [OF d] by auto
qed

theorem sharded_pause_drain_deadlock_witness:
  "\<exists>s. sp_reach list_shards s \<and> sp_pc s 6 = SC_pausing \<and> sp_pc s 7 = SC_draining \<and>
     sp_pc (sp_pause_turn 6 s) 6 = SC_pausing \<and> sp_stop_finish 5 s = Block s"
proof -
  obtain s where s: "crossing S_paused s" using crossing_exists by blast
  then have r: "sp_reach list_shards s" "crossed s" by (auto simp: crossing_def hb_reach_def crossed_def)
  then show ?thesis
    using sharded_pause_drain_deadlock [OF r sp_run_refl, of 6 7 5] s by (intro exI [of _ s]) (simp add: crossing_def)
qed

end
