(* ===== verification/Sharded_Spec.thy ===== *)
theory Sharded_Spec
  imports Sharded_Turns
begin

text \<open>
  What the sharded pool promises its clients, as a machine without flags, counters or condition
  variables: the queue, the workers that are processing, whether the pool is held, the calls in
  progress, and the history of what the clients and the workers saw. Every step of the sharded
  pool is a sequence of steps of this machine with the same history.
\<close>

section \<open>The abstract sharded pool\<close>

datatype scall = No_call | Call_pause | Call_drain | Call_stop

text \<open>A call and its return, and the beginning and the end of the processing of a shard.\<close>

datatype sevent = Called tid scall | Returned tid scall | Began tid | Completed tid

record 'w shard_spec =
  sh_queue :: "'w option"
  sh_running :: "tid set"
  sh_held :: bool
  sh_call :: "tid \<Rightarrow> scall"
  sh_history :: "sevent list"

definition sh_start :: "'w shard_spec" where
  "sh_start = \<lparr>sh_queue = None, sh_running = {}, sh_held = False, sh_call = (\<lambda>_. No_call), sh_history = []\<rparr>"

text \<open>
  The queue is changed by its clients, by the processing of a shard, and by the two calls that
  tell it whether its waiting threads are to return. A worker begins only while the pool is not held, and the pool is held
  only when nobody is processing. \<^verbatim>\<open>pause()\<close>, \<^verbatim>\<open>drain()\<close> and \<^verbatim>\<open>stop()\<close> return only when nobody is processing.
\<close>

inductive shspec :: "('w, 'u) swq_ops \<Rightarrow> 'w shard_spec \<Rightarrow> 'w shard_spec \<Rightarrow> bool" for ops where
  begin_shard: "\<not> sh_held a \<Longrightarrow>
    shspec ops a (a\<lparr>sh_running := insert t (sh_running a), sh_history := sh_history a @ [Began t]\<rparr>)"
| complete_shard: "t \<in> sh_running a \<Longrightarrow> sh_queue a = Some w \<Longrightarrow>
    shspec ops a (a\<lparr>sh_running := sh_running a - {t}, sh_queue := Some (sop_process ops i w),
      sh_history := sh_history a @ [Completed t]\<rparr>)"
| enqueue: "sh_queue a = Some w \<Longrightarrow> shspec ops a (a\<lparr>sh_queue := Some (sop_enqueue ops u w)\<rparr>)"
| enqueue_front: "sh_queue a = Some w \<Longrightarrow> shspec ops a (a\<lparr>sh_queue := Some (sop_enqueue_front ops u w)\<rparr>)"
| signal: "sh_queue a = Some w \<Longrightarrow> f = sop_return_waiting ops \<or> f = sop_stop_return_waiting ops \<Longrightarrow>
    shspec ops a (a\<lparr>sh_queue := Some (f w)\<rparr>)"
| attach: "sh_running a = {} \<Longrightarrow> shspec ops a (a\<lparr>sh_queue := Some w\<rparr>)"
| hold: "sh_running a = {} \<Longrightarrow> shspec ops a (a\<lparr>sh_held := True\<rparr>)"
| release: "shspec ops a (a\<lparr>sh_held := False\<rparr>)"
| call: "sh_call a t = No_call \<Longrightarrow> c \<noteq> No_call \<Longrightarrow>
    shspec ops a (a\<lparr>sh_call := (sh_call a)(t := c), sh_history := sh_history a @ [Called t c]\<rparr>)"
| return: "sh_running a = {} \<Longrightarrow> sh_call a t = c \<Longrightarrow> c \<noteq> No_call \<Longrightarrow>
    shspec ops a (a\<lparr>sh_call := (sh_call a)(t := No_call), sh_history := sh_history a @ [Returned t c]\<rparr>)"

text \<open>Who is processing after a history, and histories in which no call returns meanwhile.\<close>

fun runs_after :: "tid set \<Rightarrow> sevent \<Rightarrow> tid set" where
  "runs_after A (Began t) = insert t A"
| "runs_after A (Completed t) = A - {t}"
| "runs_after A _ = A"

fun quiet_returns :: "tid set \<Rightarrow> sevent list \<Rightarrow> bool" where
  "quiet_returns A [] = True"
| "quiet_returns A (Returned t c # h) = (A = {} \<and> quiet_returns A h)"
| "quiet_returns A (e # h) = quiet_returns (runs_after A e) h"

lemma quiet_returns_snoc:
  "quiet_returns A (h @ [e]) \<longleftrightarrow>
    quiet_returns A h \<and> (case e of Returned t c \<Rightarrow> foldl runs_after A h = {} | _ \<Rightarrow> True)"
  by (induction A h rule: quiet_returns.induct) (auto split: sevent.splits)

text \<open>What the abstract machine keeps.\<close>

definition sh_ok :: "'w shard_spec \<Rightarrow> bool" where
  "sh_ok a \<longleftrightarrow> (sh_held a \<longrightarrow> sh_running a = {}) \<and> foldl runs_after {} (sh_history a) = sh_running a \<and>
     quiet_returns {} (sh_history a)"

lemma sh_ok_step: "shspec ops a a' \<Longrightarrow> sh_ok a \<Longrightarrow> sh_ok a'"
  by (induction rule: shspec.induct) (auto simp: sh_ok_def quiet_returns_snoc)

lemma sh_ok_run: "(shspec ops)\<^sup>*\<^sup>* sh_start a \<Longrightarrow> sh_ok a"
proof (induction rule: rtranclp_induct)
  case base
  show ?case by (simp add: sh_ok_def sh_start_def)
next
  case (step b c)
  show ?case by (rule sh_ok_step [OF step(2,3)])
qed

section \<open>The steps of the pool with their events\<close>

fun turn_events :: "tid \<Rightarrow> spoint \<Rightarrow> sevent list" where
  "turn_events t S_reset = [Began t]"
| "turn_events t S_processing = [Completed t]"
| "turn_events t _ = []"

text \<open>A call has returned when its thread is outside the pool again.\<close>

definition return_events :: "tid \<Rightarrow> scall \<Rightarrow> 'w ShardedThreadPool \<Rightarrow> sevent list" where
  "return_events t c s = (if sp_pc s t = S_outside then [Returned t c] else [])"

inductive spevent ::
  "('w, 'u) swq_ops \<Rightarrow> sevent list \<Rightarrow> 'w ShardedThreadPool \<Rightarrow> 'w ShardedThreadPool \<Rightarrow> bool" for ops where
  worker: "sworker_turn ops e t s = Ret () s' \<Longrightarrow> spevent ops (turn_events t (sp_pc s t)) s s'"
| pause: "sp_pc s t = S_outside \<Longrightarrow> sp_pause ops t s = Ret () s' \<Longrightarrow>
    spevent ops (Called t Call_pause # return_events t Call_pause s') s s'"
| pausing: "sp_pc s t = SC_pausing \<Longrightarrow> t \<notin> set (wait_cond s) \<Longrightarrow>
    spevent ops (return_events t Call_pause (sp_pause_turn t s)) s (sp_pause_turn t s)"
| drain: "sp_pc s t = S_outside \<Longrightarrow> sp_drain ops t s = Ret () s' \<Longrightarrow>
    spevent ops (Called t Call_drain # return_events t Call_drain s') s s'"
| draining: "sp_pc s t = SC_draining \<Longrightarrow> t \<notin> set (wait_cond s) \<Longrightarrow> sp_drain_turn ops t s = Ret () s' \<Longrightarrow>
    spevent ops (return_events t Call_drain s') s s'"
| stop: "sp_pc s t = S_outside \<Longrightarrow> \<forall>u. sp_pc s u \<noteq> SC_stopping \<Longrightarrow> sp_stop_begin ops t s = Ret () s' \<Longrightarrow>
    spevent ops (Called t Call_stop # return_events t Call_stop s') s s'"
| stopped: "sp_pc s t = SC_stopping \<Longrightarrow> sp_stop_finish t s = Ret () s' \<Longrightarrow>
    spevent ops (return_events t Call_stop s') s s'"
| other: "spstep ops a s s' \<Longrightarrow> a \<in> {A_wake, A_queue, A_set_wq, A_start, A_unpause} \<Longrightarrow> spevent ops [] s s'"

definition sp_traced ::
  "('w, 'u) swq_ops \<Rightarrow> 'w ShardedThreadPool \<times> sevent list \<Rightarrow> 'w ShardedThreadPool \<times> sevent list \<Rightarrow> bool" where
  "sp_traced ops x y \<longleftrightarrow> (\<exists>evs. spevent ops evs (fst x) (fst y) \<and> snd y = snd x @ evs)"

section \<open>The abstraction\<close>

fun call_of :: "spoint \<Rightarrow> scall" where
  "call_of SC_pausing = Call_pause"
| "call_of SC_draining = Call_drain"
| "call_of SC_stopping = Call_stop"
| "call_of _ = No_call"

definition sh_abs :: "'w ShardedThreadPool \<Rightarrow> sevent list \<Rightarrow> 'w shard_spec" where
  "sh_abs s h = \<lparr>sh_queue = map_option swq_state (sp_wq s), sh_running = {t. sp_pc s t = S_processing},
     sh_held = paused_all s, sh_call = (\<lambda>t. call_of (sp_pc s t)), sh_history = h\<rparr>"

lemma sh_abs_fields [simp]:
  "sh_queue (sh_abs s h) = map_option swq_state (sp_wq s)" "sh_running (sh_abs s h) = {t. sp_pc s t = S_processing}"
  "sh_held (sh_abs s h) = paused_all s" "sh_call (sh_abs s h) t = call_of (sp_pc s t)" "sh_history (sh_abs s h) = h"
  by (simp_all add: sh_abs_def)

lemma sh_abs_ctor: "sh_abs (ShardedThreadPool_ctor hb nm tn n) [] = sh_start"
  by (simp add: sh_abs_def sh_start_def ShardedThreadPool_ctor_def paused_all_def)

lemma paused_all_idle: "sp_inv s \<Longrightarrow> paused_all s \<Longrightarrow> sp_pc s t \<noteq> S_processing"
  using paused_all_workers(3) [of s t] by auto

lemma paused_all_kept:
  assumes "sp_reach ops s" "spstep ops a s s'" "a \<noteq> A_unpause" "paused_all s"
  shows "paused_all s'"
  using paused_all_run [OF sp_run_snoc [OF sp_run_refl assms(2)] assms(1,4)] assms(3) by simp

text \<open>Up to the hold, which the last worker of a pause brings about.\<close>

lemma settle:
  assumes "(shspec ops)\<^sup>*\<^sup>* (sh_abs s h) a" "a\<lparr>sh_held := paused_all s'\<rparr> = sh_abs s' h'"
    "sh_held a \<longrightarrow> paused_all s'" "sp_inv s'"
  shows "(shspec ops)\<^sup>*\<^sup>* (sh_abs s h) (sh_abs s' h')"
proof (cases "sh_held a = paused_all s'")
  case True
  then have "a = sh_abs s' h'" using assms(2) by (cases a) simp
  then show ?thesis using assms(1) by simp
next
  case False
  then have held: "paused_all s'" using assms(3) by blast
  then have "sh_running (a\<lparr>sh_held := paused_all s'\<rparr>) = {}" unfolding assms(2) using paused_all_idle [OF assms(4)] by simp
  then have "shspec ops a (sh_abs s' h')" using shspec.hold [of a ops] assms(2) held by simp
  with assms(1) show ?thesis by (rule rtranclp.rtrancl_into_rtrancl)
qed

section \<open>The workers\<close>

lemma turn_at:
  "sp_pc s t = S_new \<Longrightarrow> sworker_turn ops e t s = sworker_enter e t s"
  "sp_pc s t = S_head \<Longrightarrow> sworker_turn ops e t s = sworker_head e t s"
  "sp_pc s t = S_check_pause \<Longrightarrow> sworker_turn ops e t s = Ret () (sworker_check_pause t s)"
  "sp_pc s t = S_pause_lock \<Longrightarrow> sworker_turn ops e t s = sworker_pause e t s"
  "sp_pc s t = S_paused \<Longrightarrow> t \<notin> set (shardedpool_cond s) \<Longrightarrow> sworker_turn ops e t s = sworker_pause_turn e t s"
  "sp_pc s t = S_check_drain \<Longrightarrow> sworker_turn ops e t s = Ret () (sworker_check_drain t s)"
  "sp_pc s t = S_drain_lock \<Longrightarrow> sworker_turn ops e t s = sworker_drain ops e t s"
  "sp_pc s t = S_drained \<Longrightarrow> t \<notin> set (shardedpool_cond s) \<Longrightarrow> sworker_turn ops e t s = sworker_drain_turn e t s"
  "sp_pc s t = S_reset \<Longrightarrow> sworker_turn ops e t s = sworker_reset e t s"
  "sp_pc s t = S_processing \<Longrightarrow> sworker_turn ops e t s = sworker_processed ops t s"
  by (simp_all add: sworker_turn_def)

lemma worker_turn_of:
  assumes "spstep ops A_worker s s'"
  obtains e t where "sworker_turn ops e t s = Ret () s'"
  using assms by (cases rule: spstep.cases) (metis that turn_at)+

text \<open>The steps with events are the steps of the pool.\<close>

lemma spevent_step: "spevent ops evs s s' \<Longrightarrow> \<exists>a. spstep ops a s s'"
  by (induction rule: spevent.induct) (blast intro: sworker_turn_step spstep.intros)+

lemma spstep_event:
  assumes "spstep ops a s s'"
  shows "\<exists>evs. spevent ops evs s s'"
proof (cases "a = A_worker")
  case True
  then show ?thesis using assms worker_turn_of [of ops s s'] spevent.worker [of ops _ _ s s'] by metis
next
  case False
  note quiet = spevent.other [OF assms]
  from assms show ?thesis
    by (cases rule: spstep.cases) (use quiet False in \<open>blast intro: spevent.intros\<close>)+
qed

lemma traced_run:
  "(\<exists>h'. (sp_traced ops)\<^sup>*\<^sup>* (s, h) (s', h')) \<longleftrightarrow> sp_run ops (\<lambda>_. True) s s'"
proof
  have "sp_run ops (\<lambda>_. True) (fst x) (fst y)" if "(sp_traced ops)\<^sup>*\<^sup>* x y" for x y
    using that
  proof (induction rule: rtranclp_induct)
    case (step y z)
    then obtain evs where "spevent ops evs (fst y) (fst z)" by (auto simp: sp_traced_def)
    then obtain a where "spstep ops a (fst y) (fst z)" using spevent_step by blast
    then show ?case by (rule sp_run_snoc [OF step(3)]) simp
  qed (rule sp_run_refl)
  then show "\<exists>h'. (sp_traced ops)\<^sup>*\<^sup>* (s, h) (s', h') \<Longrightarrow> sp_run ops (\<lambda>_. True) s s'" by fastforce
next
  assume "sp_run ops (\<lambda>_. True) s s'"
  then show "\<exists>h'. (sp_traced ops)\<^sup>*\<^sup>* (s, h) (s', h')"
  proof (induction rule: sp_run_induct)
    case (step a x y)
    then obtain h' evs where run: "(sp_traced ops)\<^sup>*\<^sup>* (s, h) (x, h')" and "spevent ops evs x y"
      using spstep_event by blast
    then have "sp_traced ops (x, h') (y, h' @ evs)" by (simp add: sp_traced_def)
    with run show ?case by (meson rtranclp.rtrancl_into_rtrancl)
  qed blast
qed

lemma reach_run: "sp_reach ops s \<Longrightarrow> \<exists>hb nm tn n. sp_run ops (\<lambda>_. True) (ShardedThreadPool_ctor hb nm tn n) s"
proof (induction rule: sp_reach.induct)
  case (step s a s')
  then show ?case using sp_run_snoc by metis
qed (use sp_run_refl in blast)

lemma worker_calls:
  assumes "turn_effect ops t (snext ops s t (sp_pc s t)) s s'" "slive (sp_pc s t)"
  shows "call_of (sp_pc s' u) = call_of (sp_pc s u)"
proof -
  have "call_of (snext ops s t (sp_pc s t)) = No_call" "call_of (sp_pc s t) = No_call"
    using assms(2) by (cases "sp_pc s t"; simp)+
  then show ?thesis using assms(1) by (simp add: turn_effect_def)
qed

lemma worker_abs:
  assumes "sp_reach ops s" "sworker_turn ops e t s = Ret () s'"
  shows "(shspec ops)\<^sup>*\<^sup>* (sh_abs s h) (sh_abs s' (h @ turn_events t (sp_pc s t)))"
proof -
  have turn: "spstep ops A_worker s s'" by (rule sworker_turn_step [OF assms(2)])
  have live: "slive (sp_pc s t)" and eff: "turn_effect ops t (snext ops s t (sp_pc s t)) s s'"
    using sworker_turn_effect [OF assms(2)] by blast+
  have inv: "sp_inv s" "sp_inv s'"
    using sp_reach_inv [OF assms(1)] sp_reach_inv [OF sp_reach.step [OF assms(1) turn]] by simp_all
  have pc: "sp_pc s' = (sp_pc s)(t := snext ops s t (sp_pc s t))" using eff by (simp add: turn_effect_def)
  have calls: "(\<lambda>u. call_of (sp_pc s' u)) = (\<lambda>u. call_of (sp_pc s u))" using worker_calls [OF eff live] by blast
  have held: "paused_all s \<longrightarrow> paused_all s'" using paused_all_kept [OF assms(1) turn] by simp
  show ?thesis
  proof (cases "sp_pc s t = S_reset \<or> sp_pc s t = S_processing")
    case True
    then have "\<not> paused_all s" using paused_all_workers(3) [OF inv(1), of t] live by auto
    show ?thesis
    proof (cases "sp_pc s t = S_reset")
      case reset: True
      have step: "shspec ops (sh_abs s h)
          ((sh_abs s h)\<lparr>sh_running := insert t {u. sp_pc s u = S_processing}, sh_history := h @ [Began t]\<rparr>)"
        using shspec.begin_shard [of "sh_abs s h" ops t] \<open>\<not> paused_all s\<close> by simp
      have "{u. sp_pc s' u = S_processing} = insert t {u. sp_pc s u = S_processing}" using pc reset by auto
      moreover have "sp_wq s' = sp_wq s" using eff reset by (simp add: turn_effect_def)
      ultimately show ?thesis
        using held inv(2) calls reset \<open>\<not> paused_all s\<close>
        by - (rule settle [OF r_into_rtranclp [of "shspec ops", OF step]]; simp add: sh_abs_def)
    next
      case False
      then have proc: "sp_pc s t = S_processing" using True by simp
      then obtain w where w: "sp_wq s = Some w"
        "sp_wq s' = Some (w\<lparr>swq_state := sop_process ops (thread_index s t) (swq_state w)\<rparr>)"
        using eff by (auto simp: turn_effect_def wq_call_Ret)
      have step: "shspec ops (sh_abs s h) ((sh_abs s h)\<lparr>sh_running := {u. sp_pc s u = S_processing} - {t},
          sh_queue := Some (sop_process ops (thread_index s t) (swq_state w)), sh_history := h @ [Completed t]\<rparr>)"
        using shspec.complete_shard [of t "sh_abs s h" "swq_state w" ops "thread_index s t"] proc w(1) by simp
      have "{u. sp_pc s' u = S_processing} = {u. sp_pc s u = S_processing} - {t}" using pc proc by auto
      then show ?thesis
        using held inv(2) calls w proc \<open>\<not> paused_all s\<close>
        by - (rule settle [OF r_into_rtranclp [of "shspec ops", OF step]]; simp add: sh_abs_def)
    qed
  next
    case False
    then have "snext ops s t (sp_pc s t) \<noteq> S_processing" using live by (cases "sp_pc s t") simp_all
    then have "{u. sp_pc s' u = S_processing} = {u. sp_pc s u = S_processing}" using pc False by auto
    moreover have "sp_wq s' = sp_wq s" using eff False by (simp add: turn_effect_def)
    moreover have "turn_events t (sp_pc s t) = []" using False by (cases "sp_pc s t") simp_all
    ultimately show ?thesis
      using held inv(2) calls by - (rule settle [of ops s h "sh_abs s h"]; simp add: sh_abs_def)
  qed
qed

section \<open>The callers\<close>

text \<open>An abstract state that agrees with the pool except perhaps in the hold.\<close>

definition agrees :: "'w ShardedThreadPool \<Rightarrow> sevent list \<Rightarrow> 'w shard_spec \<Rightarrow> bool" where
  "agrees s h a \<longleftrightarrow> sh_queue a = map_option swq_state (sp_wq s) \<and> sh_running a = {t. sp_pc s t = S_processing} \<and>
     sh_call a = (\<lambda>t. call_of (sp_pc s t)) \<and> sh_history a = h"

lemma agrees_abs: "agrees s h a \<Longrightarrow> a\<lparr>sh_held := paused_all s\<rparr> = sh_abs s h"
  by (cases a) (simp add: agrees_def sh_abs_def)

lemma agrees_self: "agrees s h (sh_abs s h)"
  by (simp add: agrees_def sh_abs_def)

lemma caller_settle:
  assumes "sp_reach ops s" "spstep ops a s s'" "a \<noteq> A_unpause" "(shspec ops)\<^sup>*\<^sup>* (sh_abs s h) b" "agrees s' h' b"
    "sh_held b = paused_all s"
  shows "(shspec ops)\<^sup>*\<^sup>* (sh_abs s h) (sh_abs s' h')"
  using settle [OF assms(4) agrees_abs [OF assms(5)]] assms(6) paused_all_kept [OF assms(1-3)]
    sp_reach_inv [OF sp_reach.step [OF assms(1,2)]] by blast

lemma all_counted_idle:
  assumes "sp_inv s" "num_threads s = num_paused s \<or> num_threads s = num_drained s"
  shows "{t. sp_pc s t = S_processing} = {}"
proof -
  note parts = sp_inv_parts [OF assms(1)]
  have all: "{u. sp_pc s u = S_paused} = set (threads_shardedpool s) \<or>
      {u. sp_pc s u = S_drained} = set (threads_shardedpool s)"
    using all_at [OF parts(2), of S_paused] all_at [OF parts(2), of S_drained] parts(1) assms(2)
    by (auto simp: sp_counts_def)
  have "sp_pc s t \<noteq> S_processing" for t
  proof
    assume t: "sp_pc s t = S_processing"
    then have "t \<in> set (threads_shardedpool s)" using parts(2) by (simp add: sp_roster_def)
    then show False using all t by (metis (mono_tags, lifting) mem_Collect_eq spoint.simps)
  qed
  then show ?thesis by simp
qed

text \<open>A turn of a waiting call, which returns when nobody is processing or goes on waiting.\<close>

lemma pause_turn_abs:
  assumes "s' = sp_pause_turn t x" "agrees (sgoto t SC_pausing x) h b" "num_threads x = num_paused x \<Longrightarrow> sh_running b = {}"
    "sp_pc x t \<noteq> S_processing"
  shows "\<exists>c. (shspec ops)\<^sup>*\<^sup>* b c \<and> agrees s' (h @ return_events t Call_pause s') c \<and> sh_held c = sh_held b"
proof (cases "num_threads x = num_paused x")
  case True
  let ?c = "b\<lparr>sh_call := (sh_call b)(t := No_call), sh_history := sh_history b @ [Returned t Call_pause]\<rparr>"
  have "s' = sgoto t S_outside x" using True assms(1) by (simp add: sp_pause_turn_def)
  then have "agrees s' (h @ return_events t Call_pause s') ?c"
    using assms(2,4) by (auto simp: agrees_def sgoto_def fun_eq_iff return_events_def)
  moreover have "shspec ops b ?c" using assms(2,3) True by (intro shspec.return) (simp_all add: agrees_def sgoto_def)
  ultimately show ?thesis by (intro exI [of _ ?c]) (simp add: r_into_rtranclp)
next
  case False
  then have "agrees s' (h @ return_events t Call_pause s') b"
    using assms(1,2) by (simp add: sp_pause_turn_def agrees_def sgoto_def return_events_def)
  then show ?thesis by blast
qed

lemma drain_turn_abs:
  assumes "sp_drain_turn ops t x = Ret () s'" "agrees (sgoto t SC_draining x) h b"
    "num_threads x = num_drained x \<Longrightarrow> sh_running b = {}" "sp_pc x t \<noteq> S_processing"
  shows "\<exists>c. (shspec ops)\<^sup>*\<^sup>* b c \<and> agrees s' (h @ return_events t Call_drain s') c \<and> sh_held c = sh_held b"
proof (cases "num_threads x = num_drained x")
  case True
  then obtain w where w: "sp_wq x = Some w" "s' = sgoto t S_outside (x\<lparr>drain_threads := False,
      sp_wq := Some (w\<lparr>swq_state := sop_stop_return_waiting ops (swq_state w)\<rparr>), shardedpool_cond := []\<rparr>)"
    using assms(1) by (auto simp: sp_drain_turn_def section_Ret)
  let ?c = "b\<lparr>sh_queue := Some (sop_stop_return_waiting ops (swq_state w))\<rparr>"
  let ?d = "?c\<lparr>sh_call := (sh_call ?c)(t := No_call), sh_history := sh_history ?c @ [Returned t Call_drain]\<rparr>"
  have "shspec ops b ?c" using assms(2) w(1) by (intro shspec.signal) (simp_all add: agrees_def sgoto_def)
  moreover have "shspec ops ?c ?d" using assms(2,3) True by (intro shspec.return) (simp_all add: agrees_def sgoto_def)
  moreover have "agrees s' (h @ return_events t Call_drain s') ?d"
    using assms(2,4) w(2) by (auto simp: agrees_def sgoto_def fun_eq_iff return_events_def)
  ultimately show ?thesis by (intro exI [of _ ?d]) (simp add: rtranclp.rtrancl_into_rtrancl [OF r_into_rtranclp])
next
  case False
  then have "agrees s' (h @ return_events t Call_drain s') b"
    using assms(1,2) by (auto simp: sp_drain_turn_def agrees_def sgoto_def return_events_def)
  then show ?thesis by blast
qed

text \<open>A call that tells the queue to return its waiting threads and then enters its loop.\<close>

lemma enter_call:
  fixes h :: "sevent list"
  assumes "sp_wq s = Some w" "sp_pc s t = S_outside" "call_of p = c" "c \<noteq> No_call"
    "x = s\<lparr>sp_wq := Some (w\<lparr>swq_state := sop_return_waiting ops (swq_state w)\<rparr>)\<rparr>"
  defines "b \<equiv> (sh_abs s h)\<lparr>sh_call := (sh_call (sh_abs s h))(t := c), sh_history := h @ [Called t c],
      sh_queue := Some (sop_return_waiting ops (swq_state w))\<rparr>"
  shows "(shspec ops)\<^sup>*\<^sup>* (sh_abs s h) b" "agrees (sgoto t p x) (h @ [Called t c]) b" "sh_held b = paused_all s"
    "sh_running b = {u. sp_pc s u = S_processing}"
proof -
  let ?a = "(sh_abs s h)\<lparr>sh_call := (sh_call (sh_abs s h))(t := c), sh_history := h @ [Called t c]\<rparr>"
  have "shspec ops (sh_abs s h) ?a" using shspec.call [of "sh_abs s h" t c ops] assms(2,4) by simp
  moreover have "shspec ops ?a b" unfolding b_def
    using shspec.signal [of ?a "swq_state w" "sop_return_waiting ops" ops] assms(1) by simp
  ultimately show "(shspec ops)\<^sup>*\<^sup>* (sh_abs s h) b" by (rule rtranclp.rtrancl_into_rtrancl [OF r_into_rtranclp])
  have "p \<noteq> S_processing" using assms(3,4) by auto
  then show "agrees (sgoto t p x) (h @ [Called t c]) b" "sh_held b = paused_all s"
    "sh_running b = {u. sp_pc s u = S_processing}"
    using assms(2,3,5) by (auto simp: agrees_def sgoto_def b_def fun_eq_iff sh_abs_def)
qed

lemma start_agrees:
  assumes "sp_start_threads i ws s = Ret () s'" "distinct ws" "\<forall>w \<in> set ws. sp_pc s w = S_outside"
  shows "agrees s' h (sh_abs s h)"
proof -
  have wq: "sp_start_threads i ws s = Ret () s' \<Longrightarrow> sp_wq s' = sp_wq s" for i s
    by (induction ws arbitrary: i s) (auto simp: outcome_inv sgoto_def split: if_splits)
  have pc: "sp_pc s' u = sp_pc s u \<or> (sp_pc s u = S_outside \<and> sp_pc s' u = S_new)" for u
    using only_callers_start [OF assms] assms(3) by metis
  have "call_of (sp_pc s' u) = call_of (sp_pc s u)" "sp_pc s' u = S_processing \<longleftrightarrow> sp_pc s u = S_processing" for u
    using pc [of u] by auto
  then show ?thesis using wq [OF assms(1)] by (simp add: agrees_def sh_abs_def)
qed

lemma stopped_idle:
  assumes "sp_inv s" "\<forall>w \<in> set (threads_shardedpool s). sp_pc s w = S_exit"
  shows "{t. sp_pc s t = S_processing} = {}"
proof -
  have "\<not> slive (sp_pc s t)" for t
    using sp_inv_parts(2) [OF assms(1)] assms(2) unfolding sp_roster_def by (metis slive.simps(2))
  then show ?thesis by (metis (mono_tags, lifting) Collect_empty_eq slive.simps)
qed

text \<open>What each call does, up to the hold.\<close>

definition follows_to ::
  "('w, 'u) swq_ops \<Rightarrow> 'w ShardedThreadPool \<Rightarrow> sevent list \<Rightarrow> 'w ShardedThreadPool \<Rightarrow> bool" where
  "follows_to ops s evs s' \<longleftrightarrow>
     (\<forall>h. \<exists>b. (shspec ops)\<^sup>*\<^sup>* (sh_abs s h) b \<and> agrees s' (h @ evs) b \<and> sh_held b = paused_all s)"

lemma follows_step:
  assumes "\<And>h. shspec ops (sh_abs s h) (b h)" "\<And>h. agrees s' (h @ evs) (b h)" "\<And>h. sh_held (b h) = paused_all s"
  shows "follows_to ops s evs s'"
  unfolding follows_to_def using assms by blast

lemma follows_same: "(\<And>h. agrees s' h (sh_abs s h)) \<Longrightarrow> follows_to ops s [] s'"
  unfolding follows_to_def by (auto intro!: exI [of _ "sh_abs s _"])

lemma call_follows:
  assumes "wq_call f s = Ret () s'"
    and "\<And>w h. sp_wq s = Some w \<Longrightarrow> shspec ops (sh_abs s h) ((sh_abs s h)\<lparr>sh_queue := Some (f (swq_state w))\<rparr>)"
  shows "follows_to ops s [] s'"
proof -
  obtain w where w: "sp_wq s = Some w" "s' = s\<lparr>sp_wq := Some (w\<lparr>swq_state := f (swq_state w)\<rparr>)\<rparr>"
    using assms(1) by (auto simp: wq_call_Ret)
  show ?thesis using w(2) by (intro follows_step [OF assms(2) [OF w(1)]]) (simp_all add: agrees_def sh_abs_def)
qed

lemma queue_follows:
  "swq_queue ops item s = Ret () s' \<Longrightarrow> follows_to ops s [] s'"
  "swq_queue_front ops item s = Ret () s' \<Longrightarrow> follows_to ops s [] s'"
  by (auto simp: swq_queue_def swq_queue_front_def intro!: call_follows shspec.enqueue shspec.enqueue_front)

lemma set_wq_follows:
  assumes "\<forall>u. \<not> slive (sp_pc s u)"
  shows "follows_to ops s [] (ShardedWQ_ctor ti sti w s)"
proof -
  have "sp_pc s u \<noteq> S_processing" for u using assms by (metis slive.simps)
  then have "shspec ops (sh_abs s h) ((sh_abs s h)\<lparr>sh_queue := Some w\<rparr>)" for h by (intro shspec.attach) simp
  then show ?thesis by (rule follows_step) (simp_all add: agrees_def sh_abs_def ShardedWQ_ctor_def set_wq_def)
qed

text \<open>The two ways to go on from an entered call: into its first turn, or to wait for the workers.\<close>

lemma follows_enter:
  assumes "sp_wq s = Some w" "sp_pc s t = S_outside" "call_of p = c" "c \<noteq> No_call"
    and "\<And>h b. agrees (sgoto t p (s\<lparr>sp_wq := Some (w\<lparr>swq_state := sop_return_waiting ops (swq_state w)\<rparr>)\<rparr>))
        (h @ [Called t c]) b \<Longrightarrow> sh_running b = {u. sp_pc s u = S_processing} \<Longrightarrow>
      \<exists>d. (shspec ops)\<^sup>*\<^sup>* b d \<and> agrees s' ((h @ [Called t c]) @ evs) d \<and> sh_held d = sh_held b"
  shows "follows_to ops s (Called t c # evs) s'"
  unfolding follows_to_def
proof
  fix h
  note c = enter_call [OF assms(1-4) refl, of ops h]
  obtain d where "(shspec ops)\<^sup>*\<^sup>* (sh_abs s h) d" "agrees s' ((h @ [Called t c]) @ evs) d" "sh_held d = paused_all s"
    using assms(5) [OF c(2,4)] rtranclp_trans [OF c(1)] c(3) by metis
  then show "\<exists>b. (shspec ops)\<^sup>*\<^sup>* (sh_abs s h) b \<and> agrees s' (h @ Called t c # evs) b \<and> sh_held b = paused_all s"
    by auto
qed

lemma stop_follows:
  assumes "sp_stop_begin ops t s = Ret () s'" "sp_pc s t = S_outside"
  shows "follows_to ops s (Called t Call_stop # return_events t Call_stop s') s'"
proof -
  obtain w where w: "sp_wq s = Some w" "s' = sgoto t SC_stopping (s\<lparr>stop_threads := True,
      sp_wq := Some (w\<lparr>swq_state := sop_return_waiting ops (swq_state w)\<rparr>)\<rparr>)"
    using assms(1) by (auto simp: sp_stop_begin_def section_Ret)
  then have none: "return_events t Call_stop s' = []" by (simp add: return_events_def)
  show ?thesis unfolding none
  proof (rule follows_enter [OF w(1) assms(2), of SC_stopping])
    fix h b
    assume "agrees (sgoto t SC_stopping (s\<lparr>sp_wq := Some (w\<lparr>swq_state := sop_return_waiting ops (swq_state w)\<rparr>)\<rparr>))
        (h @ [Called t Call_stop]) b"
    then have "agrees s' ((h @ [Called t Call_stop]) @ []) b" using w(2) by (simp add: agrees_def sgoto_def)
    then show "\<exists>d. (shspec ops)\<^sup>*\<^sup>* b d \<and> agrees s' ((h @ [Called t Call_stop]) @ []) d \<and> sh_held d = sh_held b" by blast
  qed simp_all
qed

lemma stopped_follows:
  assumes "sp_stop_finish t s = Ret () s'" "sp_pc s t = SC_stopping" "sp_inv s"
  shows "follows_to ops s (return_events t Call_stop s') s'"
proof -
  have s': "s' = sgoto t S_outside (s\<lparr>threads_shardedpool := []\<rparr>)"
    and exit: "\<forall>w \<in> set (threads_shardedpool s). sp_pc s w = S_exit"
    using assms(1) by (simp_all add: sp_stop_finish_def split: if_splits)
  have "shspec ops (sh_abs s h)
      ((sh_abs s h)\<lparr>sh_call := (sh_call (sh_abs s h))(t := No_call), sh_history := h @ [Returned t Call_stop]\<rparr>)" for h
    using shspec.return [of "sh_abs s h" t Call_stop ops] stopped_idle [OF assms(3) exit] assms(2) by simp
  then show ?thesis
    by (rule follows_step) (use assms(2) s' in \<open>auto simp: agrees_def sh_abs_def sgoto_def fun_eq_iff return_events_def\<close>)
qed

lemma pause_follows:
  assumes "sp_pause ops t s = Ret () s'" "sp_pc s t = S_outside" "sp_inv s"
  shows "follows_to ops s (Called t Call_pause # return_events t Call_pause s') s'"
proof -
  obtain w where w: "sp_wq s = Some w" "s' = sp_pause_turn t (s\<lparr>pause_threads := True,
      sp_wq := Some (w\<lparr>swq_state := sop_return_waiting ops (swq_state w)\<rparr>)\<rparr>)"
    using assms(1) by (auto simp: sp_pause_def section_Ret)
  show ?thesis
  proof (rule follows_enter [OF w(1) assms(2), of SC_pausing])
    fix h b
    assume "agrees (sgoto t SC_pausing (s\<lparr>sp_wq := Some (w\<lparr>swq_state := sop_return_waiting ops (swq_state w)\<rparr>)\<rparr>))
        (h @ [Called t Call_pause]) b" "sh_running b = {u. sp_pc s u = S_processing}"
    then show "\<exists>d. (shspec ops)\<^sup>*\<^sup>* b d \<and>
        agrees s' ((h @ [Called t Call_pause]) @ return_events t Call_pause s') d \<and> sh_held d = sh_held b"
      using all_counted_idle [OF assms(3)] assms(2)
      by (intro pause_turn_abs [OF w(2)]) (auto simp: agrees_def sgoto_def)
  qed simp_all
qed

lemma drain_follows:
  assumes "sp_drain ops t s = Ret () s'" "sp_pc s t = S_outside" "sp_inv s"
  shows "follows_to ops s (Called t Call_drain # return_events t Call_drain s') s'"
proof -
  obtain w where w: "sp_wq s = Some w" "sp_drain_turn ops t (s\<lparr>drain_threads := True,
      sp_wq := Some (w\<lparr>swq_state := sop_return_waiting ops (swq_state w)\<rparr>)\<rparr>) = Ret () s'"
    using assms(1) by (auto simp: sp_drain_def section_Ret)
  show ?thesis
  proof (rule follows_enter [OF w(1) assms(2), of SC_draining])
    fix h b
    assume "agrees (sgoto t SC_draining (s\<lparr>sp_wq := Some (w\<lparr>swq_state := sop_return_waiting ops (swq_state w)\<rparr>)\<rparr>))
        (h @ [Called t Call_drain]) b" "sh_running b = {u. sp_pc s u = S_processing}"
    then show "\<exists>d. (shspec ops)\<^sup>*\<^sup>* b d \<and>
        agrees s' ((h @ [Called t Call_drain]) @ return_events t Call_drain s') d \<and> sh_held d = sh_held b"
      using all_counted_idle [OF assms(3)] assms(2)
      by (intro drain_turn_abs [OF w(2)]) (auto simp: agrees_def sgoto_def)
  qed simp_all
qed

lemma turn_follows:
  assumes "sp_inv s"
  shows "sp_pc s t = SC_pausing \<Longrightarrow>
      follows_to ops s (return_events t Call_pause (sp_pause_turn t s)) (sp_pause_turn t s)"
    "sp_pc s t = SC_draining \<Longrightarrow> sp_drain_turn ops t s = Ret () s' \<Longrightarrow>
      follows_to ops s (return_events t Call_drain s') s'"
proof -
  show "follows_to ops s (return_events t Call_pause (sp_pause_turn t s)) (sp_pause_turn t s)" if "sp_pc s t = SC_pausing"
    unfolding follows_to_def
  proof
    fix h
    show "\<exists>b. (shspec ops)\<^sup>*\<^sup>* (sh_abs s h) b \<and>
        agrees (sp_pause_turn t s) (h @ return_events t Call_pause (sp_pause_turn t s)) b \<and> sh_held b = paused_all s"
      using pause_turn_abs [OF refl, of t s h "sh_abs s h" ops] all_counted_idle [OF assms] that agrees_self [of s h]
      by (auto simp: agrees_def sgoto_def fun_upd_idem)
  qed
  show "follows_to ops s (return_events t Call_drain s') s'" if "sp_pc s t = SC_draining" "sp_drain_turn ops t s = Ret () s'"
    unfolding follows_to_def
  proof
    fix h
    show "\<exists>b. (shspec ops)\<^sup>*\<^sup>* (sh_abs s h) b \<and> agrees s' (h @ return_events t Call_drain s') b \<and> sh_held b = paused_all s"
      using drain_turn_abs [OF that(2), of h "sh_abs s h"] all_counted_idle [OF assms] that(1) agrees_self [of s h]
      by (auto simp: agrees_def sgoto_def fun_upd_idem)
  qed
qed

lemma unpause_abs:
  assumes "sp_unpause ops s = Ret () s'"
  shows "(shspec ops)\<^sup>*\<^sup>* (sh_abs s h) (sh_abs s' h)"
proof -
  obtain w where w: "sp_wq s = Some w" "s' = s\<lparr>pause_threads := False,
      sp_wq := Some (w\<lparr>swq_state := sop_stop_return_waiting ops (swq_state w)\<rparr>), shardedpool_cond := []\<rparr>"
    using assms by (auto simp: sp_unpause_def section_Ret)
  let ?b = "(sh_abs s h)\<lparr>sh_queue := Some (sop_stop_return_waiting ops (swq_state w))\<rparr>"
  have "shspec ops (sh_abs s h) ?b" using w(1) by (intro shspec.signal) simp_all
  moreover have "shspec ops ?b (?b\<lparr>sh_held := False\<rparr>)" by (rule shspec.release)
  moreover have "?b\<lparr>sh_held := False\<rparr> = sh_abs s' h" using w(2) by (simp add: sh_abs_def paused_all_def)
  ultimately show ?thesis by (metis rtranclp.rtrancl_into_rtrancl r_into_rtranclp)
qed

lemma other_follows:
  assumes "spstep ops a s s'" "a \<in> {A_wake, A_queue, A_set_wq, A_start}"
  shows "follows_to ops s [] s'"
  using assms(1)
proof (cases rule: spstep.cases)
  case (wake_up ts)
  then show ?thesis by (intro follows_same) (simp add: agrees_def sh_abs_def)
next
  case (wait_wake_up ts)
  then show ?thesis by (intro follows_same) (simp add: agrees_def sh_abs_def)
next
  case (start ws)
  then show ?thesis by (intro follows_same start_agrees) (simp_all add: sp_start_def)
next
  case (set_wq ti sti w)
  then show ?thesis using set_wq_follows by simp
qed (use assms(2) in \<open>auto intro: queue_follows\<close>)

lemma event_abs:
  assumes "sp_reach ops s" "spevent ops evs s s'"
  shows "(shspec ops)\<^sup>*\<^sup>* (sh_abs s h) (sh_abs s' (h @ evs))"
proof -
  have inv: "sp_inv s" using sp_reach_inv [OF assms(1)] by simp
  have finish: "(shspec ops)\<^sup>*\<^sup>* (sh_abs s h) (sh_abs s' (h @ evs))"
    if "follows_to ops s evs s'" "spstep ops a s s'" "a \<noteq> A_unpause" for a
    using caller_settle [OF assms(1) that(2,3)] that(1) unfolding follows_to_def by blast
  show ?thesis
    using assms(2)
  proof (cases rule: spevent.cases)
    case (worker e t)
    then show ?thesis using worker_abs [OF assms(1)] by simp
  next
    case (pause t)
    then show ?thesis using finish [OF _ spstep.pause] pause_follows [OF _ _ inv] by blast
  next
    case (pausing t)
    then have "spstep ops A_pause s s'" using spstep.pausing [of s t ops] by simp
    from finish [OF _ this] show ?thesis using turn_follows(1) [OF inv pausing(3), of ops] pausing(1,2) by simp
  next
    case (drain t)
    then show ?thesis using finish [OF _ spstep.drain] drain_follows [OF _ _ inv] by blast
  next
    case (draining t)
    then show ?thesis using finish [OF _ spstep.draining] turn_follows(2) [OF inv] by blast
  next
    case (stop t)
    then show ?thesis using finish [OF _ spstep.stop] stop_follows by blast
  next
    case (stopped t)
    then show ?thesis using finish [OF _ spstep.stopped] stopped_follows [OF _ _ inv] by blast
  next
    case (other a)
    show ?thesis
    proof (cases "a = A_unpause")
      case True
      have "sp_unpause ops s = Ret () s'" using other(2) unfolding True by (cases rule: spstep.cases)
      then show ?thesis using unpause_abs [of ops s s' h] other(1) by simp
    next
      case False
      then show ?thesis using finish [OF _ other(2)] other_follows [OF other(2)] other(1,3) by simp
    qed
  qed
qed

section \<open>The refinement\<close>

interpretation spr: simulation "sp_traced ops" "\<lambda>x. sp_reach ops (fst x)" "shspec ops" "\<lambda>x. sh_abs (fst x) (snd x)" for ops
proof unfold_locales
  fix x y :: "'a ShardedThreadPool \<times> sevent list"
  assume reach: "sp_reach ops (fst x)" and "sp_traced ops x y"
  then obtain evs where evs: "spevent ops evs (fst x) (fst y)" "snd y = snd x @ evs" by (auto simp: sp_traced_def)
  then show "sp_reach ops (fst y)" using spevent_step sp_reach.step [OF reach] by blast
  show "(shspec ops)\<^sup>*\<^sup>* (sh_abs (fst x) (snd x)) (sh_abs (fst y) (snd y))" using event_abs [OF reach evs(1)] evs(2) by simp
qed

text \<open>
  C10: the sharded pool does what its specification says. Every run of the pool, for every subclass of
  the queue, has a history of the calls of \<^verbatim>\<open>pause()\<close>, \<^verbatim>\<open>drain()\<close> and \<^verbatim>\<open>stop()\<close>, of their returns, also of those
  that return at once, and of the beginnings and ends of the processing of shards. With any such history the run is
  a run of an abstract machine that knows the queue, the
  workers that are processing, whether the pool is held, and the calls in progress, and that writes the
  same history: a worker begins only
  while the pool is not held, the queue is changed only by its clients, by processing and by the
  two signals of the pool, and \<^verbatim>\<open>pause()\<close>, \<^verbatim>\<open>drain()\<close> and \<^verbatim>\<open>stop()\<close> return only when nobody is processing. So
  no return stands in the history between the beginning and the end of the processing of a shard, and
  nobody is processing while the pause flag is up and all threads are counted as paused.
\<close>
theorem sharded_refines_spec:
  assumes "sp_run ops (\<lambda>_. True) (ShardedThreadPool_ctor hb nm tn n) s"
  shows "(\<exists>h. (sp_traced ops)\<^sup>*\<^sup>* (ShardedThreadPool_ctor hb nm tn n, []) (s, h)) \<and>
    (\<forall>h. (sp_traced ops)\<^sup>*\<^sup>* (ShardedThreadPool_ctor hb nm tn n, []) (s, h) \<longrightarrow>
      (shspec ops)\<^sup>*\<^sup>* sh_start (sh_abs s h) \<and> quiet_returns {} h \<and>
      (\<forall>s' h'. (sp_traced ops)\<^sup>*\<^sup>* (s, h) (s', h') \<longrightarrow> (shspec ops)\<^sup>*\<^sup>* (sh_abs s h) (sh_abs s' h'))) \<and>
    (pause_threads s \<and> num_threads s = num_paused s \<longrightarrow> (\<forall>t. sp_pc s t \<noteq> S_processing))"
proof -
  let ?init = "ShardedThreadPool_ctor hb nm tn n"
  have reach: "sp_reach ops ?init" "sp_reach ops s" using sp_reach.start sp_run_reach [OF assms] by blast+
  obtain h0 where h0: "(sp_traced ops)\<^sup>*\<^sup>* (?init, []) (s, h0)" using assms traced_run [of ops ?init "[]" s] by blast
  have run: "(shspec ops)\<^sup>*\<^sup>* sh_start (sh_abs s h)" if "(sp_traced ops)\<^sup>*\<^sup>* (?init, []) (s, h)" for h
    using spr.run_sim(2) [OF that] reach(1) by (simp add: sh_abs_ctor)
  have "quiet_returns {} h" if "(sp_traced ops)\<^sup>*\<^sup>* (?init, []) (s, h)" for h
    using sh_ok_run [OF run [OF that]] by (simp add: sh_ok_def)
  moreover have "(shspec ops)\<^sup>*\<^sup>* (sh_abs s h) (sh_abs s' h')" if "(sp_traced ops)\<^sup>*\<^sup>* (s, h) (s', h')" for h s' h'
    using spr.run_sim(2) [OF that] reach(2) by simp
  moreover have "pause_threads s \<and> num_threads s = num_paused s \<longrightarrow> (\<forall>t. sp_pc s t \<noteq> S_processing)"
    using sh_ok_run [OF run [OF h0]] by (simp add: sh_ok_def paused_all_def)
  ultimately show ?thesis using h0 run by blast
qed

text \<open>Caller 7 waits in \<^verbatim>\<open>pause()\<close>, its only worker sleeps in the pause branch, and the call returns.\<close>

theorem sharded_refines_spec_witness:
  "\<exists>s s' h. sp_reach list_shards s \<and> sp_pc s 7 = SC_pausing \<and> sp_pc s 9 = S_paused \<and> s' = sp_pause_turn 7 s \<and>
     sp_pc s' 7 = S_outside \<and> quiet_returns {} (h @ [Returned 7 Call_pause]) \<and>
     (shspec list_shards)\<^sup>*\<^sup>* sh_start (sh_abs s' (h @ [Returned 7 Call_pause]))"
proof -
  obtain s where s: "sp_reach list_shards s" "sp_pc s = (\<lambda>_. S_outside)(7 := SC_pausing, 9 := S_paused)"
    "wait_cond s = []" "num_threads s = 1" "num_paused s = 1" using shard_paused_exists by blast
  obtain hb nm tn n where run: "sp_run list_shards (\<lambda>_. True) (ShardedThreadPool_ctor hb nm tn n) s"
    using reach_run [OF s(1)] by blast
  let ?init = "ShardedThreadPool_ctor hb nm tn n" and ?s = "sp_pause_turn 7 s"
  obtain h where h: "(sp_traced list_shards)\<^sup>*\<^sup>* (?init, []) (s, h)" using sharded_refines_spec [OF run] by blast
  have out: "sp_pc ?s 7 = S_outside" using s(4,5) by (simp add: sp_pause_turn_def)
  have "sp_traced list_shards (s, h) (?s, h @ [Returned 7 Call_pause])"
    using spevent.pausing [of s 7 list_shards] s(2,3) out by (simp add: sp_traced_def return_events_def)
  with h have ev: "(sp_traced list_shards)\<^sup>*\<^sup>* (?init, []) (?s, h @ [Returned 7 Call_pause])"
    by (rule rtranclp.rtrancl_into_rtrancl)
  have "spstep list_shards A_pause s ?s" using s(2,3) by (intro spstep.pausing) simp_all
  then have "sp_run list_shards (\<lambda>_. True) ?init ?s" using sp_run_snoc [OF run] by simp
  from sharded_refines_spec [OF this] ev
  have "(shspec list_shards)\<^sup>*\<^sup>* sh_start (sh_abs ?s (h @ [Returned 7 Call_pause])) \<and>
      quiet_returns {} (h @ [Returned 7 Call_pause])" by blast
  then show ?thesis using s(1,2) out by (intro exI [of _ s] exI [of _ ?s] exI [of _ h]) simp
qed

end
