(* ===== verification/Lock_Sections.thy ===== *)
theory Lock_Sections
  imports Condvar
begin

text \<open>
  Sections of a lock are atomic. Threads run programs whose statements touch shared data only
  between taking a lock and giving it back, interleaved statement by statement; such a program
  is compared with the one in which every section is a single step. The interface
  \<open>section_lock\<close> is what this needs of the lock. It is met by a \<^verbatim>\<open>BlueMutex\<close> with any number
  of condition variables on it, where a section may also end in a wait and begin with a
  wake-up: the monitors of both thread pools.
\<close>

section \<open>Programs of sections\<close>

text \<open>
  A section starts at a point \<open>sec_start\<close>, runs statements, which may look at the data and
  choose, and may end where \<open>sec_end\<close> says so.
\<close>

record ('d, 'c) sections =
  sec_start :: "tid \<Rightarrow> 'c \<Rightarrow> bool"
  sec_stmt :: "tid \<Rightarrow> 'c \<times> 'd \<Rightarrow> 'c \<times> 'd \<Rightarrow> bool"
  sec_end :: "'c \<Rightarrow> bool"

text \<open>What can happen to a lock: it is taken, given back, used while held, or changed by nobody in particular.\<close>

record 'l lock_moves =
  lm_enter :: "tid \<Rightarrow> 'l \<Rightarrow> 'l \<Rightarrow> bool"
  lm_leave :: "tid \<Rightarrow> 'l \<Rightarrow> 'l \<Rightarrow> bool"
  lm_hold :: "tid \<Rightarrow> 'l \<Rightarrow> 'l \<Rightarrow> bool"
  lm_free :: "'l \<Rightarrow> 'l \<Rightarrow> bool"

record ('l, 'd, 'c) fine =
  f_lock :: 'l
  f_data :: 'd
  f_pc :: "tid \<Rightarrow> 'c option"

inductive fstep ::
  "'l lock_moves \<Rightarrow> ('d, 'c) sections \<Rightarrow> ('l, 'd, 'c) fine \<Rightarrow> ('l, 'd, 'c) fine \<Rightarrow> bool" for L P where
  enter: "f_pc s t = None \<Longrightarrow> sec_start P t c \<Longrightarrow> lm_enter L t (f_lock s) l \<Longrightarrow>
     fstep L P s (s\<lparr>f_lock := l, f_pc := (f_pc s)(t \<mapsto> c)\<rparr>)"
| stmt: "f_pc s t = Some c \<Longrightarrow> sec_stmt P t (c, f_data s) (c', d) \<Longrightarrow>
     fstep L P s (s\<lparr>f_data := d, f_pc := (f_pc s)(t \<mapsto> c')\<rparr>)"
| hold: "f_pc s t = Some c \<Longrightarrow> lm_hold L t (f_lock s) l \<Longrightarrow> fstep L P s (s\<lparr>f_lock := l\<rparr>)"
| leave: "f_pc s t = Some c \<Longrightarrow> sec_end P c \<Longrightarrow> lm_leave L t (f_lock s) l \<Longrightarrow>
     fstep L P s (s\<lparr>f_lock := l, f_pc := (f_pc s)(t := None)\<rparr>)"
| free: "lm_free L (f_lock s) l \<Longrightarrow> fstep L P s (s\<lparr>f_lock := l\<rparr>)"

text \<open>A whole section as one step.\<close>

definition section_run :: "('d, 'c) sections \<Rightarrow> tid \<Rightarrow> 'd \<Rightarrow> 'd \<Rightarrow> bool" where
  "section_run P t d d' \<longleftrightarrow>
     (\<exists>c c'. sec_start P t c \<and> (sec_stmt P t)\<^sup>*\<^sup>* (c, d) (c', d') \<and> sec_end P c')"

definition atomic_step :: "('d, 'c) sections \<Rightarrow> 'd \<Rightarrow> 'd \<Rightarrow> bool" where
  "atomic_step P d d' \<longleftrightarrow> (\<exists>t. section_run P t d d')"

section \<open>The interface of the lock\<close>

text \<open>
  The lock's owner is the one thread inside a section, and the data are where its statements
  have brought them from a state that whole sections reach.
\<close>

definition reached ::
  "('l \<Rightarrow> tid option) \<Rightarrow> ('l \<Rightarrow> bool) \<Rightarrow> ('d, 'c) sections \<Rightarrow> 'd \<Rightarrow> ('l, 'd, 'c) fine \<Rightarrow> bool" where
  "reached own ok P d0 s \<longleftrightarrow> ok (f_lock s) \<and> (\<forall>t. f_pc s t \<noteq> None \<longleftrightarrow> own (f_lock s) = Some t) \<and>
     (case own (f_lock s) of
        None \<Rightarrow> (atomic_step P)\<^sup>*\<^sup>* d0 (f_data s)
      | Some t \<Rightarrow> \<exists>d c. (atomic_step P)\<^sup>*\<^sup>* d0 d \<and> sec_start P t c \<and>
          (sec_stmt P t)\<^sup>*\<^sup>* (c, d) (the (f_pc s t), f_data s))"

locale section_lock =
  fixes L :: "'l lock_moves" and own :: "'l \<Rightarrow> tid option" and ok :: "'l \<Rightarrow> bool"
  assumes enter_takes: "ok l \<Longrightarrow> own l \<noteq> Some t \<Longrightarrow> lm_enter L t l l' \<Longrightarrow> own l = None \<and> own l' = Some t \<and> ok l'"
    and leave_frees: "ok l \<Longrightarrow> own l = Some t \<Longrightarrow> lm_leave L t l l' \<Longrightarrow> own l' = None \<and> ok l'"
    and hold_keeps: "ok l \<Longrightarrow> own l = Some t \<Longrightarrow> lm_hold L t l l' \<Longrightarrow> own l' = own l \<and> ok l'"
    and free_keeps: "ok l \<Longrightarrow> lm_free L l l' \<Longrightarrow> own l' = own l \<and> ok l'"
    and enter_if_free: "ok l \<Longrightarrow> own l = None \<Longrightarrow> \<exists>l'. lm_enter L t l l'"
    and leave_if_own: "ok l \<Longrightarrow> own l = Some t \<Longrightarrow> \<exists>l'. lm_leave L t l l'"
begin

lemma reached_owner:
  assumes "reached own ok P d0 s" "f_pc s t = Some c"
  shows "ok (f_lock s)" "own (f_lock s) = Some t"
  using assms unfolding reached_def by (metis, metis option.distinct(1))

lemma reached_inside:
  assumes "reached own ok P d0 s" "f_pc s t = Some c"
  obtains d c0 where "ok (f_lock s)" "own (f_lock s) = Some t" "(atomic_step P)\<^sup>*\<^sup>* d0 d" "sec_start P t c0"
    "(sec_stmt P t)\<^sup>*\<^sup>* (c0, d) (c, f_data s)"
proof -
  note o = reached_owner [OF assms]
  then show thesis using assms that unfolding reached_def by auto
qed

lemma reached_same_owner:
  "reached own ok P d0 s \<Longrightarrow> own l = own (f_lock s) \<and> ok l \<Longrightarrow> reached own ok P d0 (s\<lparr>f_lock := l\<rparr>)"
  by (simp add: reached_def split: option.splits)

lemma fstep_reached:
  assumes "fstep L P s s'" "reached own ok P d0 s"
  shows "reached own ok P d0 s'"
  using assms
proof (induction rule: fstep.induct)
  case (enter s t c l)
  have ok: "ok (f_lock s)" and pc: "\<forall>u. f_pc s u \<noteq> None \<longleftrightarrow> own (f_lock s) = Some u"
    using enter(4) by (simp_all add: reached_def)
  then have "own (f_lock s) \<noteq> Some t" using enter(1) by metis
  note l = enter_takes [OF ok this enter(3)]
  then have "(atomic_step P)\<^sup>*\<^sup>* d0 (f_data s)" using enter(4) by (simp add: reached_def)
  then show ?case using l pc enter(2) by (auto simp: reached_def)
next
  case (stmt s t c c' d)
  from stmt(3,1) obtain d1 c0 where i: "ok (f_lock s)" "own (f_lock s) = Some t" "(atomic_step P)\<^sup>*\<^sup>* d0 d1"
    "sec_start P t c0" "(sec_stmt P t)\<^sup>*\<^sup>* (c0, d1) (c, f_data s)" by (rule reached_inside)
  have "(sec_stmt P t)\<^sup>*\<^sup>* (c0, d1) (c', d)" using i(5) stmt(2) by (rule rtranclp.rtrancl_into_rtrancl)
  then show ?case using i stmt(3) by (auto simp: reached_def)
next
  case (hold s t c l)
  show ?case by (rule reached_same_owner [OF hold(3) hold_keeps [OF reached_owner [OF hold(3,1)] hold(2)]])
next
  case (leave s t c l)
  from leave(4,1) obtain d1 c0 where i: "ok (f_lock s)" "own (f_lock s) = Some t" "(atomic_step P)\<^sup>*\<^sup>* d0 d1"
    "sec_start P t c0" "(sec_stmt P t)\<^sup>*\<^sup>* (c0, d1) (c, f_data s)" by (rule reached_inside)
  note l = leave_frees [OF i(1,2) leave(3)]
  have "atomic_step P d1 (f_data s)" using i(4,5) leave(2) unfolding atomic_step_def section_run_def by blast
  with i(3) have "(atomic_step P)\<^sup>*\<^sup>* d0 (f_data s)" by (rule rtranclp.rtrancl_into_rtrancl)
  then show ?case using l i(2) leave(4) by (auto simp: reached_def)
next
  case (free s l)
  then have "ok (f_lock s)" by (simp add: reached_def)
  from free_keeps [OF this free(1)] show ?case by (rule reached_same_owner [OF free(2)])
qed

lemma runs_reached:
  assumes "(fstep L P)\<^sup>*\<^sup>* s s'" "ok (f_lock s)" "own (f_lock s) = None" "f_pc s = (\<lambda>_. None)"
  shows "reached own ok P (f_data s) s'"
  using assms(1)
proof (induction rule: rtranclp_induct)
  case base
  show ?case using assms(2-4) by (simp add: reached_def)
next
  case (step x y)
  show ?case by (rule fstep_reached [OF step(2,3)])
qed

text \<open>Conversely a section can be run statement by statement.\<close>

lemma section_fine:
  assumes "section_run P t (f_data s) d" "ok (f_lock s)" "own (f_lock s) = None" "f_pc s = (\<lambda>_. None)"
  obtains l where "(fstep L P)\<^sup>*\<^sup>* s (s\<lparr>f_lock := l, f_data := d\<rparr>)" "ok l" "own l = None"
proof -
  obtain c c' where c: "sec_start P t c" "(sec_stmt P t)\<^sup>*\<^sup>* (c, f_data s) (c', d)" "sec_end P c'"
    using assms(1) by (auto simp: section_run_def)
  obtain l1 where l1: "lm_enter L t (f_lock s) l1" using enter_if_free [OF assms(2,3)] by blast
  have ok1: "own l1 = Some t" "ok l1" using enter_takes [OF assms(2) _ l1] assms(3) by simp_all
  let ?s = "\<lambda>c d. s\<lparr>f_lock := l1, f_data := d, f_pc := (f_pc s)(t \<mapsto> c)\<rparr>"
  have "fstep L P s (s\<lparr>f_lock := l1, f_pc := (f_pc s)(t \<mapsto> c)\<rparr>)"
    using assms(4) c(1) l1 by (intro fstep.enter) simp_all
  then have first: "fstep L P s (?s c (f_data s))" by simp
  have "(fstep L P)\<^sup>*\<^sup>* (?s c (f_data s)) (?s (fst x) (snd x))" if "(sec_stmt P t)\<^sup>*\<^sup>* (c, f_data s) x" for x
    using that
  proof (induction rule: rtranclp_induct)
    case (step x y)
    have "fstep L P (?s (fst x) (snd x)) (?s (fst y) (snd y))"
      using fstep.stmt [of "?s (fst x) (snd x)" t "fst x" P "fst y" "snd y" L] step(2) by simp
    with step(3) show ?case by (rule rtranclp.rtrancl_into_rtrancl)
  qed simp
  from this [OF c(2)] have mid: "(fstep L P)\<^sup>*\<^sup>* (?s c (f_data s)) (?s c' d)" by simp
  obtain l2 where l2: "lm_leave L t l1 l2" using leave_if_own [OF ok1(2,1)] by blast
  have "fstep L P (?s c' d) ((?s c' d)\<lparr>f_lock := l2, f_pc := (f_pc (?s c' d))(t := None)\<rparr>)"
    using c(3) l2 by (intro fstep.leave) simp_all
  moreover have "(?s c' d)\<lparr>f_lock := l2, f_pc := (f_pc (?s c' d))(t := None)\<rparr> = s\<lparr>f_lock := l2, f_data := d\<rparr>"
    using assms(4) by (simp add: fun_upd_idem)
  ultimately have last: "fstep L P (?s c' d) (s\<lparr>f_lock := l2, f_data := d\<rparr>)" by simp
  have "(fstep L P)\<^sup>*\<^sup>* s (s\<lparr>f_lock := l2, f_data := d\<rparr>)"
    using converse_rtranclp_into_rtranclp [of "fstep L P", OF first mid] last by (rule rtranclp.rtrancl_into_rtrancl)
  moreover have "ok l2" "own l2 = None" using leave_frees [OF ok1(2,1) l2] by simp_all
  ultimately show thesis by (rule that)
qed

lemma atomic_fine:
  assumes "(atomic_step P)\<^sup>*\<^sup>* (f_data s) d" "ok (f_lock s)" "own (f_lock s) = None" "f_pc s = (\<lambda>_. None)"
  shows "\<exists>l. (fstep L P)\<^sup>*\<^sup>* s (s\<lparr>f_lock := l, f_data := d\<rparr>) \<and> ok l \<and> own l = None"
  using assms(1)
proof (induction rule: rtranclp_induct)
  case base
  show ?case using assms(2,3) by (intro exI [of _ "f_lock s"]) simp
next
  case (step d d')
  then obtain l where l: "(fstep L P)\<^sup>*\<^sup>* s (s\<lparr>f_lock := l, f_data := d\<rparr>)" "ok l" "own l = None" by blast
  let ?s = "s\<lparr>f_lock := l, f_data := d\<rparr>"
  obtain t where "section_run P t (f_data ?s) d'" using step(2) by (auto simp: atomic_step_def)
  then obtain l' where "(fstep L P)\<^sup>*\<^sup>* ?s (?s\<lparr>f_lock := l', f_data := d'\<rparr>)" "ok l'" "own l' = None"
    by (rule section_fine) (use l(2,3) assms(4) in simp_all)
  then show ?case using l(1) by (intro exI [of _ l']) simp
qed

text \<open>With nobody inside, statement by statement reaches exactly what whole sections reach.\<close>

lemma same_data:
  assumes "ok (f_lock s)" "own (f_lock s) = None" "f_pc s = (\<lambda>_. None)"
  shows "(\<exists>s'. (fstep L P)\<^sup>*\<^sup>* s s' \<and> f_data s' = d \<and> (\<forall>t. f_pc s' t = None)) \<longleftrightarrow>
    (atomic_step P)\<^sup>*\<^sup>* (f_data s) d"
proof
  assume "\<exists>s'. (fstep L P)\<^sup>*\<^sup>* s s' \<and> f_data s' = d \<and> (\<forall>t. f_pc s' t = None)"
  then obtain s' where s': "(fstep L P)\<^sup>*\<^sup>* s s'" "f_data s' = d" "\<forall>t. f_pc s' t = None" by blast
  have r: "reached own ok P (f_data s) s'" by (rule runs_reached [OF s'(1) assms])
  then have "own (f_lock s') = None" using s'(3) unfolding reached_def by (metis not_None_eq)
  then show "(atomic_step P)\<^sup>*\<^sup>* (f_data s) d" using r s'(2) by (simp add: reached_def)
next
  assume "(atomic_step P)\<^sup>*\<^sup>* (f_data s) d"
  from atomic_fine [OF this assms] obtain l where "(fstep L P)\<^sup>*\<^sup>* s (s\<lparr>f_lock := l, f_data := d\<rparr>)" by blast
  then show "\<exists>s'. (fstep L P)\<^sup>*\<^sup>* s s' \<and> f_data s' = d \<and> (\<forall>t. f_pc s' t = None)"
    using assms(3) by (intro exI [of _ "s\<lparr>f_lock := l, f_data := d\<rparr>"]) simp
qed

lemma inside_owns:
  assumes "(fstep L P)\<^sup>*\<^sup>* s s'" "ok (f_lock s)" "own (f_lock s) = None" "f_pc s = (\<lambda>_. None)"
  shows "f_pc s' t \<noteq> None \<longleftrightarrow> own (f_lock s') = Some t"
  using runs_reached [OF assms] unfolding reached_def by blast

end

section \<open>Locks without waits\<close>

text \<open>Every lock that meets the interface of a \<^verbatim>\<open>std::lock_guard\<close> meets this one too.\<close>

definition guard_moves ::
  "(tid \<Rightarrow> 'l \<Rightarrow> (unit, 'l) outcome) \<Rightarrow> (tid \<Rightarrow> 'l \<Rightarrow> (unit, 'l) outcome) \<Rightarrow> 'l lock_moves" where
  "guard_moves lock unlock =
     \<lparr>lm_enter = (\<lambda>t l l'. lock t l = Ret () l'), lm_leave = (\<lambda>t l l'. unlock t l = Ret () l'),
      lm_hold = (\<lambda>_ _ _. False), lm_free = (\<lambda>_ _. False)\<rparr>"

sublocale lockable < sec: section_lock "guard_moves lock unlock" holder inv
proof unfold_locales
  fix l l' t
  assume ok: "inv l"
  show "holder l = None \<and> holder l' = Some t \<and> inv l'" if "lm_enter (guard_moves lock unlock) t l l'"
    using that lock_Ret_iff [OF ok, of t] lock_unlock [OF ok, of t l'] by (simp add: guard_moves_def)
  show "holder l' = None \<and> inv l'" if "holder l = Some t" "lm_leave (guard_moves lock unlock) t l l'"
    using that unlock_own [OF ok, of t] by (auto simp: guard_moves_def)
  show "\<exists>l'. lm_enter (guard_moves lock unlock) t l l'" if "holder l = None"
    using that lock_free [OF ok, of t] by (auto simp: guard_moves_def)
  show "\<exists>l'. lm_leave (guard_moves lock unlock) t l l'" if "holder l = Some t"
    using that unlock_own [OF ok, of t] by (auto simp: guard_moves_def)
qed (simp_all add: guard_moves_def)

end
