(* ===== verification/Monitor_Sections.thy ===== *)
theory Monitor_Sections
  imports Lock_Sections Threadpool_Lock
begin

text \<open>
  A monitor of the repository: one \<^verbatim>\<open>BlueMutex\<close> without the checker and condition variables on it,
  as \<^verbatim>\<open>_lock\<close>, \<^verbatim>\<open>_cond\<close> and \<^verbatim>\<open>_wait_cond\<close> of \<^verbatim>\<open>ThreadPool\<close>, or \<^verbatim>\<open>shardedpool_lock\<close>, \<^verbatim>\<open>shardedpool_cond\<close> and
  \<^verbatim>\<open>wait_cond\<close> of \<^verbatim>\<open>ShardedThreadPool\<close>. Its sections are atomic, with the operations of the mutex
  and of the condition variables as they are written.
\<close>

section \<open>A mutex and its condition variables\<close>

record sync =
  sy_ld :: lockdep_state
  sy_mx :: "nat \<Rightarrow> mutex_debug"
  sy_cv :: "nat \<Rightarrow> condvar"

definition view :: "nat \<Rightarrow> sync \<Rightarrow> cvworld" where
  "view i s = \<lparr>cv_ld = sy_ld s, cv_mx = sy_mx s, cv = sy_cv s i\<rparr>"

definition put_view :: "nat \<Rightarrow> sync \<Rightarrow> cvworld \<Rightarrow> sync" where
  "put_view i s w = s\<lparr>sy_ld := cv_ld w, sy_mx := cv_mx w, sy_cv := (sy_cv s)(i := cv w)\<rparr>"

definition on_cv :: "nat \<Rightarrow> (cvworld \<Rightarrow> ('a, cvworld) outcome) \<Rightarrow> sync \<Rightarrow> ('a, sync) outcome" where
  "on_cv i f s = lift_state (put_view i s) (f (view i s))"

text \<open>
  A section begins with \<^verbatim>\<open>lock()\<close> or when a wait returns, and ends with \<^verbatim>\<open>unlock()\<close> or in a wait, with
  or without a deadline. In between the thread may notify. A sleeper may be unblocked at any
  time; that only a sleeper returns from a wait is not needed here.
\<close>

definition monitor_moves :: "nat \<Rightarrow> sync lock_moves" where
  "monitor_moves a =
     \<lparr>lm_enter = (\<lambda>t s s'. (\<exists>bt. on_cv 0 (pool_lock t bt a) s = Ret () s') \<or>
        (\<exists>i. on_cv i (cv_wait_resume 0 t) s = Ret () s') \<or>
        (\<exists>i r st. (r = 0 \<or> r = ETIMEDOUT) \<and> on_cv i (cv_wait_until_resume r t) s = Ret st s')),
      lm_leave = (\<lambda>t s s'. on_cv 0 (pool_unlock t a) s = Ret () s' \<or>
        (\<exists>i. on_cv i (cv_wait t a) s = Block s') \<or>
        (\<exists>i dl. 0 \<le> dl \<and> on_cv i (wait_until t a dl) s = Block s')),
      lm_hold = (\<lambda>t s s'. \<exists>i. on_cv i (notify_all 0) s = Ret () s' \<or>
        (\<exists>woken. on_cv i (notify_one 0 woken) s = Ret () s')),
      lm_free = (\<lambda>s s'. \<exists>i ws. set ws \<subseteq> set (cond_waiters (sy_cv s i)) \<and>
        s' = put_view i s (set_waiters ws (view i s)))\<rparr>"

definition sync_owner :: "nat \<Rightarrow> sync \<Rightarrow> tid option" where
  "sync_owner a s = owner \<lparr>ld = sy_ld s, mu = sy_mx s a\<rparr>"

definition sync_ok :: "nat \<Rightarrow> sync \<Rightarrow> bool" where
  "sync_ok a s \<longleftrightarrow> mutex_inv (sy_mx s a) \<and> \<not> lockdep (sy_mx s a) \<and> (\<forall>i. waits_on a (view i s))"

text \<open>As the constructors leave it.\<close>

definition new_sync :: "string \<Rightarrow> sync" where
  "new_sync name = \<lparr>sy_ld = lockdep_init, sy_mx = (\<lambda>_. new_mutex name False), sy_cv = (\<lambda>_. new_condvar)\<rparr>"

section \<open>The interface is met\<close>

lemma on_cv_iff:
  "on_cv i f s = Ret x s' \<longleftrightarrow> (\<exists>w. f (view i s) = Ret x w \<and> s' = put_view i s w)"
  "on_cv i f s = Block s' \<longleftrightarrow> (\<exists>w. f (view i s) = Block w \<and> s' = put_view i s w)"
  by (auto simp: on_cv_def lift_state_eq_Ret_iff) (cases "f (view i s)"; auto)+

lemma sync_view:
  "pool_plain a (view i s) \<and> (\<forall>j. waits_on a (view j s)) \<longleftrightarrow> sync_ok a s" "pool_owner a (view i s) = sync_owner a s"
  by (auto simp: pool_plain_def plain_inv_def sync_ok_def pool_owner_def sync_owner_def view_def mutex_at_def)

lemma sync_put:
  assumes "sync_ok a s" "pool_plain a w" "waits_on a w"
  shows "sync_ok a (put_view i s w)" "sync_owner a (put_view i s w) = pool_owner a w"
proof -
  have "waits_on a (view j (put_view i s w))" for j
    using assms(1,3) by (cases "j = i") (simp_all add: waits_on_def view_def put_view_def sync_ok_def)
  then show "sync_ok a (put_view i s w)" using assms(2)
    by (simp add: sync_ok_def pool_plain_def plain_inv_def put_view_def)
  show "sync_owner a (put_view i s w) = pool_owner a w"
    by (simp add: sync_owner_def pool_owner_def put_view_def mutex_at_def)
qed

lemma sync_ok_view:
  assumes "sync_ok a s"
  shows "pool_plain a (view i s)" "waits_on a (view i s)" "mutex_inv (cv_mx (view i s) a)"
  using assms by (simp_all add: sync_ok_def pool_plain_def plain_inv_def view_def mutex_at_def)

text \<open>The mutex taken by a thread that wakes up.\<close>

lemma taken_view:
  assumes "sync_ok a s" and w_def: "w = (view i s)\<lparr>cv_mx := (cv_mx (view i s))(a := taken t (cv_mx (view i s) a))\<rparr>"
  shows "pool_plain a w" "waits_on a w" "pool_owner a w = Some t"
proof -
  note v = sync_ok_view [OF assms(1), of i]
  show "pool_plain a w" "pool_owner a w = Some t"
    using v(1) taken_inv [OF v(3), of t]
    by (simp_all add: w_def pool_plain_def plain_inv_def pool_owner_def owner_def) (simp_all add: taken_def pm_take_def)
  show "waits_on a w" using v(2) by (simp add: w_def waits_on_def)
qed

lemma wake_enters:
  assumes "sync_ok a s" "sync_owner a s \<noteq> Some t"
    and "on_cv i (cv_wait_resume 0 t) s = Ret () s' \<or>
      (r = 0 \<or> r = ETIMEDOUT) \<and> on_cv i (cv_wait_until_resume r t) s = Ret st s'"
  shows "sync_owner a s = None \<and> sync_owner a s' = Some t \<and> sync_ok a s'"
proof -
  let ?w = "view i s"
  note v = sync_ok_view [OF assms(1), of i]
  have own: "sync_owner a s = pm_owner (pm (cv_mx ?w a))" by (simp add: sync_owner_def owner_def view_def)
  obtain x where x: "cv_wait_resume 0 t ?w = Ret () x \<or> (r = 0 \<or> r = ETIMEDOUT) \<and> cv_wait_until_resume r t ?w = Ret st x"
    "s' = put_view i s x"
    using assms(3) by (auto simp: on_cv_iff)
  have wm: "waiter_mutex (cv ?w) = Some a"
    using x(1) v(2) by (auto simp: waits_on_def cv_wait_resume_def cv_wait_until_resume_def cond_relock_def)
  have free: "sync_owner a s = None"
  proof (rule ccontr)
    assume "sync_owner a s \<noteq> None"
    then obtain u where "pm_owner (pm (cv_mx ?w a)) = Some u" "u \<noteq> t" using assms(2) own by auto
    from resume_busy [OF wm this] show False using x(1) by simp
  qed
  then have "x = ?w\<lparr>cv_mx := (cv_mx ?w)(a := taken t (cv_mx ?w a))\<rparr>"
    using x(1) resume_free [OF wm v(3), of t] own by auto
  then show ?thesis
    using free x(2) sync_put [OF assms(1)] taken_view [OF assms(1), of x i t] by simp
qed

lemma lock_keeps_cv:
  "pool_lock t bt a w = Ret () w' \<Longrightarrow> cv w' = cv w" "pool_unlock t a w = Ret () w' \<Longrightarrow> cv w' = cv w"
  by (auto simp: pool_lock_def pool_unlock_def on_mutex_def lift_state_eq_Ret_iff)

lemma lock_enters:
  assumes "sync_ok a s" "on_cv i (pool_lock t bt a) s = Ret () s'"
  shows "sync_owner a s = None \<and> sync_owner a s' = Some t \<and> sync_ok a s'"
proof -
  obtain w where w: "pool_lock t bt a (view i s) = Ret () w" "s' = put_view i s w"
    using assms(2) by (auto simp: on_cv_iff)
  note v = sync_ok_view [OF assms(1), of i]
  have "pool_owner a (view i s) = None" using pl.lock_Ret_iff [OF v(1)] w(1) by blast
  moreover have "pool_owner a w = Some t" "pool_plain a w" using pl.lock_unlock [OF v(1) w(1)] by simp_all
  moreover have "waits_on a w" using v(2) lock_keeps_cv(1) [OF w(1)] by (simp add: waits_on_def)
  ultimately show ?thesis using sync_put [OF assms(1)] w(2) sync_view(2) by simp
qed

lemma unlock_leaves:
  assumes "sync_ok a s" "sync_owner a s = Some t" "on_cv i (pool_unlock t a) s = Ret () s'"
  shows "sync_owner a s' = None \<and> sync_ok a s'"
proof -
  obtain w where w: "pool_unlock t a (view i s) = Ret () w" "s' = put_view i s w"
    using assms(3) by (auto simp: on_cv_iff)
  note v = sync_ok_view [OF assms(1), of i]
  have "pool_owner a (view i s) = Some t" using assms(2) sync_view(2) by simp
  then have "pool_owner a w = None" "pool_plain a w" using pl.unlock_own [OF v(1), of t] w(1) by auto
  moreover have "waits_on a w" using v(2) lock_keeps_cv(2) [OF w(1)] by (simp add: waits_on_def)
  ultimately show ?thesis using sync_put [OF assms(1)] w(2) by simp
qed

lemma wait_leaves:
  assumes "sync_ok a s" "sync_owner a s = Some t"
    and "on_cv i (cv_wait t a) s = Block s' \<or> 0 \<le> dl \<and> on_cv i (wait_until t a dl) s = Block s'"
  shows "sync_owner a s' = None \<and> sync_ok a s'"
proof -
  note v = sync_ok_view [OF assms(1), of i]
  have own: "pool_owner a (view i s) = Some t" using assms(2) sync_view(2) by simp
  then have "pm_owner (pm (cv_mx (view i s) a)) = Some t" by (simp add: pool_owner_def owner_def)
  from cv_wait_owner [OF v(3) this v(2)] have "s' = put_view i s (asleep t a (view i s))"
    using assms(3) by (auto simp: on_cv_iff wait_until_def)
  moreover have "waits_on a (asleep t a (view i s))" by (simp add: waits_on_def asleep_def)
  ultimately show ?thesis using pool_wait_run(3,4) [OF v(1) own v(2)] sync_put [OF assms(1)] by simp
qed

lemma waiters_keep:
  assumes "sync_ok a s"
  shows "sync_owner a (put_view i s (set_waiters ws (view i s))) = sync_owner a s \<and>
    sync_ok a (put_view i s (set_waiters ws (view i s)))"
proof -
  note v = sync_ok_view [OF assms, of i]
  have "pool_plain a (set_waiters ws (view i s))" "waits_on a (set_waiters ws (view i s))"
    "pool_owner a (set_waiters ws (view i s)) = sync_owner a s"
    using v sync_view(2) [of a i s] by (simp_all add: pool_plain_def waits_on_def pool_owner_def)
  then show ?thesis using sync_put [OF assms] by simp
qed

lemma notify_keeps:
  assumes "sync_ok a s" "on_cv i (notify_all 0) s = Ret () s' \<or> on_cv i (notify_one 0 woken) s = Ret () s'"
  shows "sync_owner a s' = sync_owner a s \<and> sync_ok a s'"
proof -
  obtain ws where "s' = put_view i s (set_waiters ws (view i s))"
    using assms(2) by (auto simp: on_cv_iff notify_all_def notify_one_def outcome_inv)
  then show ?thesis using waiters_keep [OF assms(1)] by simp
qed

lemma monitor_enter:
  assumes "lm_enter (monitor_moves a) t s s'"
  obtains (lock) bt where "on_cv 0 (pool_lock t bt a) s = Ret () s'"
  | (wake) i where "on_cv i (cv_wait_resume 0 t) s = Ret () s'"
  | (timed) i r st where "r = 0 \<or> r = ETIMEDOUT" "on_cv i (cv_wait_until_resume r t) s = Ret st s'"
  using assms unfolding monitor_moves_def lock_moves.simps by blast

lemma monitor_leave:
  assumes "lm_leave (monitor_moves a) t s s'"
  obtains (unlock) "on_cv 0 (pool_unlock t a) s = Ret () s'"
  | (wait) i where "on_cv i (cv_wait t a) s = Block s'"
  | (timed) i dl where "0 \<le> dl" "on_cv i (wait_until t a dl) s = Block s'"
  using assms unfolding monitor_moves_def lock_moves.simps by blast

lemma monitor_hold:
  assumes "lm_hold (monitor_moves a) t s s'"
  obtains i woken where "on_cv i (notify_all 0) s = Ret () s' \<or> on_cv i (notify_one 0 woken) s = Ret () s'"
  using assms unfolding monitor_moves_def lock_moves.simps by blast

lemma monitor_free:
  assumes "lm_free (monitor_moves a) s s'"
  obtains i ws where "s' = put_view i s (set_waiters ws (view i s))"
  using assms unfolding monitor_moves_def lock_moves.simps by blast

interpretation msl: section_lock "monitor_moves a" "sync_owner a" "sync_ok a" for a
proof unfold_locales
  fix s s' t
  assume ok: "sync_ok a s"
  show "sync_owner a s = None \<and> sync_owner a s' = Some t \<and> sync_ok a s'"
    if "sync_owner a s \<noteq> Some t" and enter: "lm_enter (monitor_moves a) t s s'"
    using enter
  proof (cases rule: monitor_enter)
    case (lock bt)
    then show ?thesis by (rule lock_enters [OF ok])
  next
    case (wake i)
    then show ?thesis by (intro wake_enters [OF ok that(1), of i s' 0]) simp
  next
    case (timed i r st)
    then show ?thesis by (intro wake_enters [OF ok that(1), of i s' r st]) simp
  qed
  show "sync_owner a s' = None \<and> sync_ok a s'"
    if own: "sync_owner a s = Some t" and leave: "lm_leave (monitor_moves a) t s s'"
    using leave
  proof (cases rule: monitor_leave)
    case unlock
    then show ?thesis by (rule unlock_leaves [OF ok own])
  next
    case (wait i)
    then show ?thesis by (intro wait_leaves [OF ok own, of i s' 0]) simp
  next
    case (timed i dl)
    then show ?thesis by (intro wait_leaves [OF ok own, of i s' dl]) simp
  qed
  show "sync_owner a s' = sync_owner a s \<and> sync_ok a s'" if "lm_hold (monitor_moves a) t s s'"
    using that by (rule monitor_hold) (rule notify_keeps [OF ok])
  show "sync_owner a s' = sync_owner a s \<and> sync_ok a s'" if "lm_free (monitor_moves a) s s'"
    using that by (rule monitor_free) (use waiters_keep [OF ok] in simp)
  show "\<exists>s'. lm_enter (monitor_moves a) t s s'" if free: "sync_owner a s = None"
  proof -
    obtain w where "pool_lock t bt_demo a (view 0 s) = Ret () w"
      using pl.lock_free [OF sync_ok_view(1) [OF ok], of 0 t bt_demo] free sync_view(2) [of a 0 s] by auto
    then have "on_cv 0 (pool_lock t bt_demo a) s = Ret () (put_view 0 s w)" by (simp add: on_cv_def)
    then show ?thesis unfolding monitor_moves_def lock_moves.simps by blast
  qed
  show "\<exists>s'. lm_leave (monitor_moves a) t s s'" if own: "sync_owner a s = Some t"
  proof -
    obtain w where "pool_unlock t a (view 0 s) = Ret () w"
      using pl.unlock_own [OF sync_ok_view(1) [OF ok], of 0 t] own sync_view(2) [of a 0 s] by auto
    then have "on_cv 0 (pool_unlock t a) s = Ret () (put_view 0 s w)" by (simp add: on_cv_def)
    then show ?thesis unfolding monitor_moves_def lock_moves.simps by blast
  qed
qed

lemma new_sync_ok: "sync_ok a (new_sync name)" "sync_owner a (new_sync name) = None"
  by (simp_all add: new_sync_def sync_ok_def sync_owner_def owner_def view_def waits_on_def new_condvar_def)
    (simp_all add: new_mutex_def mutex_inv_def pthread_mutex_init_def)

section \<open>Sections are atomic\<close>

text \<open>
  C9: the sections of a monitor are atomic. Let threads run any programs whose statements touch
  shared data only between \<^verbatim>\<open>lock()\<close> (or the return of a wait) and \<^verbatim>\<open>unlock()\<close> (or the next wait) of one
  \<^verbatim>\<open>BlueMutex\<close>, interleaved statement by statement, notifying as they like, with spurious wake-ups.
  In every state a thread is inside a section exactly when the mutex is its own, and the data that such
  runs leave behind with nobody inside are exactly the data of runs in which every section is one
  step.
\<close>
theorem monitor_sections_atomic:
  assumes "sync_ok a (f_lock s)" "sync_owner a (f_lock s) = None" "f_pc s = (\<lambda>_. None)"
  shows "(\<forall>s' t. (fstep (monitor_moves a) P)\<^sup>*\<^sup>* s s' \<longrightarrow> (f_pc s' t \<noteq> None \<longleftrightarrow> sync_owner a (f_lock s') = Some t)) \<and>
    ((\<exists>s'. (fstep (monitor_moves a) P)\<^sup>*\<^sup>* s s' \<and> f_data s' = d \<and> (\<forall>t. f_pc s' t = None)) \<longleftrightarrow>
     (atomic_step P)\<^sup>*\<^sup>* (f_data s) d)"
  using msl.inside_owns [OF _ assms] msl.same_data [OF assms] by blast

text \<open>A program that reads a shared counter in one statement and writes it in the next, run twice.\<close>

definition count_sections :: "(nat, nat option) sections" where
  "count_sections =
     \<lparr>sec_start = (\<lambda>_ c. c = None),
      sec_stmt = (\<lambda>_ x y. (fst x = None \<and> y = (Some (snd x), snd x)) \<or> (\<exists>n. fst x = Some n \<and> y = (Some n, n + 1))),
      sec_end = (\<lambda>c. c \<noteq> None)\<rparr>"

lemma count_once: "atomic_step count_sections n (n + 1)"
proof -
  have "sec_stmt count_sections 7 (None, n) (Some n, n)" "sec_stmt count_sections 7 (Some n, n) (Some n, n + 1)"
    by (simp_all add: count_sections_def)
  then have "(sec_stmt count_sections 7)\<^sup>*\<^sup>* (None, n) (Some n, n + 1)" by (metis rtranclp.simps)
  then show ?thesis
    unfolding atomic_step_def section_run_def by (intro exI [of _ 7] exI [of _ None] exI [of _ "Some n"])
      (simp add: count_sections_def)
qed

theorem monitor_sections_atomic_witness:
  "\<exists>s'. (fstep (monitor_moves 0) count_sections)\<^sup>*\<^sup>* \<lparr>f_lock = new_sync ''m'', f_data = 0, f_pc = (\<lambda>_. None)\<rparr> s' \<and>
     f_data s' = 2 \<and> (\<forall>t. f_pc s' t = None)"
proof -
  have "atomic_step count_sections 0 1" "atomic_step count_sections 1 2"
    using count_once [of 0] count_once [of 1] by (simp_all add: numeral_2_eq_2)
  then have "(atomic_step count_sections)\<^sup>*\<^sup>* 0 2" by (metis rtranclp.simps)
  then show ?thesis
    using monitor_sections_atomic [of 0 "\<lparr>f_lock = new_sync ''m'', f_data = 0, f_pc = (\<lambda>_. None)\<rparr>" count_sections 2]
    by (simp add: new_sync_ok)
qed

end
