(* ===== verification/Queue_Sections.thy ===== *)
theory Queue_Sections
  imports Lock_Sections Threadpool_Props
begin

text \<open>
  The methods of \<^verbatim>\<open>WorkQueueVal\<close> (\<^verbatim>\<open>thread/threadpool.h\<close>) statement by statement, under the
  queue's own \<^verbatim>\<open>_lock\<close>, against the functions of \<open>Threadpool\<close> that take each of their locked
  stretches as one step.
\<close>

section \<open>The methods as programs\<close>

text \<open>
  Between two statements of \<^verbatim>\<open>_void_dequeue\<close> (\<open>D\<close>), of \<^verbatim>\<open>_void_process\<close> (\<open>P\<close>, the stretches before
  and after the call of \<^verbatim>\<open>_process\<close>) and of \<^verbatim>\<open>_void_process_finish\<close> (\<open>F\<close>); \<open>Q_out\<close> is the end of a stretch.
\<close>

datatype 'u qpoint =
    D_test
  | D_dequeue
  | D_push 'u
  | P_check
  | P_front
  | P_pop 'u
  | P_push
  | F_check
  | F_front
  | F_pop 'u
  | Q_out

text \<open>
  The pool, and of each worker what \<^verbatim>\<open>_void_dequeue\<close> returned and the local \<^verbatim>\<open>u\<close> of \<^verbatim>\<open>_void_process\<close>
  while \<^verbatim>\<open>_process(u)\<close> runs.
\<close>

record ('q, 'u) queue_run =
  qr_pool :: "('q, 'u) ThreadPool"
  qr_item :: "tid \<Rightarrow> bool"
  qr_u :: "tid \<Rightarrow> 'u option"

definition set_item :: "tid \<Rightarrow> bool \<Rightarrow> ('q, 'u) queue_run \<Rightarrow> ('q, 'u) queue_run" where
  "set_item t b d = d\<lparr>qr_item := (qr_item d)(t := b)\<rparr>"

definition set_u :: "tid \<Rightarrow> 'u option \<Rightarrow> ('q, 'u) queue_run \<Rightarrow> ('q, 'u) queue_run" where
  "set_u t u d = d\<lparr>qr_u := (qr_u d)(t := u)\<rparr>"

definition on_queue ::
  "nat \<Rightarrow> (('q, 'u) WorkQueueVal \<Rightarrow> ('q, 'u) WorkQueueVal) \<Rightarrow> ('q, 'u) queue_run \<Rightarrow> ('q, 'u) queue_run" where
  "on_queue q f d = d\<lparr>qr_pool := upd_wq q f (qr_pool d)\<rparr>"

text \<open>One statement. The last case of \<open>F_pop\<close> also notes the item as finished, as the pool's history does.\<close>

fun queue_stmt ::
  "('q, 'u) wq_ops \<Rightarrow> nat \<Rightarrow> tid \<Rightarrow> 'u qpoint \<Rightarrow> ('q, 'u) queue_run \<Rightarrow> ('u qpoint, ('q, 'u) queue_run) outcome" where
  "queue_stmt ops q t D_test d =
     (if op_empty ops (wq_items (wqs (qr_pool d) q)) then Ret Q_out (set_item t False d) else Ret D_dequeue d)"
| "queue_stmt ops q t D_dequeue d =
     (case op_dequeue ops (wq_items (wqs (qr_pool d) q)) of
        None \<Rightarrow> Abort
      | Some (u, c) \<Rightarrow> Ret (D_push u) (on_queue q (\<lambda>w. w\<lparr>wq_items := c\<rparr>) d))"
| "queue_stmt ops q t (D_push u) d =
     Ret Q_out (set_item t True (on_queue q (\<lambda>w. w\<lparr>to_process := to_process w @ [u]\<rparr>) d))"
| "queue_stmt ops q t P_check d =
     bind (assert_that (to_process (wqs (qr_pool d) q) \<noteq> []) d) (\<lambda>_ d. Ret P_front d)"
| "queue_stmt ops q t P_front d = Ret (P_pop (hd (to_process (wqs (qr_pool d) q)))) d"
| "queue_stmt ops q t (P_pop u) d =
     Ret Q_out (set_u t (Some u) (on_queue q (\<lambda>w. w\<lparr>to_process := tl (to_process w)\<rparr>) d))"
| "queue_stmt ops q t P_push d =
     (case qr_u d t of
        None \<Rightarrow> Block d
      | Some u \<Rightarrow> Ret Q_out (set_u t None (on_queue q (\<lambda>w. w\<lparr>to_finish := to_finish w @ [u]\<rparr>) d)))"
| "queue_stmt ops q t F_check d =
     bind (assert_that (to_finish (wqs (qr_pool d) q) \<noteq> []) d) (\<lambda>_ d. Ret F_front d)"
| "queue_stmt ops q t F_front d = Ret (F_pop (hd (to_finish (wqs (qr_pool d) q)))) d"
| "queue_stmt ops q t (F_pop u) d =
     (let d1 = on_queue q (\<lambda>w. w\<lparr>to_finish := tl (to_finish w)\<rparr>) d; s = qr_pool d1
      in Ret Q_out (d1\<lparr>qr_pool := s\<lparr>tp_finished := (tp_finished s)(q := add_mset u (tp_finished s q))\<rparr>\<rparr>))"
| "queue_stmt ops q t Q_out d = Block d"

definition queue_sections :: "('q, 'u) wq_ops \<Rightarrow> nat \<Rightarrow> (('q, 'u) queue_run, 'u qpoint) sections" where
  "queue_sections ops q =
     \<lparr>sec_start = (\<lambda>_ c. c = D_test \<or> c = P_check \<or> c = P_push \<or> c = F_check),
      sec_stmt = (\<lambda>t x y. queue_stmt ops q t (fst x) (snd x) = Ret (fst y) (snd y)),
      sec_end = (\<lambda>c. c = Q_out)\<rparr>"

text \<open>The same four stretches as the pool's model has them.\<close>

inductive queue_call ::
  "('q, 'u) wq_ops \<Rightarrow> nat \<Rightarrow> tid \<Rightarrow> ('q, 'u) queue_run \<Rightarrow> ('q, 'u) queue_run \<Rightarrow> bool" for ops q t where
  dequeue: "void_dequeue ops q (qr_pool d) = Ret b s \<Longrightarrow> queue_call ops q t d (set_item t b (d\<lparr>qr_pool := s\<rparr>))"
| take: "void_process_take q (qr_pool d) = Ret u s \<Longrightarrow> queue_call ops q t d (set_u t (Some u) (d\<lparr>qr_pool := s\<rparr>))"
| put: "qr_u d t = Some u \<Longrightarrow>
    queue_call ops q t d (set_u t None (d\<lparr>qr_pool := void_process_put q u (qr_pool d)\<rparr>))"
| finish: "void_process_finish q (qr_pool d) = Ret u s \<Longrightarrow> queue_call ops q t d (d\<lparr>qr_pool := s\<rparr>)"

inductive_simps queue_call_iff: "queue_call ops q t d d'"

section \<open>A stretch is one step of the model\<close>

definition ends_in ::
  "('q, 'u) wq_ops \<Rightarrow> nat \<Rightarrow> tid \<Rightarrow> 'u qpoint \<Rightarrow> ('q, 'u) queue_run \<Rightarrow> ('q, 'u) queue_run \<Rightarrow> bool" where
  "ends_in ops q t c d d' \<longleftrightarrow> (sec_stmt (queue_sections ops q) t)\<^sup>*\<^sup>* (c, d) (Q_out, d')"

lemma sec_stmt_queue:
  "sec_stmt (queue_sections ops q) t (c, d) (c', d') \<longleftrightarrow> queue_stmt ops q t c d = Ret c' d'"
  by (simp add: queue_sections_def)

lemma ends_in_out [simp]: "ends_in ops q t Q_out d d' \<longleftrightarrow> d' = d"
proof
  assume "ends_in ops q t Q_out d d'"
  then show "d' = d" unfolding ends_in_def
    by (cases rule: converse_rtranclpE) (auto simp: queue_sections_def)
qed (simp add: ends_in_def)

lemma ends_in_step:
  assumes "c \<noteq> Q_out"
  shows "ends_in ops q t c d d' \<longleftrightarrow> (\<exists>c1 d1. queue_stmt ops q t c d = Ret c1 d1 \<and> ends_in ops q t c1 d1 d')"
proof
  assume "ends_in ops q t c d d'"
  then show "\<exists>c1 d1. queue_stmt ops q t c d = Ret c1 d1 \<and> ends_in ops q t c1 d1 d'"
    unfolding ends_in_def using assms by (cases rule: converse_rtranclpE) (auto simp: queue_sections_def)
next
  assume "\<exists>c1 d1. queue_stmt ops q t c d = Ret c1 d1 \<and> ends_in ops q t c1 d1 d'"
  then obtain c1 d1 where "queue_stmt ops q t c d = Ret c1 d1" "ends_in ops q t c1 d1 d'" by blast
  then show "ends_in ops q t c d d'"
    unfolding ends_in_def sec_stmt_queue [symmetric] by (rule converse_rtranclp_into_rtranclp)
qed

lemma upd_wq_twice: "upd_wq q f (upd_wq q g s) = upd_wq q (f \<circ> g) s"
  by (simp add: upd_wq_def)

lemma on_queue_pool [simp]: "qr_pool (on_queue q f d) = upd_wq q f (qr_pool d)"
  by (simp add: on_queue_def)

lemma dequeue_ends:
  "ends_in ops q t D_test d d' \<longleftrightarrow>
     (\<exists>b s. void_dequeue ops q (qr_pool d) = Ret b s \<and> d' = set_item t b (d\<lparr>qr_pool := s\<rparr>))"
  by (auto simp: ends_in_step void_dequeue_def on_queue_def upd_wq_twice comp_def split: option.splits)

lemma take_ends:
  "ends_in ops q t P_check d d' \<longleftrightarrow>
     (\<exists>u s. void_process_take q (qr_pool d) = Ret u s \<and> d' = set_u t (Some u) (d\<lparr>qr_pool := s\<rparr>))"
  by (auto simp: ends_in_step void_process_take_def on_queue_def outcome_inv)

lemma put_ends:
  "ends_in ops q t P_push d d' \<longleftrightarrow>
     (\<exists>u. qr_u d t = Some u \<and> d' = set_u t None (d\<lparr>qr_pool := void_process_put q u (qr_pool d)\<rparr>))"
  by (auto simp: ends_in_step void_process_put_def on_queue_def split: option.splits)

lemma finish_ends:
  "ends_in ops q t F_check d d' \<longleftrightarrow>
     (\<exists>u s. void_process_finish q (qr_pool d) = Ret u s \<and> d' = d\<lparr>qr_pool := s\<rparr>)"
  by (auto simp: ends_in_step void_process_finish_def on_queue_def outcome_inv Let_def)

lemma section_run_queue: "section_run (queue_sections ops q) t d d' \<longleftrightarrow> queue_call ops q t d d'"
proof -
  have "section_run (queue_sections ops q) t d d' \<longleftrightarrow>
      ends_in ops q t D_test d d' \<or> ends_in ops q t P_check d d' \<or> ends_in ops q t P_push d d' \<or>
      ends_in ops q t F_check d d'"
    unfolding section_run_def ends_in_def by (auto simp: queue_sections_def)
  then show ?thesis by (simp add: dequeue_ends take_ends put_ends finish_ends queue_call_iff) blast
qed

lemma atomic_step_queue: "atomic_step (queue_sections ops q) = (\<lambda>d d'. \<exists>t. queue_call ops q t d d')"
  by (simp add: fun_eq_iff atomic_step_def section_run_queue)

text \<open>
  C8: the methods of a queue are atomic. Let workers call \<^verbatim>\<open>_void_dequeue\<close>, \<^verbatim>\<open>_void_process\<close> and
  \<^verbatim>\<open>_void_process_finish\<close> in any order, their statements interleaved in any way, each taking and
  giving back the queue's \<^verbatim>\<open>_lock\<close>. With nobody inside, they have the pool's queues and every worker's
  item exactly where sequences of the four functions of the pool's model can bring them.
\<close>
theorem queue_methods_atomic:
  fixes d :: "('q, 'u) queue_run"
  assumes "plain_inv (f_lock s)" "owner (f_lock s) = None" "f_pc s = (\<lambda>_. None)"
  shows "(\<exists>s'. (fstep (guard_moves (\<lambda>t. mutex_lock t bt) mutex_unlock) (queue_sections ops q))\<^sup>*\<^sup>* s s' \<and>
       f_data s' = d \<and> (\<forall>t. f_pc s' t = None)) \<longleftrightarrow>
    (\<lambda>d d'. \<exists>t. queue_call ops q t d d')\<^sup>*\<^sup>* (f_data s) d"
  using blue.sec.same_data [OF assms, of bt "queue_sections ops q" d] unfolding atomic_step_queue .

theorem queue_methods_atomic_witness:
  "\<exists>s'. (fstep (guard_moves (\<lambda>t. mutex_lock t bt_demo) mutex_unlock) (queue_sections test_ops 0))\<^sup>*\<^sup>*
      \<lparr>f_lock = \<lparr>ld = lockdep_init, mu = new_mutex ''q'' False\<rparr>,
       f_data = \<lparr>qr_pool = tp1, qr_item = (\<lambda>_. False), qr_u = (\<lambda>_. None)\<rparr>, f_pc = (\<lambda>_. None)\<rparr> s' \<and>
     qr_u (f_data s') 7 = Some 42 \<and> to_process (wqs (qr_pool (f_data s')) 0) = [] \<and> (\<forall>t. f_pc s' t = None)"
proof -
  let ?d = "\<lparr>qr_pool = tp1, qr_item = (\<lambda>_. False), qr_u = (\<lambda>_. None)\<rparr>"
  let ?s = "\<lparr>f_lock = \<lparr>ld = lockdep_init, mu = new_mutex ''q'' False\<rparr>, f_data = ?d, f_pc = (\<lambda>_. None)\<rparr>"
  have items: "wq_items (wqs tp1 0) = [42]" "to_process (wqs tp1 0) = []"
    by (simp_all add: tp1_def wq_queue_def notify_workers_def note_queued_def upd_wq_def add_work_queue_def
        tp0_def ThreadPool_ctor_def test_ops_def)
  obtain s1 where s1: "void_dequeue test_ops 0 tp1 = Ret True s1" "to_process (wqs s1 0) = [42]"
    using items by (simp add: void_dequeue_def test_ops_def upd_wq_def)
  obtain s2 where s2: "void_process_take 0 s1 = Ret 42 s2" "to_process (wqs s2 0) = []"
    using s1(2) by (simp add: void_process_take_def assert_that_def upd_wq_def)
  let ?d1 = "set_item 7 True (?d\<lparr>qr_pool := s1\<rparr>)"
  let ?d2 = "set_u 7 (Some 42) (?d1\<lparr>qr_pool := s2\<rparr>)"
  have "queue_call test_ops 0 7 ?d ?d1" using s1(1) by (intro queue_call.dequeue) simp
  moreover have "queue_call test_ops 0 7 ?d1 ?d2" using s2(1) by (intro queue_call.take) (simp add: set_item_def)
  ultimately have "(\<lambda>d d'. \<exists>t. queue_call test_ops 0 t d d')\<^sup>*\<^sup>* ?d ?d2"
    by (intro rtranclp.rtrancl_into_rtrancl [OF r_into_rtranclp]) (rule exI, assumption)+
  moreover have "plain_inv (f_lock ?s)" "owner (f_lock ?s) = None"
    by (simp_all add: plain_inv_def mutex_inv_def owner_def new_mutex_def pthread_mutex_init_def)
  ultimately obtain s' where "(fstep (guard_moves (\<lambda>t. mutex_lock t bt_demo) mutex_unlock) (queue_sections test_ops 0))\<^sup>*\<^sup>* ?s s'"
    "f_data s' = ?d2" "\<forall>t. f_pc s' t = None"
    using queue_methods_atomic [of ?s bt_demo test_ops 0 ?d2] by auto
  moreover have "qr_u ?d2 7 = Some 42" "to_process (wqs (qr_pool ?d2) 0) = []" using s2(2) by (simp_all add: set_u_def)
  ultimately show ?thesis by metis
qed

end
