(* ===== verification/Test_Queue.thy ===== *)
theory Test_Queue
  imports Threadpool_Live
begin

text \<open>
  The tests' subclass \<^verbatim>\<open>TestWorkQueue\<close> (\<^verbatim>\<open>qa/test_threadpool.cc\<close>) with what its \<^verbatim>\<open>_process\<close> does: it
  records the task in the \<^verbatim>\<open>TaskResult\<close> its queue was given. The pool runs as in \<open>Threadpool_System\<close>;
  a worker inside \<^verbatim>\<open>_process\<close> first records, then returns into \<^verbatim>\<open>_void_process\<close>.
\<close>

section \<open>State and operations\<close>

record TestTask =
  task_id :: int
  task_value :: int

text \<open>\<^verbatim>\<open>int total_processed\<close> has 32 bits.\<close>

record TaskResult =
  processed_ids :: "int list"
  total_processed :: "32 word"

definition new_result :: TaskResult where
  "new_result = \<lparr>processed_ids = [], total_processed = 0\<rparr>"

definition add_processed :: "int \<Rightarrow> TaskResult \<Rightarrow> TaskResult" where
  "add_processed i R = R\<lparr>processed_ids := processed_ids R @ [i], total_processed := total_processed R + 1\<rparr>"

text \<open>\<^verbatim>\<open>_process\<close>, the output and the sleep left out; \<open>None\<close> is a null \<^verbatim>\<open>result\<close>.\<close>

definition test_process :: "TestTask \<Rightarrow> TaskResult option \<Rightarrow> TaskResult option" where
  "test_process task res = (case res of None \<Rightarrow> None | Some R \<Rightarrow> Some (add_processed (task_id task) R))"

text \<open>The pool, the result of each queue, and the workers that have recorded the task they process.\<close>

record test_run =
  tr_pool :: "(TestTask list, TestTask) ThreadPool"
  tr_result :: "nat \<Rightarrow> TaskResult option"
  tr_recorded :: "tid set"

definition stays :: "('q, 'u) ThreadPool \<Rightarrow> ('q, 'u) ThreadPool \<Rightarrow> bool" where
  "stays s s' \<longleftrightarrow> (\<forall>t q u. tp_pc s t = W_proc q u \<longrightarrow> tp_pc s' t = W_proc q u)"

inductive teststep :: "test_run \<Rightarrow> test_run \<Rightarrow> bool" where
  pool: "tpstep test_ops (tr_pool r) s \<Longrightarrow> stays (tr_pool r) s \<Longrightarrow> teststep r (r\<lparr>tr_pool := s\<rparr>)"
| recorded: "tp_pc (tr_pool r) t = W_proc q u \<Longrightarrow> t \<notin> tr_recorded r \<Longrightarrow>
    teststep r (r\<lparr>tr_result := (tr_result r)(q := test_process u (tr_result r q)),
                  tr_recorded := insert t (tr_recorded r)\<rparr>)"
| returned: "tp_pc (tr_pool r) t = W_proc q u \<Longrightarrow> t \<in> tr_recorded r \<Longrightarrow>
    teststep r (r\<lparr>tr_pool := goto_point t (W_fin q) (void_process_put q u (tr_pool r)),
                  tr_recorded := tr_recorded r - {t}\<rparr>)"

text \<open>From the constructors on, each queue with a fresh result or none.\<close>

inductive test_reach :: "test_run \<Rightarrow> bool" where
  start: "fresh_queues qs \<Longrightarrow> \<forall>q. res q = None \<or> res q = Some new_result \<Longrightarrow>
    test_reach \<lparr>tr_pool = ThreadPool_ctor hb nm tn n grace suicide_grace qs, tr_result = res, tr_recorded = {}\<rparr>"
| step: "test_reach r \<Longrightarrow> teststep r r' \<Longrightarrow> test_reach r'"

section \<open>What the pool has handled\<close>

definition handled :: "('q, 'u) ThreadPool \<Rightarrow> nat \<Rightarrow> 'u multiset" where
  "handled s q = tp_finished s q + mset (to_finish (wqs s q))"

lemma handled_loop:
  assumes "worker_loop ops e t s = Ret () s'" "tp_old_threads s = []"
  shows "handled s' q = handled s q"
  using worker_loop_effect [OF assms] by (auto simp: loop_effect_def handled_def take_item_def)

lemma handled_finish_item: "to_finish (wqs s q) \<noteq> [] \<Longrightarrow> handled (finish_item q s) p = handled s p"
  by (cases "to_finish (wqs s q)") (auto simp: handled_def)

lemma handled_start: "start_threads ws s = Ret () s' \<Longrightarrow> handled s' q = handled s q"
  by (induction ws arbitrary: s) (auto simp: handled_def outcome_inv split: if_splits)

lemma handled_clear: "handled (clear_queues ops s) q = handled s q"
proof -
  have "tp_finished (fold (\<lambda>q. upd_wq q (f q)) qs s) = tp_finished s" for f qs
    by (induction qs arbitrary: s) simp_all
  then have "tp_finished (clear_queues ops s) = tp_finished s" by (simp add: clear_queues_def)
  then show ?thesis by (simp add: handled_def clear_queues_fields)
qed

lemma handled_callers:
  "handled (pause_turn t s) q = handled s q" "handled (tp_pause_call t s) q = handled s q"
  "handled (drain_turn ops t wq s) q = handled s q" "handled (tp_drain_call ops t wq s) q = handled s q"
  "handled (goto_point t p (tp_unpause s)) q = handled s q" "handled (tp_wake s) q = handled s q"
  "handled (wq_queue ops woken i u s) q = handled s q" "handled (wq_queue_front ops woken i u s) q = handled s q"
  "handled (add_work_queue i s) q = handled s q" "handled (remove_work_queue i s) q = handled s q"
  "handled (WorkQueueVal_dtor i s) q = handled s q" "handled (s\<lparr>tp_cond := ts\<rparr>) q = handled s q"
  "handled (s\<lparr>tp_wait_cond := ts\<rparr>) q = handled s q"
  by (simp_all add: handled_def pause_turn_def tp_pause_call_def drain_turn_def tp_drain_call_def tp_unpause_def
      tp_wake_def wq_queue_def wq_queue_front_def notify_workers_def note_queued_def upd_wq_def
      add_work_queue_def remove_work_queue_def WorkQueueVal_dtor_def)

lemma handled_stop:
  "tp_stop_begin t s = Ret () s' \<Longrightarrow> handled s' q = handled s q"
  "tp_stop_finish ops t s = Ret () s' \<Longrightarrow> handled s' q = handled s q"
proof -
  show "handled s' q = handled s q" if "tp_stop_begin t s = Ret () s'"
    using that by (auto simp: tp_stop_begin_def join_old_threads_def bind_eq_Ret_iff handled_def split: if_splits)
  show "handled s' q = handled s q" if "tp_stop_finish ops t s = Ret () s'"
    using that handled_clear [of ops "s\<lparr>tp_threads := []\<rparr>" q]
    by (auto simp: tp_stop_finish_def Let_def handled_def split: if_splits)
qed

lemma handled_new_queue:
  assumes "counts_inv s" "\<forall>t. \<not> works_on i (tp_pc s t)"
  shows "handled (WorkQueueVal_ctor i n g sg s) q = handled s q"
  using unused_queue(2) [OF assms] by (simp add: handled_def WorkQueueVal_ctor_def add_work_queue_def upd_wq_def)

lemma handled_beat:
  "reset_tp_timeout now h s = Ret () s' \<Longrightarrow> handled s' q = handled s q"
  "suspent_tp_timeout now h s = Ret () s' \<Longrightarrow> handled s' q = handled s q"
  by (auto simp: reset_tp_timeout_def suspent_tp_timeout_def with_hb_Ret handled_def)

lemma handled_kept:
  assumes "tpstep test_ops s s'" "stays s s'" "tp_inv test_ops mset s"
  shows "handled s' q = handled s q"
proof -
  have old: "tp_old_threads s = []" and counts: "counts_inv s"
    using assms(3) by (simp_all add: tp_inv_def sets_inv_def)
  from assms(1) show ?thesis
  proof cases
    case (enter t e)
    then obtain h x where "worker_loop test_ops e t (s\<lparr>hbmap := h, hb_of := x\<rparr>) = Ret () s'"
      using worker_enter_Ret by blast
    from handled_loop [OF this] old show ?thesis by (simp add: handled_def)
  next
    case (awake t e)
    then show ?thesis using handled_loop old by blast
  next
    case (take t p e)
    from worker_process_Ret [OF take(2)] show ?thesis by (auto simp: handled_def)
  next
    case (processed t p u)
    then show ?thesis using assms(2) unfolding stays_def by fastforce
  next
    case (finish t p e)
    note f = worker_finish_Ret [OF finish(2)]
    have "tp_old_threads (finish_item p s) = []" using old by (simp add: finish_item_def Let_def)
    then show ?thesis using handled_loop f handled_finish_item by metis
  next
    case (start ws)
    then show ?thesis using handled_start by (simp add: tp_start_def)
  next
    case (new_queue i n g sg)
    then show ?thesis using handled_new_queue [OF counts] by simp
  qed (simp_all add: handled_callers handled_stop handled_beat)
qed

section \<open>What has been recorded\<close>

text \<open>
  A result holds the tasks its queue has handled and those that a worker has recorded and not
  yet put into \<^verbatim>\<open>to_finish\<close>.
\<close>

definition recorded_by :: "tid set \<Rightarrow> ('q, 'u) ThreadPool \<Rightarrow> nat \<Rightarrow> 'u multiset" where
  "recorded_by T s q = (\<Sum>t \<in> T. in_hand q (tp_pc s t))"

definition result_inv :: "TestTask multiset \<Rightarrow> TaskResult option \<Rightarrow> bool" where
  "result_inv tasks res \<longleftrightarrow> (\<forall>R. res = Some R \<longrightarrow> mset (processed_ids R) = image_mset task_id tasks \<and>
     total_processed R = word_of_nat (length (processed_ids R)))"

definition test_inv :: "test_run \<Rightarrow> bool" where
  "test_inv r \<longleftrightarrow> finite (tr_recorded r) \<and> (\<forall>t \<in> tr_recorded r. \<exists>q u. tp_pc (tr_pool r) t = W_proc q u) \<and>
     (\<forall>q. result_inv (handled (tr_pool r) q + recorded_by (tr_recorded r) (tr_pool r) q) (tr_result r q))"

lemma recorded_stays:
  assumes "stays s s'" "\<forall>t \<in> T. \<exists>q u. tp_pc s t = W_proc q u"
  shows "recorded_by T s' q = recorded_by T s q"
  unfolding recorded_by_def using assms by (intro sum.cong) (auto simp: stays_def)

lemma recorded_insert:
  "finite T \<Longrightarrow> t \<notin> T \<Longrightarrow> recorded_by (insert t T) s q = in_hand q (tp_pc s t) + recorded_by T s q"
  by (simp add: recorded_by_def)

lemma recorded_put:
  assumes "finite T" "t \<in> T" "tp_pc s t = W_proc q u"
  defines "s' \<equiv> goto_point t (W_fin q) (void_process_put q u s)"
  shows "handled s' p + recorded_by (T - {t}) s' p = handled s p + recorded_by T s p"
proof -
  have "recorded_by (T - {t}) s' p = recorded_by (T - {t}) s p"
    unfolding recorded_by_def s'_def by (intro sum.cong) (auto simp: void_process_put_def)
  moreover have "recorded_by T s p = in_hand p (tp_pc s t) + recorded_by (T - {t}) s p"
    using assms(1,2) by (simp add: recorded_by_def sum.remove)
  ultimately show ?thesis using assms(3) by (simp add: handled_def s'_def void_process_put_def)
qed

lemma result_inv_process:
  "result_inv tasks res \<Longrightarrow> result_inv (add_mset u tasks) (test_process u res)"
  by (auto simp: result_inv_def test_process_def add_processed_def split: option.splits)

lemma teststep_inv:
  assumes "teststep r r'" "test_inv r" "tp_inv test_ops mset (tr_pool r)"
  shows "test_inv r'"
  using assms
proof (induction rule: teststep.induct)
  case (pool r s)
  have w: "\<forall>t \<in> tr_recorded r. \<exists>q u. tp_pc (tr_pool r) t = W_proc q u" using pool(3) by (simp add: test_inv_def)
  have "handled s q + recorded_by (tr_recorded r) s q =
      handled (tr_pool r) q + recorded_by (tr_recorded r) (tr_pool r) q" for q
    using handled_kept [OF pool(1,2,4)] recorded_stays [OF pool(2) w] by simp
  moreover have "\<forall>t \<in> tr_recorded r. \<exists>q u. tp_pc s t = W_proc q u" using w pool(2) unfolding stays_def by blast
  ultimately show ?case using pool(3) by (simp add: test_inv_def)
next
  case (recorded r t q u)
  let ?T = "tr_recorded r"
  have "handled (tr_pool r) p + recorded_by (insert t ?T) (tr_pool r) p =
      in_hand p (W_proc q u) + (handled (tr_pool r) p + recorded_by ?T (tr_pool r) p)" for p
    using recorded(1-3) by (simp add: recorded_insert test_inv_def)
  then show ?case using recorded(1,3) result_inv_process by (simp add: test_inv_def)
next
  case (returned r t q u)
  have "finite (tr_recorded r)" using returned(3) by (simp add: test_inv_def)
  note put = recorded_put [OF this returned(2,1)]
  have "tp_pc (void_process_put q u (tr_pool r)) = tp_pc (tr_pool r)" by (simp add: void_process_put_def)
  then show ?case using returned(3) by (simp add: test_inv_def put)
qed

lemma test_reach_inv:
  assumes "test_reach r"
  shows "tp_reach (tr_pool r) \<and> test_inv r"
  using assms
proof (induction rule: test_reach.induct)
  case (start qs res hb nm tn n grace suicide_grace)
  have "result_inv {#} (res q)" for q using start(2) [rule_format, of q] by (auto simp: result_inv_def new_result_def)
  then have "test_inv \<lparr>tr_pool = ThreadPool_ctor hb nm tn n grace suicide_grace qs, tr_result = res, tr_recorded = {}\<rparr>"
    using start(1) by (simp add: test_inv_def handled_def recorded_by_def ThreadPool_ctor_def fresh_queues_def)
  then show ?case using tp_reach.start [OF start(1)] by simp
next
  case (step r r')
  have "tp_reach (tr_pool r')" using step(2,3)
    by (cases rule: teststep.cases) (auto intro: tp_reach.step tpstep.processed)
  moreover have "test_inv r'" using teststep_inv [OF step(2) _ tp_reach_inv] step(3) by simp
  ultimately show ?case by simp
qed

section \<open>Every run of the pool is one of the test\<close>

lemma stays_at:
  assumes "\<And>u. u \<noteq> t \<Longrightarrow> tp_pc s' u = tp_pc s u" "\<And>q u. tp_pc s t \<noteq> W_proc q u"
  shows "stays s s'"
  unfolding stays_def using assms by metis

lemma loop_elsewhere:
  assumes "worker_loop ops e t s = Ret () s'" "tp_old_threads s = []" "u \<noteq> t"
  shows "tp_pc s' u = tp_pc s u"
  using worker_loop_effect [OF assms(1,2)] assms(3) by (auto simp: loop_effect_def take_item_def)

lemma start_stays: "start_threads ws s = Ret () s' \<Longrightarrow> \<forall>w \<in> set ws. tp_pc s w = Outside \<Longrightarrow> distinct ws \<Longrightarrow> stays s s'"
proof (induction ws arbitrary: s)
  case (Cons w ws)
  let ?s = "goto_point w W_new (s\<lparr>tp_threads := tp_threads s @ [w]\<rparr>)"
  show ?case
  proof (cases "length (tp_threads s) < tp_num_threads s")
    case True
    then have "start_threads ws ?s = Ret () s'" using Cons.prems(1) by (auto simp: outcome_inv)
    then have "stays ?s s'" using Cons.prems(2,3) by (intro Cons.IH) auto
    moreover have "stays s ?s" using Cons.prems(2) by (intro stays_at [of w]) simp_all
    ultimately show ?thesis unfolding stays_def by blast
  qed (use Cons.prems(1) in \<open>simp add: stays_def\<close>)
qed (simp add: stays_def split: if_splits)

lemma callers_stay:
  "tp_pc s t = Outside \<Longrightarrow> stays s (tp_pause_call t s)" "tp_pc s t = C_pausing \<Longrightarrow> stays s (pause_turn t s)"
  "tp_pc s t = C_paused \<Longrightarrow> stays s (goto_point t Outside (tp_unpause s))"
  "tp_pc s t = Outside \<Longrightarrow> stays s (tp_drain_call ops t wq s)" "tp_pc s t = C_draining wq \<Longrightarrow> stays s (drain_turn ops t wq s)"
  "tp_pc s t = Outside \<Longrightarrow> tp_stop_begin t s = Ret () s' \<Longrightarrow> stays s s'"
  "tp_pc s t = C_stopping \<Longrightarrow> tp_stop_finish ops t s = Ret () s' \<Longrightarrow> stays s s'"
  by (rule stays_at [of t]; auto simp: tp_pause_call_def pause_turn_def tp_unpause_def tp_drain_call_def drain_turn_def
      tp_stop_begin_def tp_stop_finish_def join_old_threads_def outcome_inv clear_queues_fields Let_def split: if_splits)+

lemma quiet_stay:
  "stays s (tp_wake s)" "stays s (s\<lparr>tp_cond := ts\<rparr>)" "stays s (s\<lparr>tp_wait_cond := ts\<rparr>)"
  "stays s (wq_queue ops woken i v s)" "stays s (wq_queue_front ops woken i v s)" "stays s (add_work_queue i s)"
  "stays s (remove_work_queue i s)" "stays s (WorkQueueVal_ctor i n g sg s)" "stays s (WorkQueueVal_dtor i s)"
  "reset_tp_timeout now h s = Ret () s' \<Longrightarrow> stays s s'" "suspent_tp_timeout now h s = Ret () s' \<Longrightarrow> stays s s'"
  by (auto simp: stays_def tp_wake_def wq_queue_def wq_queue_front_def notify_workers_def note_queued_def upd_wq_def
      add_work_queue_def remove_work_queue_def WorkQueueVal_ctor_def WorkQueueVal_dtor_def reset_tp_timeout_def
      suspent_tp_timeout_def with_hb_Ret)

lemma tpstep_stays:
  assumes "tpstep test_ops s s'" "tp_inv test_ops mset s"
  shows "stays s s' \<or> (\<exists>t q u. tp_pc s t = W_proc q u \<and> s' = goto_point t (W_fin q) (void_process_put q u s))"
proof -
  have old: "tp_old_threads s = []" using assms(2) by (simp add: tp_inv_def sets_inv_def)
  from assms(1) show ?thesis
  proof cases
    case (enter t e)
    then obtain h x where "worker_loop test_ops e t (s\<lparr>hbmap := h, hb_of := x\<rparr>) = Ret () s'"
      using worker_enter_Ret by blast
    from loop_elsewhere [OF this] old enter(1) show ?thesis by (intro disjI1 stays_at [of t]) simp_all
  next
    case (awake t e)
    then show ?thesis using loop_elsewhere [OF awake(3) old] by (intro disjI1 stays_at [of t]) simp_all
  next
    case (take t p e)
    from worker_process_Ret [OF take(2)] take(1) show ?thesis by (intro disjI1 stays_at [of t]) auto
  next
    case (finish t p e)
    have "tp_old_threads (finish_item p s) = []" using old by (simp add: finish_item_def Let_def)
    then have "tp_pc s' u = tp_pc s u" if "u \<noteq> t" for u
      using loop_elsewhere [OF worker_finish_Ret [OF finish(2), THEN conjunct2] _ that] by simp
    then show ?thesis using finish(1) by (intro disjI1 stays_at [of t]) simp_all
  next
    case (start ws)
    then show ?thesis using start_stays [OF start(3) [unfolded tp_start_def]] by blast
  next
    case (processed t q u)
    then show ?thesis by blast
  qed (simp_all add: quiet_stay callers_stay)
qed

text \<open>So recording restricts the pool in nothing: whatever state it reaches, it reaches with results.\<close>

lemma pool_run_recorded:
  assumes "(tpstep test_ops)\<^sup>*\<^sup>* (ThreadPool_ctor hb nm tn n g sg qs) s" "fresh_queues qs"
  shows "\<exists>r. test_reach r \<and> tr_pool r = s \<and> tr_recorded r = {} \<and> (\<forall>q. tr_result r q \<noteq> None)"
  using assms(1)
proof (induction rule: rtranclp_induct)
  case base
  show ?case
    using test_reach.start [OF assms(2), of "\<lambda>_. Some new_result" hb nm tn n g sg]
    by (intro exI [of _ "\<lparr>tr_pool = ThreadPool_ctor hb nm tn n g sg qs, tr_result = \<lambda>_. Some new_result, tr_recorded = {}\<rparr>"]) simp
next
  case (step s s')
  then obtain r where r: "test_reach r" "tr_pool r = s" "tr_recorded r = {}" "\<forall>q. tr_result r q \<noteq> None" by blast
  have "tp_inv test_ops mset s" using test_reach_inv [OF r(1)] r(2) tp_reach_inv by blast
  from tpstep_stays [OF step(2) this] show ?case
  proof
    assume "stays s s'"
    then have "teststep r (r\<lparr>tr_pool := s'\<rparr>)" using step(2) r(2) by (intro teststep.pool) simp_all
    then show ?thesis using test_reach.step [OF r(1)] r(3,4) by (intro exI [of _ "r\<lparr>tr_pool := s'\<rparr>"]) simp
  next
    assume "\<exists>t q u. tp_pc s t = W_proc q u \<and> s' = goto_point t (W_fin q) (void_process_put q u s)"
    then obtain t q u where t: "tp_pc s t = W_proc q u" "s' = goto_point t (W_fin q) (void_process_put q u s)" by blast
    let ?a = "r\<lparr>tr_result := (tr_result r)(q := test_process u (tr_result r q)), tr_recorded := insert t (tr_recorded r)\<rparr>"
    let ?b = "?a\<lparr>tr_pool := goto_point t (W_fin q) (void_process_put q u (tr_pool ?a)), tr_recorded := tr_recorded ?a - {t}\<rparr>"
    have "teststep r ?a" using t(1) r(2,3) by (intro teststep.recorded) simp_all
    moreover have "teststep ?a ?b" using t(1) r(2) by (intro teststep.returned) simp_all
    ultimately have "test_reach ?b" using r(1) test_reach.step by blast
    moreover have "\<forall>p. tr_result ?b p \<noteq> None" using r(4) by (auto simp: test_process_def split: option.splits)
    ultimately show ?thesis using r(2,3) t(2) by (intro exI [of _ ?b]) simp
  qed
qed

section \<open>What the tests check\<close>

text \<open>
  C12: what the tests check. When a call of \<^verbatim>\<open>drain()\<close> on a test queue returns and \<^verbatim>\<open>stop()\<close> has not cleared the
  queues, the queue's result holds the id of every task ever queued, each as often as it was queued and
  no other, and \<^verbatim>\<open>total_processed\<close> is their number, as long as that fits an \<^verbatim>\<open>int\<close>.
\<close>
theorem test_results_complete:
  assumes "test_reach r" "\<not> tp_cleared (tr_pool r)" "tr_result r q = Some R"
    and "(tp_pc (tr_pool r) t = Outside \<and> s' = wq_drain test_ops t q (tr_pool r)) \<or>
      (tp_pc (tr_pool r) t = C_draining (Some q) \<and> t \<notin> set (tp_wait_cond (tr_pool r)) \<and>
       s' = drain_turn test_ops t (Some q) (tr_pool r))"
    and "tp_pc s' t = Outside"
  shows "mset (processed_ids R) = image_mset task_id (tp_queued s' q) \<and>
    (size (tp_queued s' q) < 2 ^ 31 \<longrightarrow> sint (total_processed R) = int (size (tp_queued s' q)))"
proof -
  note reach = test_reach_inv [OF assms(1)]
  note ret = drain_returned [OF assms(4,5)]
  note fin = drained [OF reach [THEN conjunct1] assms(2) ret(1)]
  have idle: "processing (tr_pool r) = 0" using ret(1) by (simp add: drain_waits_def)
  have "\<nexists>q u. tp_pc (tr_pool r) v = W_proc q u" for v using fin by (metis busy.simps(2) one_neq_zero)
  then have none: "tr_recorded r = {}" using reach unfolding test_inv_def by blast
  have "handled (tr_pool r) q = tp_queued s' q"
    using fin ret idle_queues(3) [OF reach_parts(1) [OF reach [THEN conjunct1]] idle] by (simp add: handled_def)
  then have "result_inv (tp_queued s' q) (Some R)"
    using reach none assms(3) by (auto simp: test_inv_def recorded_by_def dest: spec [of _ q])
  then have R: "mset (processed_ids R) = image_mset task_id (tp_queued s' q)"
    "total_processed R = word_of_nat (length (processed_ids R))" by (simp_all add: result_inv_def)
  have "length (processed_ids R) = size (tp_queued s' q)" using R(1) by (metis size_image_mset size_mset)
  then show ?thesis using R by (simp add: signed_of_nat signed_take_bit_int_eq_self)
qed

text \<open>One task, queued on a pool with one worker.\<close>

definition demo_queues :: "nat \<Rightarrow> (TestTask list, TestTask) WorkQueueVal" where
  "demo_queues =
     (\<lambda>_. \<lparr>wq_name = [], wq_items = [], to_process = [], to_finish = [], wq_grace = 0, wq_suicide_grace = 0\<rparr>)"

definition demo_pool :: "(TestTask list, TestTask) ThreadPool" where
  "demo_pool = ThreadPool_ctor hb_demo ''pool'' ''tp'' 1 0 0 demo_queues"

definition demo_queued :: "(TestTask list, TestTask) ThreadPool" where
  "demo_queued = wq_queue test_ops [] 0 \<lparr>task_id = 1, task_value = 10\<rparr> (add_work_queue 0 demo_pool)"

definition demo_started :: "(TestTask list, TestTask) ThreadPool" where
  "demo_started = goto_point 9 W_new (demo_queued\<lparr>tp_threads := [9]\<rparr>)"

lemmas demo_defs = demo_queued_def demo_pool_def demo_queues_def wq_queue_def notify_workers_def note_queued_def upd_wq_def
  add_work_queue_def ThreadPool_ctor_def

lemma demo_run: "(tpstep test_ops)\<^sup>*\<^sup>* demo_pool demo_started"
proof -
  have a: "tpstep test_ops demo_pool (add_work_queue 0 demo_pool)"
    by (rule tpstep.add_queue) (simp add: demo_pool_def demo_queues_def ThreadPool_ctor_def test_ops_def)
  have b: "tpstep test_ops (add_work_queue 0 demo_pool) demo_queued"
    unfolding demo_queued_def by (rule tpstep.queue) (simp add: demo_pool_def ThreadPool_ctor_def add_work_queue_def)
  have "tp_start [9] demo_queued = Ret () demo_started"
    by (simp add: demo_started_def demo_defs tp_start_def c_str_def assert_that_def goto_point_def)
  then have c: "tpstep test_ops demo_queued demo_started"
    by (intro tpstep.start [of "[9]"]) (simp_all add: demo_defs)
  show ?thesis
    by (rule converse_rtranclp_into_rtranclp [OF a converse_rtranclp_into_rtranclp
          [OF b r_into_rtranclp [of "tpstep test_ops", OF c]]])
qed

lemma demo_facts:
  "\<not> tp_cleared demo_started" "tp_pause demo_started = 0" "\<not> tp_stop demo_started" "tp_pc demo_started 9 = W_new"
  "work_queues demo_started = [0]" "tp_queued demo_started 0 = {#\<lparr>task_id = 1, task_value = 10\<rparr>#}"
  by (simp_all add: demo_started_def goto_point_def demo_defs)

lemma demo_finished:
  "\<exists>s. (tpstep test_ops)\<^sup>*\<^sup>* demo_pool s \<and> \<not> tp_cleared s \<and> tp_queued s 0 = {#\<lparr>task_id = 1, task_value = 10\<rparr>#} \<and>
     \<not> drain_waits test_ops (Some 0) s \<and> (\<exists>t. tp_pc s t = Outside)"
proof -
  let ?e = "\<lparr>we_now = time_min, we_bt = bt_demo, we_name = ''9''\<rparr>"
  have qs: "fresh_queues demo_queues" by (simp add: fresh_queues_def demo_queues_def)
  have hb: "m_workers hb_demo = []" by (simp add: hb_demo_def HeartbeatMap_ctor_def)
  note start = demo_run [unfolded demo_pool_def]
  have reach: "tp_reach demo_started" by (rule run_tp_reach [OF start qs])
  have "hb_ok demo_started" by (rule run_hb_ok [OF hb_demo_inv hb start])
  then have run: "running demo_started" using reach demo_facts by (auto simp: running_def intro!: exI [of _ 9])
  obtain xs s where xs: "run_turns (worker_turn test_ops) xs demo_started = Ret () s"
    "no_turn (worker_turn test_ops) ?e s" using tpw.schedule_exists [OF tp_reach_inv [OF reach]] by blast
  have s: "running s" "work_queues s = [0]" "tp_queued s = tp_queued demo_started"
    using run_workers_running [OF xs(1) run] demo_facts(5) by simp_all
  have "hb_in_time (hbmap s) (we_now ?e)" by (simp add: in_time_min)
  from no_turn_idle [OF s(1) this xs(2)] s(2) have "\<not> drain_waits test_ops (Some 0) s"
    by (simp add: drain_waits_def test_ops_def)
  moreover have "(tpstep test_ops)\<^sup>*\<^sup>* demo_pool s"
    using rtranclp_trans [OF demo_run run_turns_steps [OF worker_turn_step xs(1)]] .
  moreover have "finite {t. tp_pc s t \<noteq> Outside}"
    using tp_inv_fin [OF tp_reach_inv] s(1) by (auto simp: running_def fin_pc_def)
  then have "\<exists>t. tp_pc s t = Outside" using ex_new_if_finite [OF infinite_UNIV_nat] by blast
  ultimately show ?thesis using s(1,3) demo_facts(6) by (auto simp: running_def)
qed

theorem test_results_complete_witness:
  "\<exists>r R. test_reach r \<and> tr_result r 0 = Some R \<and> \<not> drain_waits test_ops (Some 0) (tr_pool r) \<and>
     mset (processed_ids R) = {#1#} \<and> sint (total_processed R) = 1"
proof -
  obtain s t where s: "(tpstep test_ops)\<^sup>*\<^sup>* demo_pool s" "\<not> tp_cleared s"
    "tp_queued s 0 = {#\<lparr>task_id = 1, task_value = 10\<rparr>#}" "\<not> drain_waits test_ops (Some 0) s" "tp_pc s t = Outside"
    using demo_finished by blast
  have "fresh_queues demo_queues" by (simp add: fresh_queues_def demo_queues_def)
  from pool_run_recorded [OF s(1) [unfolded demo_pool_def] this] obtain r R where
    r: "test_reach r" "tr_pool r = s" "tr_result r 0 = Some R" by blast
  let ?d = "wq_drain test_ops t 0 s"
  have "drain_waits test_ops (Some 0) (s\<lparr>tp_draining := n\<rparr>) = drain_waits test_ops (Some 0) s" for n
    by (simp add: drain_waits_def)
  then have "tp_pc ?d t = Outside" "tp_queued ?d 0 = {#\<lparr>task_id = 1, task_value = 10\<rparr>#}"
    using s(3,4) by (simp_all add: wq_drain_def tp_drain_call_def drain_turn_def)
  then show ?thesis
    using test_results_complete [OF r(1), of 0 R t ?d] r s(2,4,5) by (intro exI [of _ r] exI [of _ R]) simp
qed

end
