(* ===== verification/Spec2Isabelle.thy ===== *)
theory Spec2Isabelle
  imports Lockdep_Clients Mutex_Progress Recursive_Mutex Condvar_System Threadpool_Lock Threadpool_Spec
    Work_Thread Work_Thread_Sharded Sharded_Live Sharded_Spec Monitor_Sections Queue_Sections Test_Queue
begin

text \<open>
  BlueThread is a C++ library of synchronization objects and thread pools. This development
  models its implementation files under \<^verbatim>\<open>src/\<close> and proves what makes them correct. This
  theory imports all others and holds the properties that span components.

  \<^bold>\<open>The parts and how they interact.\<close> The lock-order checker (\<^verbatim>\<open>synchronization/utils.cc\<close>)
  gives every named lock an identifier and records which lock was held when another one was
  announced. The mutex classes call it from their hooks: \<^verbatim>\<open>BlueMutex\<close>
  (\<^verbatim>\<open>synchronization/mutex.h\<close>, \<^verbatim>\<open>mutex.cc\<close>) and the shared mutex (\<^verbatim>\<open>shared_mutex.h\<close>, \<^verbatim>\<open>shared_mutex.cc\<close>)
  announce before they lock, record after, and remove the entry before they unlock; the
  captured stacks (\<^verbatim>\<open>backtrace.cc\<close>) are stored along. The recursive mutex (\<^verbatim>\<open>mutex_recursive.h\<close>) is
  independent of the checker. The condition variable (\<^verbatim>\<open>condition_variable.h\<close>, \<^verbatim>\<open>.cc\<close>) waits on a
  \<^verbatim>\<open>BlueMutex\<close>. \<^verbatim>\<open>ThreadBase\<close> (\<^verbatim>\<open>thread/thread.cc\<close>, \<^verbatim>\<open>thread/utils.cc\<close>) starts, names and joins a thread. The
  heartbeat map (\<^verbatim>\<open>thread/heartbeat.cc\<close>) keeps one handle per worker under a shared mutex. Both
  thread pools (\<^verbatim>\<open>thread/threadpool.h\<close>, \<^verbatim>\<open>threadpool.cc\<close>, \<^verbatim>\<open>shardedthreadpool.h\<close>, \<^verbatim>\<open>shardedthreadpool.cc\<close>)
  are monitors over a \<^verbatim>\<open>BlueMutex\<close> and two condition variables whose workers register with the
  heartbeat map.

  \<^bold>\<open>How code becomes definitions.\<close> A class is a record with the names of its members, a method a
  function on that record; definitions keep the names of the source, with a prefix where two
  classes share one. A call yields an \<open>outcome\<close> (\<^verbatim>\<open>Prelude\<close>): it returns, throws, ends the
  process (a failed \<^verbatim>\<open>ASSERT\<close>, \<^verbatim>\<open>abort()\<close>), is undefined (a null or dangling pointer, an index out of
  range) or blocks. Integers whose width matters are words: the counter of the recursive mutex,
  the times and graces of the heartbeats, the counters of the sharded pool, the bytes of the
  bitmaps. \<^verbatim>\<open>std::map\<close> is a sorted association list. The clock, the captured frames, the
  demangler, the answers of system calls and the choice of the threads that a notification
  wakes are arguments.

  \<^item> \<open>Prelude\<close>: outcomes, ordered maps with the interface \<open>ordered_map\<close>, bits of bytes. \<open>Schedule\<close>:
    threads that take turns, the interface \<open>schedule\<close> of a number that every turn lowers, the
    interface \<open>simulation\<close> of an abstraction, both interpreted on both pools, and the interface
    \<open>thread_turns\<close> of such a number per thread, interpreted on the sharded pool.
  \<^item> \<open>Backtrace\<close>: capture, demangling of a line, printing.
  \<^item> \<open>Lockdep\<close>: every function of \<^verbatim>\<open>utils.cc\<close> over its file-level variables. \<open>Lockdep_Inv\<close>: the
    invariant, the interface \<open>id_allocator\<close> and its interpretation on \<^verbatim>\<open>lockdep_get_free_id\<close>,
    and \<^verbatim>\<open>does_follow\<close> against the transitive closure. \<open>Lockdep_Ops\<close>: registration,
    unregistration, and the exact verdict and effect of \<^verbatim>\<open>lockdep_will_lock\<close>.
    \<open>Lockdep_Clients\<close>: any sequence of calls that passes identifiers the checker gave out; no call
    indexes out of range.
  \<^item> \<open>Pthread\<close>: POSIX mutexes and read-write locks as documented, and the interface \<open>lockable\<close>
    that \<^verbatim>\<open>std::lock_guard\<close> builds on; it is interpreted on \<^verbatim>\<open>BlueMutex\<close>, on the shared mutex, on
    the write lock of the heartbeat map and on the lock of the pool.
  \<^item> \<open>Mutex\<close>: every method of \<^verbatim>\<open>BlueMutex\<close> with the exact result of each on every branch.
    \<open>Mutex_System\<close>: any number of threads and mutexes, interleaved at the atomic actions of
    \<^verbatim>\<open>lock\<close>, \<^verbatim>\<open>try_lock\<close> and \<^verbatim>\<open>unlock\<close>, the checker shared: mutual exclusion, no failing assertion, and
    no circular wait. \<open>Mutex_Progress\<close>: from a blocked thread the chain of owners leads to a thread
    that can act.
  \<^item> \<open>Recursive_Mutex\<close>, \<open>Shared_Mutex\<close>: their methods, nesting, exclusion, and what the queries say.
  \<^item> \<open>Condvar\<close>: every method cut where the library call sleeps; \<open>Condvar_System\<close>: threads that share
    data through it, all forms of waiting included.
  \<^item> \<open>Lock_Sections\<close>: programs of sections and the interface \<open>section_lock\<close> of a lock that makes them
    atomic; every \<open>lockable\<close> is one (a \<open>sublocale\<close>). \<open>Monitor_Sections\<close>: its interpretation on a
    \<^verbatim>\<open>BlueMutex\<close> with any number of condition variables. \<open>Queue_Sections\<close>: the methods of \<^verbatim>\<open>WorkQueueVal\<close>
    statement by statement against the functions of \<open>Threadpool\<close>.
  \<^item> \<open>Thread_Base\<close>: the class \<^verbatim>\<open>ThreadBase\<close> and the name helpers.
  \<^item> \<open>Heartbeat\<close>: handles, health, timeouts at 64 bits. \<open>Heartbeat_Client\<close>: the interface
    \<open>heartbeat_client\<close> of a program whose threads register; interpreted on both pools.
  \<^item> \<open>Threadpool\<close>: the pool and \<^verbatim>\<open>WorkQueueVal\<close>, one function per section of the pool's lock.
    \<open>Threadpool_System\<close>: workers and callers interleaved (\<open>tpstep\<close>), the interface \<open>work_queue\<close> of a
    queue's subclass, and the invariant. \<open>Threadpool_Props\<close>: the interpretation on the list queue
    of \<^verbatim>\<open>qa/test_threadpool.cc\<close> and the properties: items are conserved, \<^verbatim>\<open>pause()\<close>
    returns only when it may, neither work nor a caller is forgotten.
    \<open>Threadpool_Heartbeat\<close>: the pool as a client of the heartbeat map. \<open>Threadpool_Lock\<close>: the members
    that hand the pool's lock to the caller, on the mutex and the condition variable themselves.
    \<open>Threadpool_Live\<close>: the workers run on their own, and finish all queued work, and \<^verbatim>\<open>drain()\<close> returns
    only then.
    \<open>Threadpool_Spec\<close>: an abstract machine of pending, running and
    finished items that the pool refines. \<open>Work_Thread\<close>: the workers as \<^verbatim>\<open>WorkThread\<close> objects that are
    created and joined through \<^verbatim>\<open>ThreadBase\<close>. \<open>Test_Queue\<close>: the subclass of \<^verbatim>\<open>qa/test_threadpool.cc\<close> with the
    results its tasks leave, and that the counts its tests expect are the right ones.
  \<^item> \<open>Sharded\<close>: the sharded pool, cut at the sections of its lock and at the unlocked reads of its
    atomic flags. \<open>Sharded_System\<close>: its steps and invariant. \<open>Sharded_Runs\<close>: its heartbeats and
    concrete runs. \<open>Sharded_Props\<close>: what \<^verbatim>\<open>pause()\<close> and \<^verbatim>\<open>drain()\<close> guarantee, and the runs in which a
    second \<^verbatim>\<open>drain()\<close>, a \<^verbatim>\<open>stop()\<close> or a restart fails. \<open>Sharded_Turns\<close>: the worker as a
    function from section to section. \<open>Sharded_Live\<close>: \<^verbatim>\<open>pause()\<close>, \<^verbatim>\<open>drain()\<close> and \<^verbatim>\<open>stop()\<close> return after a bounded
    number of turns of each worker, but \<^verbatim>\<open>pause()\<close> during a \<^verbatim>\<open>drain()\<close> may not return at all.
    \<open>Sharded_Spec\<close>: an abstract machine of a queue, processing workers and calls in progress that
    it refines, with the history of calls, returns and processing (\<open>sp_traced\<close>). \<open>Work_Thread_Sharded\<close>: its threads as \<^verbatim>\<open>WorkThreadSharded\<close> objects.
  \<^item> this theory: both pools rely on the heartbeat map; here it is shown that every worker of the
    pool owns one live handle, and that no worker gets stuck in a section of its own.

  \<^bold>\<open>Bounds and fuel.\<close> \<^verbatim>\<open>does_follow\<close> is recursive in the source; its model has the number of
  identifiers (\<open>MAX_LOCKS\<close>, 4096) as fuel, which suffices because the recorded order is acyclic,
  and the theorems state that it returns. The scan for work makes \<open>2 n\<close> turns as in the source,
  shown to visit each of the \<open>n\<close> queues. Loops that wait are cut at the wait, one turn per step, so
  no fuel is needed for them. The turns that workers take on their own are bounded by \<open>work_left\<close>,
  \<open>pause_left\<close>, \<open>drain_left\<close> and \<open>stop_left\<close>, numbers computed from the state in which they start. Everything else is structurally recursive.

  \<^bold>\<open>What is atomic.\<close> Each function of the checker runs under \<^verbatim>\<open>lockdep_mutex\<close> and is one step. In the
  pools a section of the pool's lock is one step, the calls of the heartbeat map in it included;
  that a wait frees and re-acquires the lock is what \<open>Condvar_System\<close> shows, that sections of one lock
  exclude each other what \<open>Mutex_System\<close> shows, and that running a section as one step neither adds nor
  loses a result what \<open>monitor_sections_atomic\<close> shows, for any program that touches its data only inside
  sections. For the methods of the queues, which run under the queue's own lock, the statements are written
  out (\<open>queue_stmt\<close>); the items themselves are also guarded by the pool's lock, under which \<^verbatim>\<open>queue()\<close> puts
  them and the workers call \<^verbatim>\<open>_void_dequeue\<close>. Three sections are larger than the source's: the unlocked joins of
  \<^verbatim>\<open>ThreadPool::stop()\<close> and its second locked section are one step (\<open>tp_stop_finish\<close>), so that no \<^verbatim>\<open>start()\<close> and no
  second \<^verbatim>\<open>stop()\<close> falls between them; the store to \<^verbatim>\<open>stop_threads\<close> and \<^verbatim>\<open>return_waiting_threads()\<close> at the beginning of
  \<^verbatim>\<open>ShardedThreadPool::stop()\<close>, which runs without the lock, are one step (\<open>sp_stop_begin\<close>); and \<^verbatim>\<open>_process\<close> of a shard has its
  effect at its return (\<open>sworker_processed\<close>), with \<^verbatim>\<open>is_shard_empty\<close> a function of the queue alone. A sleeping thread may wake up at any time, as
  after a timeout or a spurious wake-up.

  \<^bold>\<open>What the callers do.\<close> In the runs of the pool (\<open>tpstep\<close>) a queue is empty when it is added, since \<^verbatim>\<open>add_work_queue()\<close>
  notifies nobody, and \<^verbatim>\<open>unpause()\<close> is called by a thread whose \<^verbatim>\<open>pause()\<close> has returned; \<^verbatim>\<open>is_healthy()\<close> is treated in \<open>Heartbeat\<close>
  and is not a step. In the runs of the sharded pool (\<open>spstep\<close>) the queue is set while no worker runs, and \<^verbatim>\<open>start()\<close> and
  \<^verbatim>\<open>stop()\<close> do not overlap. A join waits until the worker has left its loop (\<open>join_work_threads\<close>); what
  \<^verbatim>\<open>pthread_join\<close> and \<^verbatim>\<open>pthread_create\<close> answer is an argument.

  \<^bold>\<open>Not modelled.\<close> The width of the counters that count threads or references, the reference counts of the checker and
  \<^verbatim>\<open>_pause\<close>, \<^verbatim>\<open>_draining\<close> and \<^verbatim>\<open>processing\<close> of the pool: they are integers here and \<^verbatim>\<open>int\<close> in the source, which differs only
  beyond \<open>2 ^ 31\<close> of them. The signal that \<^verbatim>\<open>check_handle\<close> sends before it aborts. The results of the initialisations of mutexes, locks and condition
  variables, which are taken to succeed. Text written to streams; the attribute calls around \<^verbatim>\<open>pthread_*_init\<close>; memory
  reclamation. A queue's base class and its subclass are constructed in one step, at an address no
  worker has an item from; \<open>queue_destroyed_in_use\<close> shows why the latter matters. In the runs of the pool no caller sleeps in \<^verbatim>\<open>_cond\<close> itself: \<^verbatim>\<open>wait(c)\<close> and \<^verbatim>\<open>_wait()\<close> are
  treated on their own in \<open>Threadpool_Lock\<close>, where they turn out to lose the lock they were given.
  The virtual functions of the sharded queue, which no class of the repository implements, are
  arguments, and the theorems that need a property of them (\<open>sharded_drain_empties\<close>,
  \<open>sharded_drain_returns\<close>) state it; \<^verbatim>\<open>_process\<close> is taken to return.
  The test drivers under \<^verbatim>\<open>qa/\<close>, \<^verbatim>\<open>test.cc\<close>, the empty \<^verbatim>\<open>main.cc\<close> and \<^verbatim>\<open>rwlock.h\<close> hold no library code.
\<close>

section \<open>The thread pool and the heartbeat map\<close>

text \<open>
  C14: the workers and their heartbeats. A pool built over a heartbeat map that is free and has
  no worker, run in any order of steps over any kind of work queue: the map always lists one
  handle per worker that has registered and not left, no two of them share one, every call a
  worker makes with its own handle finds it, a worker that leaves can always remove it, and
  once no worker is left the map can be destroyed.
\<close>
theorem pool_heartbeats:
  assumes "hb_inv hb" "hb_writer hb = None" "m_workers hb = []"
    and "(tpstep ops)\<^sup>*\<^sup>* (ThreadPool_ctor hb nm tn n g sg qs) s"
  shows "length (m_workers (hbmap s)) = card {t. has_hb (tp_pc s t)} \<and>
    inj_on (hb_of s) {t. has_hb (tp_pc s t)} \<and>
    (has_hb (tp_pc s t) \<longrightarrow> reset_timeout now (hb_of s t) g' sg' (hbmap s) \<noteq> Undef \<and>
       (\<exists>m. remove_worker t bt (hb_of s t) (hbmap s) = Ret () m)) \<and>
    ((\<forall>u. \<not> has_hb (tp_pc s u)) \<longrightarrow> HeartbeatMap_dtor (hbmap s) = Ret () (hbmap s))"
proof -
  have rel: "hb_rel (hbmap s) (hb_of s) (hb_threads s)"
    using assms by (intro tph.run_rel [OF assms(4)] tph.fresh_rel)
      (simp_all add: hb_threads_def ThreadPool_ctor_def)
  show ?thesis using tph.handles_owned [OF rel] unfolding hb_threads_def by blast
qed

lemma worker_enter_idle:
  assumes "hb_inv (hbmap s)" "hb_writer (hbmap s) = None" "work_queues s = []" "\<not> tp_stop s"
    "tp_old_threads s = []"
  shows "\<exists>s'. worker_enter ops e t s = Ret () s' \<and> tp_pc s' t = W_sleep"
proof -
  obtain m where m: "add_worker t (we_bt e) (tp_name s @ '' thread '' @ we_name e) t (hbmap s) =
      Ret (next_addr (hbmap s)) m"
    "handles m (next_addr (hbmap s)) =
      Some ((new_handle (tp_name s @ '' thread '' @ we_name e))\<lparr>hh_thread_id := t\<rparr>)"
    using add_worker_run [OF assms(1,2)] by fastforce
  have "\<exists>m'. reset_timeout (we_now e) (next_addr (hbmap s)) (tp_grace s) (tp_suicide_grace s) m = Ret () m'"
    using reset_timeout_run [OF m(2)] by (simp add: new_handle_def expired_def)
  then show ?thesis
    using m(1) assms(3-5)
    by (auto simp: worker_enter_def worker_loop_def worker_sleep_def join_old_threads_def with_hb_def)
qed

lemma tp0_started: "tpstep test_ops tp0 (goto_point 9 W_new (tp0\<lparr>tp_threads := [9]\<rparr>))"
proof -
  have tp0: "tp_pc tp0 9 = Outside" "tp_threads tp0 = []" "tp_num_threads tp0 = 1" "tp_thread_name tp0 = ''tp''"
    by (simp_all add: tp0_def ThreadPool_ctor_def)
  then have "tp_start [9] tp0 = Ret () (goto_point 9 W_new (tp0\<lparr>tp_threads := [9]\<rparr>))"
    by (simp add: tp_start_def c_str_def assert_that_def goto_point_def)
  then show ?thesis by (intro tpstep.start [of "[9]"]) (simp_all add: tp0)
qed

theorem pool_heartbeats_witness:
  "\<exists>s. (tpstep test_ops)\<^sup>*\<^sup>* tp0 s \<and> tp_pc s 9 = W_sleep \<and>
     length (m_workers (hbmap s)) = card {t. has_hb (tp_pc s t)} \<and>
     (\<exists>m. remove_worker 9 bt_demo (hb_of s 9) (hbmap s) = Ret () m)"
proof -
  let ?a = "goto_point 9 W_new (tp0\<lparr>tp_threads := [9]\<rparr>)"
  obtain s where s: "worker_enter test_ops \<lparr>we_now = 0, we_bt = bt_demo, we_name = ''9''\<rparr> 9 ?a = Ret () s"
    "tp_pc s 9 = W_sleep"
    using worker_enter_idle [of ?a] hb_demo_inv
    by (force simp: tp0_def ThreadPool_ctor_def goto_point_def)
  have "tpstep test_ops ?a s" by (rule tpstep.enter [OF _ s(1)]) simp
  with tp0_started have run: "(tpstep test_ops)\<^sup>*\<^sup>* tp0 s" by simp
  have "m_workers hb_demo = []" by (simp add: hb_demo_def HeartbeatMap_ctor_def)
  then show ?thesis
    using pool_heartbeats [OF hb_demo_inv _ run [unfolded tp0_def], of 9] s(2) run by auto
qed

text \<open>
  C15: a worker never gets stuck. In every state of a pool built over a free heartbeat map, as
  long as no worker has passed its suicide timeout, a worker that is awake and not inside
  \<^verbatim>\<open>_process\<close> completes the section it is about to run, whichever it is: registering, one pass
  of the loop with its scan, taking an item, or finishing one. None of them waits, fails an
  assertion or follows a dangling handle.
\<close>
theorem pool_worker_progress:
  assumes "hb_inv hb" "hb_writer hb = None" "m_workers hb = []" "fresh_queues qs"
    and "(tpstep test_ops)\<^sup>*\<^sup>* (ThreadPool_ctor hb nm tn n g sg qs) s" "hb_in_time (hbmap s) (we_now e)"
  shows "case tp_pc s t of
      W_new \<Rightarrow> \<exists>s'. worker_enter test_ops e t s = Ret () s'
    | W_sleep \<Rightarrow> \<exists>s'. worker_loop test_ops e t s = Ret () s'
    | W_got q \<Rightarrow> \<exists>s'. worker_process e t q s = Ret () s'
    | W_fin q \<Rightarrow> \<exists>s'. worker_finish test_ops e t q s = Ret () s'
    | _ \<Rightarrow> True"
proof -
  note parts = reach_parts [OF run_tp_reach [OF assms(5,4)]]
  have old: "tp_old_threads s = []" using parts(3) by (simp add: sets_inv_def)
  have rel: "hb_rel (hbmap s) (hb_of s) (hb_threads s)"
    using assms(1-3) by (intro tph.run_rel [OF assms(5)] tph.fresh_rel)
      (simp_all add: hb_threads_def ThreadPool_ctor_def)
  then have ok: "hb_ok s" by (simp add: hb_ok_def)
  show ?thesis
  proof (cases "tp_pc s t")
    case W_new
    then show ?thesis using worker_enter_returns [OF old ok _ assms(6)] by simp
  next
    case W_sleep
    then show ?thesis using worker_loop_returns [OF old rel _ assms(6), of t] by (simp add: in_hb_threads)
  next
    case (W_got q)
    then show ?thesis
      using worker_process_returns [OF ok W_got item_waiting(1) [OF parts(1) W_got] assms(6)] by simp
  next
    case (W_fin q)
    then show ?thesis
      using worker_finish_returns [OF old ok W_fin item_waiting(2) [OF parts(1) W_fin] assms(6)] by simp
  qed simp_all
qed

theorem pool_worker_progress_witness:
  "\<exists>s e s'. (tpstep test_ops)\<^sup>*\<^sup>* tp0 s \<and> tp_pc s 9 = W_new \<and> worker_enter test_ops e 9 s = Ret () s'"
proof -
  let ?a = "goto_point 9 W_new (tp0\<lparr>tp_threads := [9]\<rparr>)"
  let ?e = "\<lparr>we_now = 0, we_bt = bt_demo, we_name = ''9''\<rparr>"
  have run: "(tpstep test_ops)\<^sup>*\<^sup>* tp0 ?a" using tp0_started by blast
  have "m_workers hb_demo = []" "hbmap ?a = hb_demo"
    by (simp_all add: hb_demo_def HeartbeatMap_ctor_def tp0_def ThreadPool_ctor_def)
  moreover have "hb_in_time hb_demo (we_now ?e)"
    by (simp add: hb_in_time_def dead_def hb_demo_def HeartbeatMap_ctor_def)
  ultimately have "\<exists>s'. worker_enter test_ops ?e 9 ?a = Ret () s'"
    using pool_worker_progress [OF hb_demo_inv _ _ run [unfolded tp0_def], of ?e 9]
    by (simp add: fresh_queues_def tp0_def)
  then show ?thesis using run by force
qed

end
